(* ===== verification/Prelude.thy ===== *)
theory Prelude
  imports Main "HOL-Library.Word"
begin

text \<open>
  Shared vocabulary of the development: the machine types of the program, the outcome of a
  network round trip, and the generic lemmas on lists, options and 64-bit words that the
  component theories rest on.

  \<^item> \<open>uuid\<close> is the 16-byte array of \<^verbatim>\<open>github.com/google/uuid\<close>, as one 128-bit word.
  \<^item> \<open>i64\<close> is Go's \<^verbatim>\<open>int64\<close> and the \<^verbatim>\<open>bigint\<close> of the schema: a 64-bit word
    read through \<^const>\<open>sint\<close>. Go's \<open>+\<close> wraps; SQL's \<open>+\<close> raises, see \<open>bigint_add\<close>.
  \<^item> \<open>time\<close> is an instant in nanoseconds since the Unix epoch and \<open>duration\<close> a difference
    of two; neither is bounded, and the microsecond rounding of \<^verbatim>\<open>timestamptz\<close> is not modelled.
\<close>

type_synonym uuid = "128 word"
type_synonym i64 = "64 word"
type_synonym time = int
type_synonym duration = int

named_theorems row_simps \<open>rewriting of row lookups through updates and inserts\<close>

section \<open>Sixty-four bit integers\<close>

text \<open>
  Addition of two \<^verbatim>\<open>bigint\<close> values: PostgreSQL raises \<^verbatim>\<open>numeric_value_out_of_range\<close>
  where Go would wrap around.
\<close>

definition bigint_add :: "i64 \<Rightarrow> i64 \<Rightarrow> i64 option" where
  "bigint_add a b =
     (let s = sint a + sint b
      in if - (2 ^ 63) \<le> s \<and> s < 2 ^ 63 then Some (a + b) else None)"

lemma sint_range: "- (2 ^ 63) \<le> sint (a :: i64)" "sint (a :: i64) < 2 ^ 63"
  using sint_ge [of a] sint_lt [of a] by simp_all

lemma sint_add_in_range:
  fixes a b :: i64
  assumes "- (2 ^ 63) \<le> sint a + sint b" and "sint a + sint b < 2 ^ 63"
  shows "sint (a + b) = sint a + sint b"
proof -
  have "sint (a + b) = signed_take_bit 63 (sint a + sint b)"
    by (simp add: sint_word_ariths)
  also have "\<dots> = sint a + sint b"
    using assms by (simp add: signed_take_bit_int_eq_self)
  finally show ?thesis .
qed

lemma sint_add_wraps:
  fixes a b :: i64
  assumes "2 ^ 63 \<le> sint a + sint b"
  shows "sint (a + b) = sint a + sint b - 2 ^ 64"
proof -
  have "take_bit 64 (sint a + sint b) = take_bit 64 (sint a + sint b - 2 ^ 64)"
    by (simp only: take_bit_eq_mod minus_mod_self2)
  then have "signed_take_bit 63 (sint a + sint b) = signed_take_bit 63 (sint a + sint b - 2 ^ 64)"
    by (simp add: signed_take_bit_eq_iff_take_bit_eq)
  moreover have "sint (a + b) = signed_take_bit 63 (sint a + sint b)"
    by (simp add: sint_word_ariths)
  ultimately have "sint (a + b) = signed_take_bit 63 (sint a + sint b - 2 ^ 64)"
    by simp
  also have "\<dots> = sint a + sint b - 2 ^ 64"
    using assms sint_lt [of a] sint_lt [of b] by (intro signed_take_bit_int_eq_self) simp_all
  finally show ?thesis .
qed

lemma bigint_add_word: "bigint_add a b = Some c \<Longrightarrow> c = a + b"
  by (auto simp: bigint_add_def Let_def split: if_splits)

lemma bigint_add_sint: "bigint_add a b = Some c \<Longrightarrow> sint c = sint a + sint b"
  by (auto simp: bigint_add_def Let_def sint_add_in_range split: if_splits)

lemma bigint_add_Some:
  assumes "- (2 ^ 63) \<le> sint a + sint b" and "sint a + sint b < 2 ^ 63"
  shows "bigint_add a b = Some (a + b)"
  using assms by (simp add: bigint_add_def Let_def)

lemma bigint_add_None_iff:
  "bigint_add a b = None \<longleftrightarrow> \<not> (- (2 ^ 63) \<le> sint a + sint b \<and> sint a + sint b < 2 ^ 63)"
  by (simp add: bigint_add_def Let_def)

lemma sless_iff_sint: "(a :: i64) <s b \<longleftrightarrow> sint a < sint b"
  by (rule word_sless_alt)

lemma sle_iff_sint: "(a :: i64) \<le>s b \<longleftrightarrow> sint a \<le> sint b"
  by (rule word_sle_eq)

lemma i64_eqI: "sint (a :: i64) = sint b \<Longrightarrow> a = b"
  by (rule signed_word_eqI)

section \<open>Round trips\<close>

text \<open>
  What the network and the service did with one request. The service is not under the
  repository; a round trip to it is answered, or fails before it took effect, or takes
  effect and loses its answer. The model's operations take one such value per round trip.
\<close>

datatype fault = NoFault | FaultBefore | FaultAfter

section \<open>Lists and lookups\<close>

lemma find_Some_iff_mem:
  assumes "distinct (map f xs)"
  shows "find (\<lambda>x. f x = k) xs = Some x \<longleftrightarrow> x \<in> set xs \<and> f x = k"
  using assms by (induction xs) (auto simp: image_iff)

lemma find_SomeD: "find P xs = Some x \<Longrightarrow> x \<in> set xs \<and> P x"
  by (induction xs) (auto split: if_splits)

lemma find_append:
  "find P (xs @ ys) = (case find P xs of None \<Rightarrow> find P ys | Some x \<Rightarrow> Some x)"
  by (induction xs) auto

lemma find_map_key:
  assumes "\<And>x. f (g x) = f x"
  shows "find (\<lambda>x. f x = k) (map g xs) = map_option g (find (\<lambda>x. f x = k) xs)"
  using assms by (induction xs) auto

lemma successively_snoc:
  "successively P (xs @ [x]) \<longleftrightarrow> successively P xs \<and> (xs \<noteq> [] \<longrightarrow> P (last xs) x)"
  by (auto simp: successively_append_iff)

lemma filter_snoc:
  "filter P (xs @ [x]) = filter P xs @ (if P x then [x] else [])"
  by simp

section \<open>Decimal numbers\<close>

text \<open>\<^verbatim>\<open>%d\<close> of a number that is not negative.\<close>

fun decimal :: "nat \<Rightarrow> string" where
  "decimal n = (if n < 10 then [char_of (48 + n)] else decimal (n div 10) @ [char_of (48 + n mod 10)])"

declare decimal.simps [simp del]

end
