(* ===== verification/Bid.thy ===== *)
theory Bid
  imports Prelude
begin

text \<open>
  The contract package \<^verbatim>\<open>internal/bid\<close>: the outcome, request, state and result types every
  engine shares, the price rule \<open>min_next_bid\<close> and the closing rule \<open>is_closed\<close>.
  Names follow the Go names; record fields carry the prefix of their struct.
\<close>

section \<open>Outcomes (outcome.go)\<close>

text \<open>
  Go's \<^verbatim>\<open>Outcome\<close> is a \<^verbatim>\<open>uint8\<close> with six constants; \<open>OtherOutcome\<close> stands for the
  values no constant names, which \<^verbatim>\<open>String\<close> and the HTTP handler have a default arm for.
\<close>

datatype outcome =
    Accepted
  | Conflict
  | TooLow
  | Closed
  | NotFound
  | Invalid
  | OtherOutcome "8 word"

fun outcome_string :: "outcome \<Rightarrow> string" where
  "outcome_string Accepted = ''accepted''"
| "outcome_string Conflict = ''conflict''"
| "outcome_string TooLow = ''too_low''"
| "outcome_string Closed = ''closed''"
| "outcome_string NotFound = ''not_found''"
| "outcome_string Invalid = ''invalid''"
| "outcome_string (OtherOutcome _) = ''unknown''"

definition named_outcome :: "outcome \<Rightarrow> bool" where
  "named_outcome oc \<longleftrightarrow> oc \<in> {Accepted, Conflict, TooLow, Closed, NotFound, Invalid}"

lemma outcome_string_inj:
  "named_outcome x \<Longrightarrow> named_outcome y \<Longrightarrow> outcome_string x = outcome_string y \<Longrightarrow> x = y"
  by (auto simp: named_outcome_def)

section \<open>Requests, states, results (engine.go)\<close>

text \<open>
  \<^verbatim>\<open>Status\<close> is a Go string: its two constants, and the zero value \<open>StatusZero\<close> (the
  empty string) that an accepted result carries because the 201 does not publish it.
\<close>

datatype status = StatusOpen | StatusClosed | StatusZero

record bid_request =
  req_auction :: uuid
  req_user :: uuid
  req_amount :: i64
  req_expected :: "i64 option"
  req_key :: string

record auction_state =
  st_version :: i64
  st_highest :: i64
  st_min_inc :: i64
  st_status :: status
  st_ends_at :: time

definition min_next_bid :: "auction_state \<Rightarrow> i64" where
  "min_next_bid s = st_highest s + st_min_inc s"

definition is_closed :: "auction_state \<Rightarrow> time \<Rightarrow> bool" where
  "is_closed s now \<longleftrightarrow> st_status s = StatusClosed \<or> \<not> now < st_ends_at s"

record bid_result =
  res_outcome :: outcome
  res_seq :: i64
  res_bid_id :: uuid
  res_current :: auction_state

text \<open>Go's zero values: the zero \<^verbatim>\<open>time.Time\<close> is 1 January of year 1, UTC.\<close>

definition zero_time :: time where
  "zero_time = - 62135596800000000000"

definition zero_state :: auction_state where
  "zero_state = \<lparr>st_version = 0, st_highest = 0, st_min_inc = 0,
     st_status = StatusZero, st_ends_at = zero_time\<rparr>"

definition bare_result :: "outcome \<Rightarrow> bid_result" where
  "bare_result oc = \<lparr>res_outcome = oc, res_seq = 0, res_bid_id = 0, res_current = zero_state\<rparr>"

definition rejected :: "outcome \<Rightarrow> auction_state \<Rightarrow> bid_result" where
  "rejected oc s = (bare_result oc)\<lparr>res_current := s\<rparr>"

text \<open>
  The accepted result of the two engines that decide in the database: the state is built
  from the statement's own return, with status and end left at their zero values.
\<close>

definition accepted_result :: "i64 \<Rightarrow> uuid \<Rightarrow> i64 \<Rightarrow> i64 \<Rightarrow> bid_result" where
  "accepted_result seq bid_id amount min_inc =
     \<lparr>res_outcome = Accepted, res_seq = seq, res_bid_id = bid_id,
      res_current = zero_state\<lparr>st_version := seq, st_highest := amount, st_min_inc := min_inc\<rparr>\<rparr>"

lemma bare_result_simps [simp]:
  "res_outcome (bare_result oc) = oc" "res_seq (bare_result oc) = 0"
  "res_bid_id (bare_result oc) = 0" "res_current (bare_result oc) = zero_state"
  by (simp_all add: bare_result_def)

lemma rejected_simps [simp]:
  "res_outcome (rejected oc s) = oc" "res_seq (rejected oc s) = 0"
  "res_bid_id (rejected oc s) = 0" "res_current (rejected oc s) = s"
  by (simp_all add: rejected_def)

lemma accepted_result_simps [simp]:
  "res_outcome (accepted_result q i a m) = Accepted"
  "res_seq (accepted_result q i a m) = q"
  "res_bid_id (accepted_result q i a m) = i"
  "st_version (res_current (accepted_result q i a m)) = q"
  "st_highest (res_current (accepted_result q i a m)) = a"
  "st_min_inc (res_current (accepted_result q i a m)) = m"
  by (simp_all add: accepted_result_def)

lemma named_outcome_simps [simp]:
  "named_outcome Accepted" "named_outcome Conflict" "named_outcome TooLow"
  "named_outcome Closed" "named_outcome NotFound" "named_outcome Invalid"
  "\<not> named_outcome (OtherOutcome w)"
  by (simp_all add: named_outcome_def)

section \<open>Errors\<close>

text \<open>
  What a statement can answer instead of rows. \<open>NoRows\<close> is \<^verbatim>\<open>pgx.ErrNoRows\<close>; the others
  are the errors PostgreSQL raises for the constraints of the schema and for arithmetic out
  of range, and the loss of the connection or of the context.
\<close>

datatype sql_error =
    NoRows
  | ConnectionError
  | UniqueViolation
  | ForeignKeyViolation
  | CheckViolation
  | OutOfRange

text \<open>
  A Go \<^verbatim>\<open>error\<close>: a driver error, the context's own error, or \<^verbatim>\<open>fmt.Errorf\<close>
  with \<^verbatim>\<open>%w\<close>. \<open>errors_is_no_rows\<close> is \<^verbatim>\<open>errors.Is(err, pgx.ErrNoRows)\<close>.
\<close>

datatype go_error =
    DbError sql_error
  | CtxError
  | Wrap string go_error

fun errors_is_no_rows :: "go_error \<Rightarrow> bool" where
  "errors_is_no_rows (DbError e) = (e = NoRows)"
| "errors_is_no_rows CtxError = False"
| "errors_is_no_rows (Wrap _ e) = errors_is_no_rows e"

lemma is_closed_mono: "is_closed s t \<Longrightarrow> t \<le> t' \<Longrightarrow> is_closed s t'"
  by (auto simp: is_closed_def)

lemma sint_min_next_bid:
  assumes "sint (st_highest s) + sint (st_min_inc s) < 2 ^ 63"
    and "- (2 ^ 63) \<le> sint (st_highest s) + sint (st_min_inc s)"
  shows "sint (min_next_bid s) = sint (st_highest s) + sint (st_min_inc s)"
  unfolding min_next_bid_def using assms by (simp add: sint_add_in_range)

end
