(* ===== verification/Database.thy ===== *)
theory Database
  imports Bid
begin

text \<open>
  The two tables of \<^verbatim>\<open>migrations/000001_init.up.sql\<close> with their constraints, the effect of
  the statement shapes the program sends (a keyed UPDATE, an INSERT into \<^verbatim>\<open>bids\<close>), the
  three-way outcome of sending one, and the invariants the benchmark's checker is after:
  schema, replayable history, timeliness, coherent closing.

  A statement is a function \<open>db \<Rightarrow> sql_error + 'a \<times> db\<close>: it raises and leaves the database
  alone, or answers and returns the new one. Each statement of the program touches at most one
  row of \<^verbatim>\<open>auctions\<close> (the shard's batch touches several, in one statement), so PostgreSQL's
  row lock with re-evaluation of the WHERE makes it one atomic step. The columns
  \<^verbatim>\<open>auctions.created_at\<close> and the \<^verbatim>\<open>bids_auction_seq_idx\<close> index are left out: no statement
  reads the first, and the second holds no constraint.
\<close>

section \<open>Tables\<close>

datatype auction_status = ColOpen | ColClosed

record auction_row =
  a_id :: uuid
  a_title :: string
  a_status :: auction_status
  a_highest :: i64
  a_bidder :: "uuid option"
  a_min_inc :: i64
  a_version :: i64
  a_ends_at :: time
  a_closed_at :: "time option"

record bid_row =
  b_id :: uuid
  b_auction :: uuid
  b_user :: uuid
  b_amount :: i64
  b_seq :: i64
  b_key :: "string option"
  b_created_at :: time

record db =
  db_auctions :: "auction_row list"
  db_bids :: "bid_row list"

definition empty_db :: db where
  "empty_db = \<lparr>db_auctions = [], db_bids = []\<rparr>"

text \<open>\<^verbatim>\<open>bid.Status(status)\<close> over the enum column.\<close>

fun status_of_column :: "auction_status \<Rightarrow> status" where
  "status_of_column ColOpen = StatusOpen"
| "status_of_column ColClosed = StatusClosed"

text \<open>The columns every SELECT of the engines reads, as the Go struct they are scanned into.\<close>

definition state_of_row :: "auction_row \<Rightarrow> auction_state" where
  "state_of_row a =
     \<lparr>st_version = a_version a, st_highest = a_highest a, st_min_inc = a_min_inc a,
      st_status = status_of_column (a_status a), st_ends_at = a_ends_at a\<rparr>"

lemma state_of_row_simps [simp]:
  "st_version (state_of_row a) = a_version a" "st_highest (state_of_row a) = a_highest a"
  "st_min_inc (state_of_row a) = a_min_inc a" "st_ends_at (state_of_row a) = a_ends_at a"
  "st_status (state_of_row a) = status_of_column (a_status a)"
  by (simp_all add: state_of_row_def)

lemma is_closed_row:
  "is_closed (state_of_row a) t \<longleftrightarrow> a_status a = ColClosed \<or> \<not> t < a_ends_at a"
  by (cases "a_status a") (auto simp: is_closed_def)

section \<open>Constraints\<close>

definition find_auction :: "db \<Rightarrow> uuid \<Rightarrow> auction_row option" where
  "find_auction d x = find (\<lambda>a. a_id a = x) (db_auctions d)"

definition bids_of :: "db \<Rightarrow> uuid \<Rightarrow> bid_row list" where
  "bids_of d x = filter (\<lambda>b. b_auction b = x) (db_bids d)"

definition keys_of :: "bid_row list \<Rightarrow> string list" where
  "keys_of bs = List.map_filter b_key bs"

definition check_auction :: "auction_row \<Rightarrow> bool" where
  "check_auction a \<longleftrightarrow> 0 \<le>s a_highest a \<and> 0 <s a_min_inc a"

fun key_taken :: "db \<Rightarrow> string option \<Rightarrow> bool" where
  "key_taken d None = False"
| "key_taken d (Some k) = (k \<in> set (keys_of (db_bids d)))"

text \<open>
  The constraint a row of \<^verbatim>\<open>bids\<close> would violate, if any: the CHECK on the amount, the
  primary key, \<open>UNIQUE (auction_id, seq)\<close>, the partial unique index on the key, the
  foreign key.
\<close>

definition bid_violation :: "db \<Rightarrow> bid_row \<Rightarrow> sql_error option" where
  "bid_violation d b =
     (if \<not> 0 <s b_amount b then Some CheckViolation
      else if b_id b \<in> set (map b_id (db_bids d)) then Some UniqueViolation
      else if (b_auction b, b_seq b) \<in> set (map (\<lambda>c. (b_auction c, b_seq c)) (db_bids d))
        then Some UniqueViolation
      else if key_taken d (b_key b) then Some UniqueViolation
      else if find_auction d (b_auction b) = None then Some ForeignKeyViolation
      else None)"

definition insert_bid :: "bid_row \<Rightarrow> db \<Rightarrow> sql_error + db" where
  "insert_bid b d =
     (case bid_violation d b of
        Some e \<Rightarrow> Inl e
      | None \<Rightarrow> Inr (d\<lparr>db_bids := db_bids d @ [b]\<rparr>))"

text \<open>An INSERT of several rows: all of them, or an error and none.\<close>

fun insert_bids :: "bid_row list \<Rightarrow> db \<Rightarrow> sql_error + db" where
  "insert_bids [] d = Inr d"
| "insert_bids (b # bs) d =
     (case insert_bid b d of Inl e \<Rightarrow> Inl e | Inr d' \<Rightarrow> insert_bids bs d')"

text \<open>An UPDATE of the one row with the id of \<open>a\<close>, checked against the CHECK constraints.\<close>

definition set_auction :: "auction_row \<Rightarrow> db \<Rightarrow> db" where
  "set_auction a d =
     d\<lparr>db_auctions := map (\<lambda>r. if a_id r = a_id a then a else r) (db_auctions d)\<rparr>"

definition update_auction :: "auction_row \<Rightarrow> db \<Rightarrow> sql_error + db" where
  "update_auction a d = (if check_auction a then Inr (set_auction a d) else Inl CheckViolation)"

text \<open>\<^verbatim>\<open>NULLIF($n, '')\<close>: a bid without a key stays outside the partial unique index.\<close>

definition nullif_empty :: "string \<Rightarrow> string option" where
  "nullif_empty k = (if k = [] then None else Some k)"

section \<open>Sending a statement\<close>

type_synonym 'a stmt = "db \<Rightarrow> sql_error + 'a \<times> db"

definition run_stmt :: "fault \<Rightarrow> 'a stmt \<Rightarrow> db \<Rightarrow> (sql_error + 'a) \<times> db" where
  "run_stmt f s d =
     (case f of
        FaultBefore \<Rightarrow> (Inl ConnectionError, d)
      | NoFault \<Rightarrow> (case s d of Inl e \<Rightarrow> (Inl e, d) | Inr (a, d') \<Rightarrow> (Inr a, d'))
      | FaultAfter \<Rightarrow> (case s d of Inl e \<Rightarrow> (Inl e, d) | Inr (a, d') \<Rightarrow> (Inl ConnectionError, d')))"

lemma run_stmt_InrD:
  "run_stmt f s d = (Inr a, d') \<Longrightarrow> f = NoFault \<and> s d = Inr (a, d')"
  by (auto simp: run_stmt_def split: fault.splits sum.splits prod.splits)

lemma run_stmt_InlD:
  "run_stmt f s d = (Inl e, d') \<Longrightarrow> d' = d \<or> (f = FaultAfter \<and> (\<exists>a. s d = Inr (a, d')))"
  by (auto simp: run_stmt_def split: fault.splits sum.splits prod.splits)

lemma run_stmt_NoRowsD:
  "run_stmt f s d = (Inl NoRows, d') \<Longrightarrow> d' = d"
  by (auto simp: run_stmt_def split: fault.splits sum.splits prod.splits)

lemma run_stmt_NoFault_Inr: "s d = Inr (a, d') \<Longrightarrow> run_stmt NoFault s d = (Inr a, d')"
  by (simp add: run_stmt_def)

lemma run_stmt_invariant:
  assumes "P d" and "\<And>a d'. s d = Inr (a, d') \<Longrightarrow> P d'"
  shows "P (snd (run_stmt f s d))"
  using assms by (auto simp: run_stmt_def split: fault.splits sum.splits prod.splits)

text \<open>A SELECT leaves the database as it was whatever happened to its answer.\<close>

lemma run_stmt_read:
  assumes "\<And>a d'. s d = Inr (a, d') \<Longrightarrow> d' = d"
  shows "snd (run_stmt f s d) = d"
  using assms by (auto simp: run_stmt_def split: fault.splits sum.splits prod.splits)

text \<open>
  The one SELECT all three engines share, up to the clock they ask for and the lock they take:
  the state columns of one auction, and the database's time \<open>now\<close>.
\<close>

definition select_state :: "uuid \<Rightarrow> time \<Rightarrow> (auction_state \<times> time) stmt" where
  "select_state x now d =
     (case find_auction d x of
        None \<Rightarrow> Inl NoRows
      | Some a \<Rightarrow> Inr ((state_of_row a, now), d))"

lemma select_state_InrD:
  "select_state x now d = Inr ((st, t), d') \<Longrightarrow>
   d' = d \<and> t = now \<and> (\<exists>a. find_auction d x = Some a \<and> st = state_of_row a)"
  by (auto simp: select_state_def split: option.splits)

lemma run_select_state:
  "run_stmt f (select_state x now) d =
     (case f of
        NoFault \<Rightarrow> (case find_auction d x of
           None \<Rightarrow> (Inl NoRows, d)
         | Some a \<Rightarrow> (Inr (state_of_row a, now), d))
      | FaultBefore \<Rightarrow> (Inl ConnectionError, d)
      | FaultAfter \<Rightarrow> (case find_auction d x of
           None \<Rightarrow> (Inl NoRows, d)
         | Some a \<Rightarrow> (Inl ConnectionError, d)))"
  by (auto simp: run_stmt_def select_state_def split: fault.splits option.splits)

section \<open>Invariants\<close>

definition schema_ok :: "db \<Rightarrow> bool" where
  "schema_ok d \<longleftrightarrow>
     distinct (map a_id (db_auctions d)) \<and>
     list_all check_auction (db_auctions d) \<and>
     distinct (map b_id (db_bids d)) \<and>
     distinct (map (\<lambda>b. (b_auction b, b_seq b)) (db_bids d)) \<and>
     distinct (keys_of (db_bids d)) \<and>
     list_all (\<lambda>b. 0 <s b_amount b \<and> find_auction d (b_auction b) \<noteq> None) (db_bids d)"

text \<open>
  The history of one auction, in commit order: the sequence is dense from 1, the version is
  its length, every bid clears its predecessor by the increment, and the published top and
  winner are the last bid's.
\<close>

definition auction_history :: "auction_row \<Rightarrow> bid_row list \<Rightarrow> bool" where
  "auction_history a bs \<longleftrightarrow>
     map (\<lambda>b. sint (b_seq b)) bs = map int [1..<Suc (length bs)] \<and>
     sint (a_version a) = int (length bs) \<and>
     successively (\<lambda>x y. sint (b_amount x) + sint (a_min_inc a) \<le> sint (b_amount y)) bs \<and>
     (bs \<noteq> [] \<longrightarrow> b_amount (last bs) = a_highest a \<and> a_bidder a = Some (b_user (last bs)))"

definition history_ok :: "db \<Rightarrow> bool" where
  "history_ok d \<longleftrightarrow> list_all (\<lambda>a. auction_history a (bids_of d (a_id a))) (db_auctions d)"

definition timely_ok :: "db \<Rightarrow> bool" where
  "timely_ok d \<longleftrightarrow>
     list_all (\<lambda>b. list_all (\<lambda>a. a_id a = b_auction b \<longrightarrow> b_created_at b \<le> a_ends_at a)
       (db_auctions d)) (db_bids d)"

definition closing_ok :: "db \<Rightarrow> bool" where
  "closing_ok d \<longleftrightarrow>
     list_all (\<lambda>a. (a_status a = ColClosed \<longleftrightarrow> a_closed_at a \<noteq> None) \<and>
       (case a_closed_at a of None \<Rightarrow> True | Some t \<Rightarrow> a_ends_at a \<le> t)) (db_auctions d)"

definition db_inv :: "db \<Rightarrow> bool" where
  "db_inv d \<longleftrightarrow> schema_ok d \<and> history_ok d \<and> timely_ok d \<and> closing_ok d"

lemma db_invD:
  assumes "db_inv d"
  shows "schema_ok d" "history_ok d" "timely_ok d" "closing_ok d"
  using assms by (auto simp: db_inv_def)

lemma db_inv_empty: "db_inv empty_db"
  by (simp add: db_inv_def schema_ok_def history_ok_def timely_ok_def closing_ok_def empty_db_def
      keys_of_def List.map_filter_def)

section \<open>Rows through updates and inserts\<close>

lemma find_auction_id: "find_auction d x = Some a \<Longrightarrow> a_id a = x"
  by (auto simp: find_auction_def dest: find_SomeD)

lemma find_auction_mem: "find_auction d x = Some a \<Longrightarrow> a \<in> set (db_auctions d)"
  by (auto simp: find_auction_def dest: find_SomeD)

lemma find_auction_iff:
  "schema_ok d \<Longrightarrow> find_auction d x = Some a \<longleftrightarrow> a \<in> set (db_auctions d) \<and> a_id a = x"
  by (simp add: schema_ok_def find_auction_def find_Some_iff_mem)

lemma find_auction_None_iff: "find_auction d x = None \<longleftrightarrow> x \<notin> a_id ` set (db_auctions d)"
  by (auto simp: find_auction_def find_None_iff)

lemma find_set_auction [row_simps]:
  "find_auction (set_auction a d) x =
     (if x = a_id a then (if find_auction d x = None then None else Some a) else find_auction d x)"
proof -
  let ?g = "\<lambda>r. if a_id r = a_id a then a else r"
  have "find_auction (set_auction a d) x = map_option ?g (find_auction d x)"
    unfolding find_auction_def set_auction_def by (simp add: find_map_key)
  then show ?thesis
    by (cases "find_auction d x") (auto dest: find_auction_id)
qed

lemma set_auction_simps [simp]:
  "db_bids (set_auction a d) = db_bids d" "bids_of (set_auction a d) x = bids_of d x"
  by (simp_all add: set_auction_def bids_of_def)

lemma ids_set_auction [simp]:
  "map a_id (db_auctions (set_auction a d)) = map a_id (db_auctions d)"
  by (auto simp: set_auction_def)

lemma length_set_auction [simp]:
  "length (db_auctions (set_auction a d)) = length (db_auctions d)"
  by (simp add: set_auction_def)

lemma keys_of_append [simp]: "keys_of (xs @ ys) = keys_of xs @ keys_of ys"
  by (simp add: keys_of_def List.map_filter_def)

lemma keys_of_single [simp]: "keys_of [b] = (case b_key b of None \<Rightarrow> [] | Some k \<Rightarrow> [k])"
  by (simp add: keys_of_def List.map_filter_def split: option.splits)

lemma insert_bid_InrD:
  assumes "insert_bid b d = Inr d'"
  shows "d' = d\<lparr>db_bids := db_bids d @ [b]\<rparr>" "bid_violation d b = None"
  using assms by (auto simp: insert_bid_def split: option.splits)

lemma find_auction_insert [row_simps]:
  "find_auction (d\<lparr>db_bids := bs\<rparr>) x = find_auction d x"
  by (simp add: find_auction_def)

lemma bid_violation_NoneD:
  assumes "bid_violation d b = None"
  shows "0 <s b_amount b" "b_id b \<notin> b_id ` set (db_bids d)"
    "(b_auction b, b_seq b) \<notin> (\<lambda>c. (b_auction c, b_seq c)) ` set (db_bids d)"
    "b_key b = Some k \<Longrightarrow> k \<notin> set (keys_of (db_bids d))"
    "find_auction d (b_auction b) \<noteq> None"
  using assms by (auto simp: bid_violation_def split: if_splits option.splits)

lemma list_all_set_auction:
  assumes "list_all P (db_auctions d)" and "P a"
  shows "list_all P (db_auctions (set_auction a d))"
  using assms by (auto simp: set_auction_def list_all_iff)

lemma schema_ok_set_auction:
  assumes "schema_ok d" and "check_auction a"
  shows "schema_ok (set_auction a d)"
  using assms list_all_set_auction [of check_auction d a]
  by (auto simp: schema_ok_def row_simps list_all_iff)

lemma schema_ok_insert:
  assumes "schema_ok d" and "insert_bid b d = Inr d'"
  shows "schema_ok d'"
proof -
  note d' = insert_bid_InrD [OF assms(2)]
  note v = bid_violation_NoneD [OF d'(2)]
  show ?thesis
    using assms(1) v unfolding d'(1) schema_ok_def
    by (auto simp: row_simps list_all_iff split: option.splits)
qed

section \<open>One accepted bid\<close>

text \<open>
  What every accepting statement of the program writes: the auction row raised to the bid,
  and one row of history carrying the resulting version.
\<close>

definition raised :: "auction_row \<Rightarrow> i64 \<Rightarrow> uuid \<Rightarrow> i64 \<Rightarrow> auction_row" where
  "raised a amount user version =
     a\<lparr>a_highest := amount, a_bidder := Some user, a_version := version\<rparr>"

lemma raised_simps [simp]:
  "a_id (raised a m u v) = a_id a" "a_highest (raised a m u v) = m"
  "a_bidder (raised a m u v) = Some u" "a_version (raised a m u v) = v"
  "a_min_inc (raised a m u v) = a_min_inc a" "a_ends_at (raised a m u v) = a_ends_at a"
  "a_status (raised a m u v) = a_status a" "a_closed_at (raised a m u v) = a_closed_at a"
  "a_title (raised a m u v) = a_title a"
  by (simp_all add: raised_def)

lemma auction_history_snoc:
  assumes "auction_history a bs"
    and "b_seq b = v" and "sint v = sint (a_version a) + 1"
    and "bs \<noteq> [] \<Longrightarrow> sint (a_highest a) + sint (a_min_inc a) \<le> sint (b_amount b)"
  shows "auction_history (raised a (b_amount b) (b_user b) v) (bs @ [b])"
  using assms by (auto simp: auction_history_def successively_snoc)

lemma history_ok_accept:
  assumes h: "history_ok d" and s: "schema_ok d"
    and a: "find_auction d x = Some a"
    and b: "b_auction b = x" "b_seq b = v" "sint v = sint (a_version a) + 1"
    and inc: "sint (a_highest a) + sint (a_min_inc a) \<le> sint (b_amount b)"
  shows "history_ok ((set_auction (raised a (b_amount b) (b_user b) v) d)
           \<lparr>db_bids := db_bids d @ [b]\<rparr>)"
proof -
  from a have mem: "a \<in> set (db_auctions d)" and id: "a_id a = x"
    by (auto dest: find_auction_mem find_auction_id)
  from h mem have "auction_history a (bids_of d x)"
    by (auto simp: history_ok_def list_all_iff id)
  with b inc have new: "auction_history (raised a (b_amount b) (b_user b) v) (bids_of d x @ [b])"
    by (intro auction_history_snoc) auto
  from h b(1) id new show ?thesis
    by (auto simp: history_ok_def list_all_iff set_auction_def bids_of_def)
qed

lemma timely_ok_accept:
  assumes t: "timely_ok d" and s: "schema_ok d"
    and a: "find_auction d x = Some a" and "b_auction b = x" and "b_created_at b \<le> a_ends_at a"
  shows "timely_ok ((set_auction (raised a m u v) d)\<lparr>db_bids := db_bids d @ [b]\<rparr>)"
proof -
  have uniq: "r = a" if "r \<in> set (db_auctions d)" "a_id r = x" for r
    using that a find_auction_iff [OF s, of x r] by simp
  from a have mem: "a \<in> set (db_auctions d)" and id: "a_id a = x"
    by (auto dest: find_auction_mem find_auction_id)
  have old: "b_created_at c \<le> a_ends_at r"
    if "c \<in> set (db_bids d)" "r \<in> set (db_auctions d)" "a_id r = b_auction c" for c r
    using t that by (simp add: timely_ok_def list_all_iff)
  show ?thesis
    unfolding timely_ok_def list_all_iff
  proof (intro ballI impI)
    fix c r
    assume c: "c \<in> set (db_bids ((set_auction (raised a m u v) d)\<lparr>db_bids := db_bids d @ [b]\<rparr>))"
      and "r \<in> set (db_auctions ((set_auction (raised a m u v) d)\<lparr>db_bids := db_bids d @ [b]\<rparr>))"
      and key: "a_id r = b_auction c"
    then obtain q where q: "q \<in> set (db_auctions d)" "a_id q = a_id r" "a_ends_at q = a_ends_at r"
      using mem by (auto simp: set_auction_def split: if_splits)
    from c consider "c \<in> set (db_bids d)" | "c = b" by auto
    then show "b_created_at c \<le> a_ends_at r"
    proof cases
      case 1
      then show ?thesis using old [of c q] q key by simp
    next
      case 2
      then show ?thesis using uniq [of q] q key assms(4,5) by simp
    qed
  qed
qed

lemma closing_ok_accept:
  assumes "closing_ok d" and "find_auction d x = Some a"
  shows "closing_ok ((set_auction (raised a m u v) d)\<lparr>db_bids := bs\<rparr>)"
  using assms find_auction_mem [OF assms(2)]
  by (auto simp: closing_ok_def list_all_iff set_auction_def)

text \<open>The shared accept lemma: every engine's accepting write preserves the whole invariant.\<close>

lemma db_inv_accept:
  assumes inv: "db_inv d"
    and a: "find_auction d x = Some a"
    and b: "b_auction b = x" "b_amount b = m" "b_user b = u" "b_seq b = v"
    and ver: "sint v = sint (a_version a) + 1"
    and inc: "sint (a_highest a) + sint (a_min_inc a) \<le> sint m"
    and time: "b_created_at b \<le> a_ends_at a"
    and chk: "check_auction (raised a m u v)"
    and ins: "insert_bid b (set_auction (raised a m u v) d) = Inr d'"
  shows "db_inv d'"
proof -
  have d': "d' = (set_auction (raised a m u v) d)\<lparr>db_bids := db_bids d @ [b]\<rparr>"
    using insert_bid_InrD(1) [OF ins] by simp
  have "schema_ok d'"
    using db_invD(1) [OF inv] chk ins by (blast intro: schema_ok_insert schema_ok_set_auction)
  moreover have "history_ok d'"
    using history_ok_accept [OF _ _ a b(1,4) ver] db_invD(1,2) [OF inv] inc b unfolding d' by simp
  moreover have "timely_ok d'"
    using timely_ok_accept [OF _ _ a b(1) time] db_invD(1,3) [OF inv] unfolding d' by simp
  moreover have "closing_ok d'"
    using closing_ok_accept [OF _ a] db_invD(4) [OF inv] unfolding d' by simp
  ultimately show ?thesis by (simp add: db_inv_def)
qed

lemma check_auction_raised:
  "check_auction a \<Longrightarrow> 0 <s m \<Longrightarrow> check_auction (raised a m u v)"
  by (auto simp: check_auction_def sless_iff_sint sle_iff_sint)

lemma schema_check: "schema_ok d \<Longrightarrow> find_auction d x = Some a \<Longrightarrow> check_auction a"
  by (auto simp: schema_ok_def list_all_iff dest: find_auction_mem)

lemma version_is_length:
  assumes "db_inv d" and "find_auction d x = Some a"
  shows "sint (a_version a) = int (length (bids_of d x))"
  using assms find_auction_mem [OF assms(2)] find_auction_id [OF assms(2)]
  by (auto simp: db_inv_def history_ok_def list_all_iff auction_history_def)

lemma next_seq_is_free:
  assumes inv: "db_inv d" and a: "find_auction d x = Some a" and v: "sint v = sint (a_version a) + 1"
  shows "(x, v) \<notin> (\<lambda>c. (b_auction c, b_seq c)) ` set (db_bids d)"
proof
  assume "(x, v) \<in> (\<lambda>c. (b_auction c, b_seq c)) ` set (db_bids d)"
  then obtain c where c: "c \<in> set (bids_of d x)" "b_seq c = v"
    by (auto simp: bids_of_def)
  have "auction_history a (bids_of d x)"
    using inv find_auction_mem [OF a] find_auction_id [OF a]
    by (auto simp: db_inv_def history_ok_def list_all_iff)
  then have hist: "map (\<lambda>b. sint (b_seq b)) (bids_of d x) = map int [1..<Suc (length (bids_of d x))]"
    and ver: "sint (a_version a) = int (length (bids_of d x))"
    by (auto simp: auction_history_def)
  from c(1) have "sint (b_seq c) \<in> set (map (\<lambda>b. sint (b_seq b)) (bids_of d x))"
    by simp
  then have "sint (b_seq c) \<le> int (length (bids_of d x))"
    unfolding hist by auto
  with c(2) v ver show False by simp
qed

section \<open>A small cell\<close>

text \<open>
  One open auction, at price 0 with increment 100, ending at instant 1000: the cell the
  witnesses of the development evaluate their theorems on.
\<close>

definition sample_row :: auction_row where
  "sample_row = \<lparr>a_id = 1, a_title = ''auction-1'', a_status = ColOpen, a_highest = 0,
     a_bidder = None, a_min_inc = 100, a_version = 0, a_ends_at = 1000, a_closed_at = None\<rparr>"

definition sample_db :: db where
  "sample_db = \<lparr>db_auctions = [sample_row], db_bids = []\<rparr>"

definition sample_request :: "i64 \<Rightarrow> i64 \<Rightarrow> bid_request" where
  "sample_request expected amount =
     \<lparr>req_auction = 1, req_user = 7, req_amount = amount, req_expected = Some expected, req_key = []\<rparr>"

lemma sample_inv: "db_inv sample_db"
  by (simp add: db_inv_def schema_ok_def history_ok_def timely_ok_def closing_ok_def sample_db_def
      sample_row_def check_auction_def keys_of_def List.map_filter_def bids_of_def
      auction_history_def sless_iff_sint sle_iff_sint)

lemma sample_find: "find_auction sample_db 1 = Some sample_row"
  by (simp add: find_auction_def sample_db_def sample_row_def)

end
