(* ===== verification/Ledger.thy ===== *)
theory Ledger
  imports Database
begin

text \<open>
  The abstract specification of what the system may do to the database, whatever engine runs:
  record the next bid of an auction, stamp the end of an expired auction, create an auction.
  \<open>evolves\<close> closes these steps under repetition. It is both what every operation guarantees
  (the engines, the store, the materialiser are proved to be such steps) and what each relies
  on of the sessions running beside it. The invariants of \<^theory_text>\<open>Database\<close> are kept along it.
\<close>

section \<open>Steps\<close>

definition apply_bid :: "auction_row \<Rightarrow> bid_row \<Rightarrow> db \<Rightarrow> db" where
  "apply_bid a b d =
     (set_auction (raised a (b_amount b) (b_user b) (b_seq b)) d)\<lparr>db_bids := db_bids d @ [b]\<rparr>"

definition next_bid_ok :: "db \<Rightarrow> auction_row \<Rightarrow> bid_row \<Rightarrow> bool" where
  "next_bid_ok d a b \<longleftrightarrow>
     find_auction d (b_auction b) = Some a \<and>
     sint (b_seq b) = sint (a_version a) + 1 \<and>
     sint (a_highest a) + sint (a_min_inc a) \<le> sint (b_amount b) \<and>
     b_created_at b \<le> a_ends_at a \<and>
     bid_violation d b = None"

definition closed_row :: "auction_row \<Rightarrow> time \<Rightarrow> auction_row" where
  "closed_row a t = a\<lparr>a_status := ColClosed, a_closed_at := Some t\<rparr>"

definition fresh_row :: "db \<Rightarrow> auction_row \<Rightarrow> bool" where
  "fresh_row d a \<longleftrightarrow>
     find_auction d (a_id a) = None \<and> check_auction a \<and> a_version a = 0 \<and> a_bidder a = None \<and>
     a_status a = ColOpen \<and> a_closed_at a = None"

definition add_auction :: "auction_row \<Rightarrow> db \<Rightarrow> db" where
  "add_auction a d = d\<lparr>db_auctions := db_auctions d @ [a]\<rparr>"

inductive ledger_step :: "db \<Rightarrow> db \<Rightarrow> bool" where
  ledger_bid: "next_bid_ok d a b \<Longrightarrow> ledger_step d (apply_bid a b d)"
| ledger_close: "find_auction d x = Some a \<Longrightarrow> a_status a = ColOpen \<Longrightarrow> a_ends_at a \<le> t \<Longrightarrow>
    ledger_step d (set_auction (closed_row a t) d)"
| ledger_create: "fresh_row d a \<Longrightarrow> ledger_step d (add_auction a d)"

inductive evolves :: "db \<Rightarrow> db \<Rightarrow> bool" where
  evolves_refl [simp, intro]: "evolves d d"
| evolves_step: "evolves d d' \<Longrightarrow> ledger_step d' d'' \<Longrightarrow> evolves d d''"

lemma evolves_trans [trans]: "evolves d d' \<Longrightarrow> evolves d' d'' \<Longrightarrow> evolves d d''"
  by (rotate_tac 1, induction rule: evolves.induct) (auto intro: evolves_step)

lemma evolves_one: "ledger_step d d' \<Longrightarrow> evolves d d'"
  by (rule evolves_step [OF evolves_refl])

lemma evolves_bid: "next_bid_ok d a b \<Longrightarrow> evolves d (apply_bid a b d)"
  by (intro evolves_one ledger_bid)

section \<open>Frames\<close>

lemma closed_row_simps [simp]:
  "a_id (closed_row a t) = a_id a" "a_highest (closed_row a t) = a_highest a"
  "a_bidder (closed_row a t) = a_bidder a" "a_version (closed_row a t) = a_version a"
  "a_min_inc (closed_row a t) = a_min_inc a" "a_ends_at (closed_row a t) = a_ends_at a"
  "a_status (closed_row a t) = ColClosed" "a_closed_at (closed_row a t) = Some t"
  by (simp_all add: closed_row_def)

lemma apply_bid_simps [simp]:
  "db_bids (apply_bid a b d) = db_bids d @ [b]"
  "bids_of (apply_bid a b d) x = bids_of d x @ (if b_auction b = x then [b] else [])"
  by (simp_all add: apply_bid_def bids_of_def)

lemma find_apply_bid [row_simps]:
  "find_auction d (b_auction b) = Some a \<Longrightarrow>
   find_auction (apply_bid a b d) x =
     (if x = b_auction b then Some (raised a (b_amount b) (b_user b) (b_seq b))
      else find_auction d x)"
  by (auto simp: apply_bid_def row_simps dest: find_auction_id)

lemma find_closed_row:
  "find_auction d x = Some a \<Longrightarrow>
   find_auction (set_auction (closed_row a t) d) y =
     (if y = x then Some (closed_row a t) else find_auction d y)"
  by (auto simp: row_simps dest: find_auction_id)

lemma find_add_auction [row_simps]:
  "find_auction (add_auction a d) x =
     (case find_auction d x of
        None \<Rightarrow> if a_id a = x then Some a else None
      | Some r \<Rightarrow> Some r)"
  by (auto simp: find_auction_def add_auction_def find_append split: option.splits)

lemma add_auction_simps [simp]:
  "db_bids (add_auction a d) = db_bids d" "bids_of (add_auction a d) x = bids_of d x"
  "db_auctions (add_auction a d) = db_auctions d @ [a]"
  by (simp_all add: add_auction_def bids_of_def)

lemma bid_violation_cong:
  assumes "db_bids d = db_bids d'" and "find_auction d (b_auction b) = None \<longleftrightarrow> find_auction d' (b_auction b) = None"
  shows "bid_violation d b = bid_violation d' b"
  using assms by (cases "b_key b") (simp_all add: bid_violation_def)

lemma bid_violation_set_auction [simp]: "bid_violation (set_auction a d) b = bid_violation d b"
  by (rule bid_violation_cong) (auto simp: row_simps)

lemma apply_bid_is_insert:
  "bid_violation d b = None \<Longrightarrow>
   insert_bid b (set_auction (raised a (b_amount b) (b_user b) (b_seq b)) d) = Inr (apply_bid a b d)"
  by (simp add: insert_bid_def apply_bid_def)

section \<open>The invariants along the ledger\<close>

lemma db_inv_bid:
  assumes inv: "db_inv d" and b: "next_bid_ok d a b"
  shows "db_inv (apply_bid a b d)"
proof -
  have a: "find_auction d (b_auction b) = Some a" and ver: "sint (b_seq b) = sint (a_version a) + 1"
    and inc: "sint (a_highest a) + sint (a_min_inc a) \<le> sint (b_amount b)"
    and time: "b_created_at b \<le> a_ends_at a" and viol: "bid_violation d b = None"
    using b by (simp_all add: next_bid_ok_def)
  have "check_auction a"
    using schema_check [OF _ a] inv by (simp add: db_inv_def)
  then have chk: "check_auction (raised a (b_amount b) (b_user b) (b_seq b))"
    using bid_violation_NoneD(1) [OF viol] by (rule check_auction_raised)
  show ?thesis
    by (rule db_inv_accept [OF inv a refl refl refl refl ver inc time chk
          apply_bid_is_insert [OF viol]])
qed

lemma db_inv_close:
  assumes inv: "db_inv d" and a: "find_auction d x = Some a" and t: "a_ends_at a \<le> t"
  shows "db_inv (set_auction (closed_row a t) d)"
proof -
  have mem: "a \<in> set (db_auctions d)" using a by (rule find_auction_mem)
  have s: "schema_ok d" and h: "history_ok d" and ti: "timely_ok d" and c: "closing_ok d"
    using db_invD [OF inv] .
  have "check_auction (closed_row a t)"
    using schema_check [OF s a] by (simp add: check_auction_def)
  with s have "schema_ok (set_auction (closed_row a t) d)" by (rule schema_ok_set_auction)
  moreover have "history_ok (set_auction (closed_row a t) d)"
  proof -
    have "auction_history (closed_row a t) (bids_of d (a_id a))"
      using h mem by (auto simp: history_ok_def list_all_iff auction_history_def)
    then show ?thesis
      using h by (auto simp: history_ok_def list_all_iff set_auction_def bids_of_def)
  qed
  moreover have "timely_ok (set_auction (closed_row a t) d)"
    using ti mem by (fastforce simp: timely_ok_def list_all_iff set_auction_def)
  moreover have "closing_ok (set_auction (closed_row a t) d)"
    using c t by (auto simp: closing_ok_def list_all_iff set_auction_def)
  ultimately show ?thesis by (simp add: db_inv_def)
qed

lemma db_inv_create:
  assumes inv: "db_inv d" and a: "fresh_row d a"
  shows "db_inv (add_auction a d)"
proof -
  have s: "schema_ok d" and h: "history_ok d" and ti: "timely_ok d" and c: "closing_ok d"
    using db_invD [OF inv] .
  have new: "a_id a \<notin> a_id ` set (db_auctions d)"
    using a by (simp add: fresh_row_def find_auction_None_iff)
  have none: "b_auction b \<noteq> a_id a" if "b \<in> set (db_bids d)" for b
  proof -
    have "b_auction b \<in> a_id ` set (db_auctions d)"
      using s that by (simp add: schema_ok_def list_all_iff find_auction_None_iff)
    with new show ?thesis by auto
  qed
  then have empty: "bids_of d (a_id a) = []"
    by (auto simp: bids_of_def filter_empty_conv)
  have "schema_ok (add_auction a d)"
    using s a new by (auto simp: schema_ok_def fresh_row_def list_all_iff row_simps split: option.splits)
  moreover have "history_ok (add_auction a d)"
    using h a empty by (auto simp: history_ok_def fresh_row_def list_all_iff auction_history_def)
  moreover have "timely_ok (add_auction a d)"
    using ti none by (fastforce simp: timely_ok_def list_all_iff)
  moreover have "closing_ok (add_auction a d)"
    using c a by (auto simp: closing_ok_def fresh_row_def list_all_iff)
  ultimately show ?thesis by (simp add: db_inv_def)
qed

lemma db_inv_ledger_step: "ledger_step d d' \<Longrightarrow> db_inv d \<Longrightarrow> db_inv d'"
  by (induction rule: ledger_step.induct) (auto intro: db_inv_bid db_inv_close db_inv_create)

lemma db_inv_evolves: "evolves d d' \<Longrightarrow> db_inv d \<Longrightarrow> db_inv d'"
  by (induction rule: evolves.induct) (auto intro: db_inv_ledger_step)

text \<open>History is append-only, auctions never vanish, and their terms never change.\<close>

lemma ledger_step_bids: "ledger_step d d' \<Longrightarrow> \<exists>bs. db_bids d' = db_bids d @ bs"
  by (induction rule: ledger_step.induct) auto

lemma evolves_bids: "evolves d d' \<Longrightarrow> \<exists>bs. db_bids d' = db_bids d @ bs"
proof (induction rule: evolves.induct)
  case (evolves_step d d' d'')
  then show ?case using ledger_step_bids by fastforce
qed simp

definition row_follows :: "auction_row \<Rightarrow> auction_row \<Rightarrow> bool" where
  "row_follows a a' \<longleftrightarrow>
     a_id a' = a_id a \<and> a_min_inc a' = a_min_inc a \<and> a_ends_at a' = a_ends_at a \<and>
     sint (a_version a) \<le> sint (a_version a') \<and> sint (a_highest a) \<le> sint (a_highest a') \<and>
     (a_status a = ColClosed \<longrightarrow> a_status a' = ColClosed \<and> a_closed_at a' = a_closed_at a)"

lemma row_follows_refl [simp]: "row_follows a a"
  by (simp add: row_follows_def)

lemma row_follows_trans: "row_follows a b \<Longrightarrow> row_follows b c \<Longrightarrow> row_follows a c"
  by (auto simp: row_follows_def)

lemma ledger_step_row:
  assumes "ledger_step d d'" and "schema_ok d" and "find_auction d x = Some a"
  shows "\<exists>a'. find_auction d' x = Some a' \<and> row_follows a a'"
  using assms
proof (induction rule: ledger_step.induct)
  case (ledger_bid d r b)
  then have "check_auction r" and r: "find_auction d (b_auction b) = Some r"
    by (auto simp: next_bid_ok_def dest: schema_check)
  with ledger_bid show ?case
    by (auto simp: row_simps row_follows_def next_bid_ok_def check_auction_def sless_iff_sint)
next
  case (ledger_close d y r t)
  then show ?case
    by (auto simp: find_closed_row row_follows_def)
next
  case (ledger_create d r)
  then show ?case by (auto simp: row_simps)
qed

lemma evolves_row:
  assumes "evolves d d'" and "db_inv d" and "find_auction d x = Some a"
  shows "\<exists>a'. find_auction d' x = Some a' \<and> row_follows a a'"
  using assms
proof (induction rule: evolves.induct)
  case (evolves_step d d' d'')
  then obtain a' where a': "find_auction d' x = Some a'" "row_follows a a'" by blast
  moreover have "schema_ok d'"
    using db_inv_evolves [OF evolves_step.hyps(1) evolves_step.prems(1)] by (rule db_invD)
  ultimately show ?case
    using ledger_step_row [OF evolves_step.hyps(2)] row_follows_trans by blast
qed simp

section \<open>The history of an auction from its opening price\<close>

text \<open>
  \<open>chain inc prev bs\<close>: every bid clears the one before it by the increment, the first one the
  opening price \<open>prev\<close>. \<open>opened d x start inc\<close> says the auction opened at \<open>start\<close> and its
  whole history chains from there.
\<close>

fun chain :: "int \<Rightarrow> int \<Rightarrow> bid_row list \<Rightarrow> bool" where
  "chain inc prev [] = True"
| "chain inc prev (b # bs) = (prev + inc \<le> sint (b_amount b) \<and> chain inc (sint (b_amount b)) bs)"

definition top_of :: "int \<Rightarrow> bid_row list \<Rightarrow> int" where
  "top_of start bs = (if bs = [] then start else sint (b_amount (last bs)))"

definition opened :: "db \<Rightarrow> uuid \<Rightarrow> i64 \<Rightarrow> i64 \<Rightarrow> bool" where
  "opened d x start inc \<longleftrightarrow>
     (\<exists>a. find_auction d x = Some a \<and> a_min_inc a = inc \<and>
        chain (sint inc) (sint start) (bids_of d x) \<and>
        sint (a_highest a) = top_of (sint start) (bids_of d x))"

lemma chain_snoc:
  "chain inc prev (bs @ [b]) \<longleftrightarrow> chain inc prev bs \<and> top_of prev bs + inc \<le> sint (b_amount b)"
  by (induction bs arbitrary: prev) (auto simp: top_of_def)

lemma opened_ledger_step:
  assumes "ledger_step d d'" and "opened d x start inc"
  shows "opened d' x start inc"
  using assms
proof (induction rule: ledger_step.induct)
  case (ledger_bid d r b)
  then have r: "find_auction d (b_auction b) = Some r"
    and clears: "sint (a_highest r) + sint (a_min_inc r) \<le> sint (b_amount b)"
    by (auto simp: next_bid_ok_def)
  from ledger_bid.prems show ?case
    using r clears by (auto simp: opened_def row_simps chain_snoc top_of_def)
next
  case (ledger_close d y r t)
  then show ?case by (auto simp: opened_def find_closed_row)
next
  case (ledger_create d r)
  then show ?case by (auto simp: opened_def row_simps)
qed

lemma opened_evolves: "evolves d d' \<Longrightarrow> opened d x start inc \<Longrightarrow> opened d' x start inc"
  by (induction rule: evolves.induct) (auto intro: opened_ledger_step)

lemma opened_fresh:
  assumes "find_auction d x = Some a" and "bids_of d x = []"
  shows "opened d x (a_highest a) (a_min_inc a)"
  using assms by (simp add: opened_def top_of_def)

end
