(* ===== verification/Contract.thy ===== *)
theory Contract
  imports Ledger
begin

text \<open>
  The interface \<^verbatim>\<open>BidEngine\<close> of \<^verbatim>\<open>internal/bid/engine.go\<close> as a locale, and what follows for any
  engine that honours it. An engine is a state-passing \<open>place\<close>; its environment argument
  carries what one call takes from outside: clocks, fresh ids, the fate of each round trip.
  \<open>world e\<close> is what the other sessions committed to the database while the call was not
  looking, and \<open>good e r s\<close> is what the call relies on of its environment.

  The clients are the run of any sequence of calls, and the conformance suite of
  \<^verbatim>\<open>internal/bid/enginetest\<close>: its \<^verbatim>\<open>replay\<close> and the re-aiming bidder of its workers.
\<close>

section \<open>Runs\<close>

type_synonym response = "go_error + bid_result"

fun is_accepted :: "response \<Rightarrow> bool" where
  "is_accepted (Inl e) = False"
| "is_accepted (Inr res) = (res_outcome res = Accepted)"

definition accepted_count :: "response list \<Rightarrow> nat" where
  "accepted_count os = length (filter is_accepted os)"

lemma accepted_count_simps [simp]:
  "accepted_count [] = 0"
  "accepted_count (x # os) = (if is_accepted x then Suc (accepted_count os) else accepted_count os)"
  by (simp_all add: accepted_count_def)

text \<open>The sequence numbers a client was told, in the order of the answers.\<close>

fun told_seq :: "response \<Rightarrow> i64 list" where
  "told_seq (Inl e) = []"
| "told_seq (Inr res) = (if res_outcome res = Accepted then [res_seq res] else [])"

definition told_seqs :: "response list \<Rightarrow> i64 list" where
  "told_seqs os = concat (map told_seq os)"

lemma told_seqs_simps [simp]: "told_seqs [] = []" "told_seqs (x # os) = told_seq x @ told_seqs os"
  by (simp_all add: told_seqs_def)

lemma accepted_count_append [simp]:
  "accepted_count (xs @ ys) = accepted_count xs + accepted_count ys"
  by (simp add: accepted_count_def)

fun run_requests ::
  "('env \<Rightarrow> bid_request \<Rightarrow> 's \<Rightarrow> response \<times> 's) \<Rightarrow> ('env \<times> bid_request) list \<Rightarrow> 's
   \<Rightarrow> response list \<times> 's" where
  "run_requests place [] s = ([], s)"
| "run_requests place ((e, r) # xs) s =
     (let (res, s') = place e r s; (os, s'') = run_requests place xs s' in (res # os, s''))"

fun good_run ::
  "('env \<Rightarrow> bid_request \<Rightarrow> 's \<Rightarrow> response \<times> 's) \<Rightarrow> ('env \<Rightarrow> bid_request \<Rightarrow> 's \<Rightarrow> bool)
   \<Rightarrow> ('env \<times> bid_request) list \<Rightarrow> 's \<Rightarrow> bool" where
  "good_run place good [] s = True"
| "good_run place good ((e, r) # xs) s = (good e r s \<and> good_run place good xs (snd (place e r s)))"

lemma run_requests_Cons:
  "run_requests place ((e, r) # xs) s =
     (fst (place e r s) # fst (run_requests place xs (snd (place e r s))),
      snd (run_requests place xs (snd (place e r s))))"
  by (simp add: case_prod_beta Let_def)

section \<open>The conformance suite's replay\<close>

text \<open>
  \<^verbatim>\<open>replay\<close> reads an auction's bids in \<open>seq\<close> order and fails on a hole or on an increment
  below the minimum, with Go's wrapping \<^verbatim>\<open>prev+minIncrement\<close>; then it compares the count with
  the accepts the workers saw and the published row with the end of the history.
\<close>

fun replay_rows :: "i64 \<Rightarrow> bid_row list \<Rightarrow> i64 \<Rightarrow> i64 \<Rightarrow> (i64 \<times> i64) option" where
  "replay_rows minIncrement [] count prev = Some (count, prev)"
| "replay_rows minIncrement (b # bs) count prev =
     (let count' = count + 1
      in if b_seq b \<noteq> count' then None
         else if b_amount b <s prev + minIncrement then None
         else replay_rows minIncrement bs count' (b_amount b))"

definition replay :: "db \<Rightarrow> uuid \<Rightarrow> i64 \<Rightarrow> i64 \<Rightarrow> i64 \<Rightarrow> bool" where
  "replay d x startingBid minIncrement accepted \<longleftrightarrow>
     (case replay_rows minIncrement (sort_key (\<lambda>b. sint (b_seq b)) (bids_of d x)) 0 startingBid of
        None \<Rightarrow> False
      | Some (count, prev) \<Rightarrow>
          count = accepted \<and> count \<noteq> 0 \<and>
          (case find_auction d x of
             None \<Rightarrow> False
           | Some a \<Rightarrow> a_version a = count \<and> a_highest a = prev))"

text \<open>A dense sequence is already in order, so \<open>ORDER BY seq\<close> changes nothing.\<close>

lemma dense_sort:
  assumes "map (\<lambda>b. sint (b_seq b)) bs = map int [1..<Suc (length bs)]"
  shows "sort_key (\<lambda>b. sint (b_seq b)) bs = bs"
proof (rule sort_key_id_if_sorted)
  show "sorted (map (\<lambda>b. sint (b_seq b)) bs)"
    unfolding assms by (simp only: sorted_map of_nat_le_iff sorted_upt)
qed

lemma replay_rows_dense:
  assumes "map (\<lambda>b. sint (b_seq b)) bs = map int [Suc n..<Suc (n + length bs)]"
    and "chain (sint inc) (sint prev) bs" and "sint count = int n"
    and "0 \<le> sint inc" and "- (2 ^ 62) \<le> sint prev"
  shows "\<exists>count' prev'. replay_rows inc bs count prev = Some (count', prev') \<and>
    sint count' = int (n + length bs) \<and> sint prev' = top_of (sint prev) bs"
  using assms
proof (induction bs arbitrary: n count prev)
  case Nil
  then show ?case by (simp add: top_of_def)
next
  case (Cons b bs)
  have upt: "[Suc n..<Suc (n + length (b # bs))] = Suc n # [Suc (Suc n)..<Suc (Suc n + length bs)]"
    by (subst upt_conv_Cons) simp_all
  from Cons.prems(1) have seq: "sint (b_seq b) = int (Suc n)"
    and rest: "map (\<lambda>b. sint (b_seq b)) bs = map int [Suc (Suc n)..<Suc (Suc n + length bs)]"
    unfolding upt by simp_all
  from Cons.prems(2) have clears: "sint prev + sint inc \<le> sint (b_amount b)"
    and tail: "chain (sint inc) (sint (b_amount b)) bs"
    by simp_all
  have count: "sint (count + 1) = int (Suc n)"
    using seq Cons.prems(3) sint_range [of "b_seq b"] by (subst sint_add_in_range) auto
  with seq have "b_seq b = count + 1"
    by (auto intro: i64_eqI)
  moreover have "sint (prev + inc) = sint prev + sint inc"
    using clears sint_range [of "b_amount b"] Cons.prems(4,5) by (intro sint_add_in_range) auto
  then have "\<not> b_amount b <s prev + inc"
    using clears by (simp add: sless_iff_sint)
  moreover have "- (2 ^ 62) \<le> sint (b_amount b)"
    using clears Cons.prems(4,5) by simp
  ultimately show ?case
    using Cons.IH [OF rest tail count Cons.prems(4)] by (auto simp: top_of_def Let_def)
qed

text \<open>
  On a database that satisfies the invariants, \<open>replay\<close> accepts the history of any auction
  opened at a non-negative price, with the number of its bids.
\<close>

lemma replay_ok:
  assumes inv: "db_inv d" and op: "opened d x start inc" and start: "0 \<le> sint start"
    and acc: "sint accepted = int (length (bids_of d x))" and some: "bids_of d x \<noteq> []"
  shows "replay d x start inc accepted"
proof -
  obtain a where a: "find_auction d x = Some a" "a_min_inc a = inc"
      "chain (sint inc) (sint start) (bids_of d x)"
      "sint (a_highest a) = top_of (sint start) (bids_of d x)"
    using op by (auto simp: opened_def)
  have "auction_history a (bids_of d x)"
    using db_invD(2) [OF inv] find_auction_mem [OF a(1)] find_auction_id [OF a(1)]
    by (auto simp: history_ok_def list_all_iff)
  then have dense: "map (\<lambda>b. sint (b_seq b)) (bids_of d x) = map int [1..<Suc (length (bids_of d x))]"
    and ver: "sint (a_version a) = int (length (bids_of d x))"
    by (auto simp: auction_history_def)
  have "0 \<le> sint inc"
    using schema_check [OF db_invD(1) [OF inv] a(1)] a(2) by (auto simp: check_auction_def sless_iff_sint)
  then obtain count' prev' where r: "replay_rows inc (bids_of d x) 0 start = Some (count', prev')"
      "sint count' = int (length (bids_of d x))" "sint prev' = top_of (sint start) (bids_of d x)"
    using replay_rows_dense [of "bids_of d x" 0 inc start 0] dense a(3) start by auto
  have "count' = accepted" "a_version a = count'" "a_highest a = prev'"
    using r(2,3) acc ver a(4) by (auto intro: i64_eqI)
  moreover have "count' \<noteq> 0"
    using r(2) some by auto
  ultimately show ?thesis
    using r(1) a(1) by (simp add: replay_def dense_sort [OF dense])
qed

text \<open>The suite's verdict, with the version of the row as the number of accepts it counted.\<close>

definition replays :: "db \<Rightarrow> uuid \<Rightarrow> i64 \<Rightarrow> i64 \<Rightarrow> bool" where
  "replays d x startingBid minIncrement \<longleftrightarrow>
     bids_of d x = [] \<or>
     (\<exists>a. find_auction d x = Some a \<and> replay d x startingBid minIncrement (a_version a))"

lemma replays_opened:
  assumes "db_inv d" and op: "opened d x start inc" and "0 \<le> sint start"
  shows "replays d x start inc"
proof -
  obtain a where a: "find_auction d x = Some a" using op by (auto simp: opened_def)
  with replay_ok [OF assms(1,2,3), of "a_version a"] version_is_length [OF assms(1) a] show ?thesis
    by (auto simp: replays_def)
qed

section \<open>Prices that do not wrap\<close>

text \<open>
  Go's \<^verbatim>\<open>MinNextBid\<close> is a wrapping sum. The two engines that decide in Go honour the contract
  while prices stay at or below \<open>money_cap\<close> and increments below it, where the sum fits.
\<close>

definition money_cap :: int where
  "money_cap = 2 ^ 62"

definition capped :: "db \<Rightarrow> bool" where
  "capped d \<longleftrightarrow> list_all (\<lambda>a. sint (a_highest a) \<le> money_cap \<and> sint (a_min_inc a) < money_cap) (db_auctions d)"

lemma capped_row:
  "capped d \<Longrightarrow> find_auction d x = Some a \<Longrightarrow>
   sint (a_highest a) \<le> money_cap \<and> sint (a_min_inc a) < money_cap"
  by (auto simp: capped_def list_all_iff dest: find_auction_mem)

lemma capped_apply_bid:
  "capped d \<Longrightarrow> find_auction d x = Some a \<Longrightarrow> sint (b_amount b) \<le> money_cap \<Longrightarrow> capped (apply_bid a b d)"
  using capped_row [of d x a]
  by (auto simp: capped_def list_all_iff apply_bid_def set_auction_def)

lemma sint_min_next_capped:
  assumes "schema_ok d" and "capped d" and a: "find_auction d x = Some a"
  shows "sint (min_next_bid (state_of_row a)) = sint (a_highest a) + sint (a_min_inc a)"
  using schema_check [OF assms(1) a] capped_row [OF assms(2) a]
  by (subst sint_min_next_bid)
    (auto simp: check_auction_def money_cap_def sless_iff_sint sle_iff_sint)

lemma capped_close: "capped d \<Longrightarrow> find_auction d x = Some a \<Longrightarrow> capped (set_auction (closed_row a t) d)"
  using capped_row [of d x a] by (auto simp: capped_def list_all_iff set_auction_def)

section \<open>The interface\<close>

locale bid_engine =
  fixes place :: "'env \<Rightarrow> bid_request \<Rightarrow> 's \<Rightarrow> response \<times> 's"
    and db_of :: "'s \<Rightarrow> db"
    and ok :: "'s \<Rightarrow> bool"
    and good :: "'env \<Rightarrow> bid_request \<Rightarrow> 's \<Rightarrow> bool"
    and world :: "'env \<Rightarrow> db \<Rightarrow> db"
  assumes ok_inv: "ok s \<Longrightarrow> db_inv (db_of s)"
    and ok_place: "ok s \<Longrightarrow> good e r s \<Longrightarrow> ok (snd (place e r s))"
    and place_evolves: "ok s \<Longrightarrow> good e r s \<Longrightarrow> evolves (db_of s) (db_of (snd (place e r s)))"
    and place_named: "place e r s = (Inr res, s') \<Longrightarrow> named_outcome (res_outcome res)"
    and place_accept: "ok s \<Longrightarrow> good e r s \<Longrightarrow> place e r s = (Inr res, s') \<Longrightarrow>
      res_outcome res = Accepted \<Longrightarrow>
      \<exists>a b. next_bid_ok (db_of s) a b \<and> db_of s' = apply_bid a b (db_of s) \<and>
        b_auction b = req_auction r \<and> b_user b = req_user r \<and> b_amount b = req_amount r \<and>
        b_key b = nullif_empty (req_key r) \<and> b_id b = res_bid_id res \<and> b_seq b = res_seq res \<and>
        st_version (res_current res) = res_seq res \<and>
        st_highest (res_current res) = req_amount r \<and>
        st_min_inc (res_current res) = a_min_inc a"
    and place_reject: "ok s \<Longrightarrow> good e r s \<Longrightarrow> place e r s = (Inr res, s') \<Longrightarrow>
      res_outcome res \<noteq> Accepted \<Longrightarrow> db_of s' = db_of s \<or> db_of s' = world e (db_of s)"
    and place_reject_state: "ok s \<Longrightarrow> good e r s \<Longrightarrow> place e r s = (Inr res, s') \<Longrightarrow>
      res_outcome res \<in> {Conflict, TooLow, Closed} \<Longrightarrow>
      \<exists>a. find_auction (db_of s') (req_auction r) = Some a \<and>
        st_version (res_current res) = a_version a \<and>
        st_highest (res_current res) = a_highest a \<and>
        st_min_inc (res_current res) = a_min_inc a"
    and place_bare: "place e r s = (Inr res, s') \<Longrightarrow> res_outcome res \<in> {NotFound, Invalid} \<Longrightarrow>
      res_current res = zero_state"
begin

text \<open>A run keeps the engine's invariant and only takes steps of the ledger.\<close>

lemma run_ok:
  "ok s \<Longrightarrow> good_run place good xs s \<Longrightarrow>
   ok (snd (run_requests place xs s)) \<and> evolves (db_of s) (db_of (snd (run_requests place xs s)))"
proof (induction xs arbitrary: s)
  case Nil
  then show ?case by simp
next
  case (Cons x xs)
  obtain e r where x: "x = (e, r)" by (cases x)
  from Cons.prems have g: "good e r s" and rest: "good_run place good xs (snd (place e r s))"
    by (simp_all add: x)
  have "ok (snd (place e r s))" using Cons.prems(1) g by (rule ok_place)
  from Cons.IH [OF this rest] place_evolves [OF Cons.prems(1) g] show ?case
    unfolding x run_requests_Cons by (auto intro: evolves_trans)
qed

text \<open>One call appends at least as many rows as it answers with \<open>Accepted\<close>.\<close>

lemma place_grows:
  assumes "ok s" and "good e r s"
  shows "length (db_bids (db_of s)) + accepted_count [fst (place e r s)]
    \<le> length (db_bids (db_of (snd (place e r s))))"
proof (cases "is_accepted (fst (place e r s))")
  case True
  then obtain res where "place e r s = (Inr res, snd (place e r s))" "res_outcome res = Accepted"
    by (cases "place e r s"; cases "fst (place e r s)") auto
  from place_accept [OF assms this] True show ?thesis by auto
next
  case False
  obtain bs where "db_bids (db_of (snd (place e r s))) = db_bids (db_of s) @ bs"
    using evolves_bids [OF place_evolves [OF assms]] by blast
  with False show ?thesis by simp
qed

text \<open>No confirmed bid is missing from the table, whatever the run and whatever fails in it.\<close>

lemma run_durable:
  "ok s \<Longrightarrow> good_run place good xs s \<Longrightarrow>
   length (db_bids (db_of s)) + accepted_count (fst (run_requests place xs s))
     \<le> length (db_bids (db_of (snd (run_requests place xs s))))"
proof (induction xs arbitrary: s)
  case Nil
  then show ?case by simp
next
  case (Cons x xs)
  obtain e r where x: "x = (e, r)" by (cases x)
  from Cons.prems have g: "good e r s" and rest: "good_run place good xs (snd (place e r s))"
    by (simp_all add: x)
  have "ok (snd (place e r s))" using Cons.prems(1) g by (rule ok_place)
  from Cons.IH [OF this rest] place_grows [OF Cons.prems(1) g] show ?case
    unfolding x run_requests_Cons by (cases "fst (place e r s)") (auto split: if_splits)
qed

text \<open>
  When every call was answered and no other session wrote, the accepts are exactly the new
  rows.
\<close>

lemma run_exact:
  "ok s \<Longrightarrow> good_run place good xs s \<Longrightarrow> list_all (\<lambda>(e, r). world e = (\<lambda>d. d)) xs \<Longrightarrow>
   list_all (\<lambda>x. \<not> isl x) (fst (run_requests place xs s)) \<Longrightarrow>
   length (db_bids (db_of (snd (run_requests place xs s))))
     = length (db_bids (db_of s)) + accepted_count (fst (run_requests place xs s))"
proof (induction xs arbitrary: s)
  case Nil
  then show ?case by simp
next
  case (Cons x xs)
  obtain e r where x: "x = (e, r)" by (cases x)
  let ?s = "snd (place e r s)"
  from Cons.prems have g: "good e r s" and rest: "good_run place good xs ?s"
    and quiet: "world e = (\<lambda>d. d)" "list_all (\<lambda>(e, r). world e = (\<lambda>d. d)) xs"
    by (simp_all add: x)
  from Cons.prems(4) obtain res where res: "place e r s = (Inr res, ?s)"
    and answered: "list_all (\<lambda>x. \<not> isl x) (fst (run_requests place xs ?s))"
    unfolding x run_requests_Cons by (cases "place e r s"; cases "fst (place e r s)") auto
  have "ok ?s" using Cons.prems(1) g by (rule ok_place)
  note ih = Cons.IH [OF this rest quiet(2) answered]
  have one: "length (db_bids (db_of ?s)) = length (db_bids (db_of s)) + accepted_count [Inr res]"
  proof (cases "res_outcome res = Accepted")
    case True
    from place_accept [OF Cons.prems(1) g res True] True show ?thesis by auto
  next
    case False
    from place_reject [OF Cons.prems(1) g res False] False show ?thesis by (auto simp: quiet(1))
  qed
  have "fst (place e r s) = Inr res" using arg_cong [OF res, of fst] by simp
  with ih one show ?case
    unfolding x run_requests_Cons by (auto split: if_splits)
qed

text \<open>The same of the sequence numbers: those told are in the table, and without faults are all of it.\<close>

lemma place_seq:
  assumes "ok s" and "good e r s"
  shows "set (told_seq (fst (place e r s))) \<subseteq> b_seq ` set (db_bids (db_of (snd (place e r s))))"
proof (cases "fst (place e r s)")
  case (Inr res)
  have "place e r s = (Inr res, snd (place e r s))" using Inr by (metis prod.collapse)
  from place_accept [OF assms this] show ?thesis by (auto simp: Inr)
qed simp

lemma run_seqs:
  "ok s \<Longrightarrow> good_run place good xs s \<Longrightarrow>
   set (told_seqs (fst (run_requests place xs s))) \<subseteq> b_seq ` set (db_bids (db_of (snd (run_requests place xs s))))"
proof (induction xs arbitrary: s)
  case Nil
  then show ?case by simp
next
  case (Cons x xs)
  obtain e r where x: "x = (e, r)" by (cases x)
  let ?s = "snd (place e r s)"
  from Cons.prems have g: "good e r s" and rest: "good_run place good xs ?s" by (simp_all add: x)
  have ok: "ok ?s" using Cons.prems(1) g by (rule ok_place)
  have "set (db_bids (db_of ?s)) \<subseteq> set (db_bids (db_of (snd (run_requests place xs ?s))))"
    using evolves_bids [of "db_of ?s" "db_of (snd (run_requests place xs ?s))"] run_ok [OF ok rest] by auto
  from image_mono [OF this, of b_seq] show ?case
    using Cons.IH [OF ok rest] place_seq [OF Cons.prems(1) g] unfolding x run_requests_Cons
    by (simp add: subset_trans)
qed

lemma place_seq_exact:
  assumes "ok s" and "good e r s" and "world e = (\<lambda>d. d)" and "\<not> isl (fst (place e r s))"
  shows "map b_seq (db_bids (db_of (snd (place e r s)))) = map b_seq (db_bids (db_of s)) @ told_seq (fst (place e r s))"
proof -
  obtain res where res: "fst (place e r s) = Inr res" using assms(4) by (cases "fst (place e r s)") auto
  then have run: "place e r s = (Inr res, snd (place e r s))" by (metis prod.collapse)
  show ?thesis
  proof (cases "res_outcome res = Accepted")
    case True
    from place_accept [OF assms(1,2) run True] True show ?thesis by (auto simp: res)
  next
    case False
    from place_reject [OF assms(1,2) run False] False show ?thesis by (auto simp: res assms(3))
  qed
qed

lemma run_seqs_exact:
  "ok s \<Longrightarrow> good_run place good xs s \<Longrightarrow> list_all (\<lambda>(e, r). world e = (\<lambda>d. d)) xs \<Longrightarrow>
   list_all (\<lambda>x. \<not> isl x) (fst (run_requests place xs s)) \<Longrightarrow>
   map b_seq (db_bids (db_of (snd (run_requests place xs s))))
     = map b_seq (db_bids (db_of s)) @ told_seqs (fst (run_requests place xs s))"
proof (induction xs arbitrary: s)
  case Nil
  then show ?case by simp
next
  case (Cons x xs)
  obtain e r where x: "x = (e, r)" by (cases x)
  let ?s = "snd (place e r s)"
  from Cons.prems have g: "good e r s" and rest: "good_run place good xs ?s"
    and quiet: "world e = (\<lambda>d. d)" "list_all (\<lambda>(e, r). world e = (\<lambda>d. d)) xs"
    by (simp_all add: x)
  have answered: "\<not> isl (fst (place e r s))" "list_all (\<lambda>x. \<not> isl x) (fst (run_requests place xs ?s))"
    using Cons.prems(4) unfolding x run_requests_Cons by simp_all
  have "ok ?s" using Cons.prems(1) g by (rule ok_place)
  from Cons.IH [OF this rest quiet(2) answered(2)] place_seq_exact [OF Cons.prems(1) g quiet(1) answered(1)]
  show ?case unfolding x run_requests_Cons by simp
qed

text \<open>The conformance suite's last case: after any run, \<open>replay\<close> accepts the history.\<close>

lemma run_replays:
  assumes "ok s" and "good_run place good xs s" and "opened (db_of s) x start inc" and "0 \<le> sint start"
  shows "replays (db_of (snd (run_requests place xs s))) x start inc"
proof -
  from run_ok [OF assms(1,2)] have o: "ok (snd (run_requests place xs s))"
    and ev: "evolves (db_of s) (db_of (snd (run_requests place xs s)))"
    by simp_all
  show ?thesis
    using replays_opened [OF ok_inv [OF o] opened_evolves [OF ev assms(3)] assms(4)] .
qed

end

text \<open>
  An engine that also promises to accept: with nothing failing (\<open>calm\<close>), a bid that quotes
  the current version and reaches the minimum is taken. The re-aimed retry of the conformance
  suite, and of every bidder, rests on it.
\<close>

locale responsive_engine = bid_engine place db_of ok good world
  for place :: "'env \<Rightarrow> bid_request \<Rightarrow> 's \<Rightarrow> response \<times> 's"
    and db_of :: "'s \<Rightarrow> db"
    and ok :: "'s \<Rightarrow> bool"
    and good :: "'env \<Rightarrow> bid_request \<Rightarrow> 's \<Rightarrow> bool"
    and world :: "'env \<Rightarrow> db \<Rightarrow> db" +
  fixes calm :: "'env \<Rightarrow> bid_request \<Rightarrow> 's \<Rightarrow> bool"
  assumes place_lands: "ok s \<Longrightarrow> good e r s \<Longrightarrow> calm e r s \<Longrightarrow>
      find_auction (db_of s) (req_auction r) = Some a \<Longrightarrow>
      req_expected r = Some (a_version a) \<Longrightarrow>
      sint (a_highest a) + sint (a_min_inc a) \<le> sint (req_amount r) \<Longrightarrow>
      \<exists>res s'. place e r s = (Inr res, s') \<and> res_outcome res = Accepted"
begin

text \<open>
  Re-aiming with nothing but the rejection: the version it published and its \<open>min_next_bid\<close>.
\<close>

lemma reaim_lands:
  assumes "ok s" and "good e r s" and "place e r s = (Inr res, s')"
    and "res_outcome res \<in> {Conflict, TooLow}"
    and "good e' r' s'" and "calm e' r' s'"
    and "req_auction r' = req_auction r"
    and "req_expected r' = Some (st_version (res_current res))"
    and "req_amount r' = min_next_bid (res_current res)"
    and room: "sint (st_highest (res_current res)) + sint (st_min_inc (res_current res)) < 2 ^ 63"
  shows "\<exists>res' s''. place e' r' s' = (Inr res', s'') \<and> res_outcome res' = Accepted"
proof -
  have "ok s'" using ok_place [OF assms(1,2)] assms(3) by simp
  obtain a where a: "find_auction (db_of s') (req_auction r) = Some a"
    and cur: "st_version (res_current res) = a_version a" "st_highest (res_current res) = a_highest a"
      "st_min_inc (res_current res) = a_min_inc a"
    using place_reject_state [OF assms(1-3)] assms(4) by auto
  have "check_auction a"
    using schema_check [OF db_invD(1) [OF ok_inv [OF \<open>ok s'\<close>]] a] .
  then have "0 \<le> sint (a_highest a)" "0 < sint (a_min_inc a)"
    by (auto simp: check_auction_def sless_iff_sint sle_iff_sint)
  then have "sint (req_amount r') = sint (a_highest a) + sint (a_min_inc a)"
    using room cur assms(9) by (subst assms(9), subst sint_min_next_bid) auto
  then show ?thesis
    using place_lands [OF \<open>ok s'\<close> assms(5,6)] a assms(7,8) cur by simp
qed

end

end
