(* ===== verification/Shard.thy ===== *)
theory Shard
  imports Contract "HOL-Library.Signed_Division" "HOL-Library.Multiset"
begin

unbundle bit_operations_syntax

text \<open>
  The single-writer engine, \<^verbatim>\<open>internal/bid/shard\<close>: routing by FNV-1a, the state one goroutine
  keeps per auction, its hydration, \<open>sh_decide\<close>, the accumulation loop, the one statement
  \<open>commit_batch\<close> of a batch, \<open>sh_commit\<close> with its evictions, and \<open>sh_run\<close> over a schedule of the
  inbox. \<open>shard_PlaceBid\<close> is one call of the engine with nobody else in the inbox.

  The state of a goroutine carries the database, its map, what it answered (\<^verbatim>\<open>reply\<close> on each
  command's channel, in order) and what it fed the three histograms. A schedule is the list of
  things that happen to it: a command received, with the clocks and the round trip of its
  decision; the inbox found empty; the materialiser or \<^verbatim>\<open>POST /auctions\<close> committing beside it.
\<close>

section \<open>Routing (engine.go)\<close>

definition numShards :: nat where
  "numShards = 8"

text \<open>The 16 bytes of a uuid, first byte first, and 32-bit FNV-1a over them.\<close>

definition uuid_bytes :: "uuid \<Rightarrow> 8 word list" where
  "uuid_bytes u = map (\<lambda>i. ucast (drop_bit (8 * (15 - i)) u)) [0..<16]"

definition fnv1a :: "8 word list \<Rightarrow> 32 word" where
  "fnv1a bs = fold (\<lambda>b h. (h XOR ucast b) * 16777619) bs 2166136261"

definition shardFor :: "uuid \<Rightarrow> nat \<Rightarrow> nat" where
  "shardFor auctionID n = unat (fnv1a (uuid_bytes auctionID) mod of_nat n)"

section \<open>What a shard knows of an auction (state.go)\<close>

record mem_auction =
  ma_state :: auction_state
  ma_bidder :: uuid
  ma_skew :: duration

text \<open>
  The outside of one decision: the hydration's round trip with the two local instants around it
  and the database's, and the local clock at its three reads after that: for \<open>IsClosed\<close>, for
  \<^verbatim>\<open>decidedAt\<close>, and for \<^verbatim>\<open>createdAt\<close>.
\<close>

record decide_env =
  de_fault :: fault
  de_before :: time
  de_after :: time
  de_db_now :: time
  de_now :: time
  de_decided_at :: time
  de_created_now :: time
  de_bid_id :: uuid

text \<open>\<^verbatim>\<open>now()\<close>: the local clock corrected by the offset.\<close>

definition ma_now :: "mem_auction \<Rightarrow> time \<Rightarrow> time" where
  "ma_now m local = local + ma_skew m"

definition hydrateQuery :: "uuid \<Rightarrow> time \<Rightarrow> (auction_state \<times> time) stmt" where
  "hydrateQuery auction now = select_state auction now"

text \<open>Go's duration division truncates towards zero.\<close>

definition hydrate :: "decide_env \<Rightarrow> uuid \<Rightarrow> db \<Rightarrow> sql_error + mem_auction" where
  "hydrate e auction d =
     (case fst (run_stmt (de_fault e) (hydrateQuery auction (de_db_now e)) d) of
        Inl err \<Rightarrow> Inl err
      | Inr (st, dbNow) \<Rightarrow>
          (let localMid = de_before e + (de_after e - de_before e) sdiv 2
           in Inr \<lparr>ma_state = st, ma_bidder = 0, ma_skew = dbNow - localMid\<rparr>))"

section \<open>Commands and the goroutine's state (shard.go)\<close>

definition batchMax :: nat where
  "batchMax = 256"

text \<open>\<open>cmd_caller\<close> names the reply channel; it has capacity one and no other sender.\<close>

record command =
  cmd_req :: bid_request
  cmd_started_at :: time
  cmd_caller :: nat

record pending_bid =
  pb_cmd :: command
  pb_bid_id :: uuid
  pb_auction :: uuid
  pb_user :: uuid
  pb_amount :: i64
  pb_seq :: i64
  pb_key :: string
  pb_created_at :: time
  pb_decided_at :: time
  pb_current :: auction_state

record observers =
  obs_accept :: "duration list"
  obs_lag :: "duration list"
  obs_batch :: "nat list"

record shard =
  ss_db :: db
  ss_auctions :: "uuid \<Rightarrow> mem_auction option"
  ss_obs :: observers
  ss_replies :: "(command \<times> response) list"

definition reply :: "command \<Rightarrow> response \<Rightarrow> shard \<Rightarrow> shard" where
  "reply c r s = s\<lparr>ss_replies := ss_replies s @ [(c, r)]\<rparr>"

section \<open>Deciding\<close>

text \<open>The state of the auction, from the map or by hydrating on a miss.\<close>

definition sh_state_of :: "decide_env \<Rightarrow> command \<Rightarrow> shard \<Rightarrow> mem_auction option \<times> shard" where
  "sh_state_of e c s =
     (let x = req_auction (cmd_req c) in
      case ss_auctions s x of
        Some m \<Rightarrow> (Some m, s)
      | None \<Rightarrow>
          (case hydrate e x (ss_db s) of
             Inl err \<Rightarrow>
               if err = NoRows then (None, reply c (Inr (bare_result NotFound)) s)
               else (None, reply c (Inl (Wrap ''hydrate auction'' (DbError err))) s)
           | Inr m \<Rightarrow> (Some m, s\<lparr>ss_auctions := (ss_auctions s)(x \<mapsto> m)\<rparr>)))"

definition sh_decide :: "decide_env \<Rightarrow> command \<Rightarrow> shard \<Rightarrow> pending_bid option \<times> shard" where
  "sh_decide e c s =
     (case sh_state_of e c s of
        (None, s1) \<Rightarrow> (None, s1)
      | (Some m, s1) \<Rightarrow>
          (let req = cmd_req c; st = ma_state m in
           if is_closed st (ma_now m (de_now e)) then (None, reply c (Inr (rejected Closed st)) s1)
           else if req_amount req <s min_next_bid st then (None, reply c (Inr (rejected TooLow st)) s1)
           else
             (let st' = st\<lparr>st_version := st_version st + 1, st_highest := req_amount req\<rparr>;
                  m' = m\<lparr>ma_state := st', ma_bidder := req_user req\<rparr>;
                  obs = (ss_obs s1)\<lparr>obs_accept := obs_accept (ss_obs s1) @ [de_decided_at e - cmd_started_at c]\<rparr>
              in (Some \<lparr>pb_cmd = c, pb_bid_id = de_bid_id e, pb_auction = req_auction req,
                    pb_user = req_user req, pb_amount = req_amount req, pb_seq = st_version st',
                    pb_key = req_key req, pb_created_at = ma_now m' (de_created_now e),
                    pb_decided_at = de_decided_at e, pb_current = st'\<rparr>,
                  s1\<lparr>ss_auctions := (ss_auctions s1)(req_auction req \<mapsto> m'), ss_obs := obs\<rparr>))))"

section \<open>The statement of a batch (sql.go)\<close>

definition row_of :: "pending_bid \<Rightarrow> bid_row" where
  "row_of p = \<lparr>b_id = pb_bid_id p, b_auction = pb_auction p, b_user = pb_user p,
     b_amount = pb_amount p, b_seq = pb_seq p, b_key = nullif_empty (pb_key p),
     b_created_at = pb_created_at p\<rparr>"

text \<open>
  \<^verbatim>\<open>UPDATE ... FROM unnest(...)\<close>: when several rows of the FROM match one target row, PostgreSQL
  uses exactly one of them and does not say which. \<open>pick x n\<close> chooses it among the \<open>n\<close> matches for
  the auction \<open>x\<close>, in batch order; the theorems hold for any \<open>pick\<close> unless they restrict it.
\<close>

definition matches :: "pending_bid list \<Rightarrow> uuid \<Rightarrow> pending_bid list" where
  "matches batch x = filter (\<lambda>p. pb_auction p = x) batch"

definition updated :: "(uuid \<Rightarrow> nat \<Rightarrow> nat) \<Rightarrow> pending_bid list \<Rightarrow> auction_row \<Rightarrow> auction_row" where
  "updated pick batch a =
     (let ms = matches batch (a_id a) in
      if ms = [] then a
      else (let p = ms ! (pick (a_id a) (length ms) mod length ms) in raised a (pb_amount p) (pb_user p) (pb_seq p)))"

definition commitBatch :: "(uuid \<Rightarrow> nat \<Rightarrow> nat) \<Rightarrow> pending_bid list \<Rightarrow> unit stmt" where
  "commitBatch pick batch d =
     (case insert_bids (map row_of batch) d of
        Inl e \<Rightarrow> Inl e
      | Inr d1 \<Rightarrow>
          (let rows = map (updated pick batch) (db_auctions d1) in
           if list_all check_auction rows then Inr ((), d1\<lparr>db_auctions := rows\<rparr>)
           else Inl CheckViolation))"

section \<open>Committing\<close>

text \<open>\<open>co_done\<close> is the local clock when the answers go out, for the lag of each bid.\<close>

record commit_env =
  co_fault :: fault
  co_pick :: "uuid \<Rightarrow> nat \<Rightarrow> nat"
  co_done :: time

definition sh_commit :: "commit_env \<Rightarrow> pending_bid list \<Rightarrow> shard \<Rightarrow> shard" where
  "sh_commit ce batch s =
     (let s1 = s\<lparr>ss_obs := (ss_obs s)\<lparr>obs_batch := obs_batch (ss_obs s) @ [length batch]\<rparr>\<rparr> in
      case run_stmt (co_fault ce) (commitBatch (co_pick ce) batch) (ss_db s1) of
        (Inl err, d') \<Rightarrow>
          fold (\<lambda>p t. reply (pb_cmd p) (Inl (Wrap ''commit batch'' (DbError err)))
                   (t\<lparr>ss_auctions := (ss_auctions t)(pb_auction p := None)\<rparr>))
            batch (s1\<lparr>ss_db := d'\<rparr>)
      | (Inr _, d') \<Rightarrow>
          fold (\<lambda>p t. reply (pb_cmd p)
                   (Inr \<lparr>res_outcome = Accepted, res_seq = pb_seq p, res_bid_id = pb_bid_id p,
                         res_current = pb_current p\<rparr>)
                   (t\<lparr>ss_obs := (ss_obs t)\<lparr>obs_lag := obs_lag (ss_obs t) @ [co_done ce - pb_decided_at p]\<rparr>\<rparr>))
            batch (s1\<lparr>ss_db := d'\<rparr>))"

section \<open>The loop\<close>

text \<open>
  \<open>Arrive e c late\<close>: the goroutine receives \<open>c\<close>; \<open>late\<close> says that \<^verbatim>\<open>lingerMax\<close> has passed since
  the batch opened. \<open>Gap\<close>: the inbox is found empty, which closes an open
  batch and otherwise means waiting. \<open>Stamp\<close> and \<open>Create\<close> are other sessions.
\<close>

datatype event =
    Arrive decide_env command bool
  | Gap
  | Stamp uuid time
  | Create auction_row

definition stamped :: "uuid \<Rightarrow> time \<Rightarrow> db \<Rightarrow> db" where
  "stamped x t d =
     (case find_auction d x of
        None \<Rightarrow> d
      | Some a \<Rightarrow> if a_status a = ColOpen \<and> a_ends_at a \<le> t then set_auction (closed_row a t) d else d)"

definition created :: "auction_row \<Rightarrow> db \<Rightarrow> db" where
  "created a d = (if fresh_row d a then add_auction a d else d)"

fun accumulate ::
  "pending_bid list \<Rightarrow> event list \<Rightarrow> shard \<Rightarrow> pending_bid list \<times> event list \<times> shard" where
  "accumulate batch [] s = (batch, [], s)"
| "accumulate batch (Stamp x t # es) s = accumulate batch es (s\<lparr>ss_db := stamped x t (ss_db s)\<rparr>)"
| "accumulate batch (Create a # es) s = accumulate batch es (s\<lparr>ss_db := created a (ss_db s)\<rparr>)"
| "accumulate batch (Gap # es) s = (batch, Gap # es, s)"
| "accumulate batch (Arrive e c late # es) s =
     (if length batch < batchMax
      then (let (p, s') = sh_decide e c s;
                batch' = (case p of None \<Rightarrow> batch | Some p \<Rightarrow> batch @ [p])
            in if late then (batch', es, s') else accumulate batch' es s')
      else (batch, Arrive e c late # es, s))"

lemma accumulate_shorter:
  "accumulate batch es s = (batch', es', s') \<Longrightarrow> length es' \<le> length es"
  by (induction batch es s arbitrary: batch' es' s' rule: accumulate.induct)
    (fastforce split: if_splits prod.splits option.splits simp: Let_def)+

text \<open>
  The environment of each commit is looked up by the number of batches committed so far. The
  loop ends with the schedule: every turn consumes at least the command that opened it.
\<close>

function sh_run :: "(nat \<Rightarrow> commit_env) \<Rightarrow> event list \<Rightarrow> shard \<Rightarrow> shard" where
  "sh_run ce [] s = s"
| "sh_run ce (Gap # es) s = sh_run ce es s"
| "sh_run ce (Stamp x t # es) s = sh_run ce es (s\<lparr>ss_db := stamped x t (ss_db s)\<rparr>)"
| "sh_run ce (Create a # es) s = sh_run ce es (s\<lparr>ss_db := created a (ss_db s)\<rparr>)"
| "sh_run ce (Arrive e c late # es) s =
     (case sh_decide e c s of
        (None, s1) \<Rightarrow> sh_run ce es s1
      | (Some p, s1) \<Rightarrow>
          (case accumulate [p] es s1 of
             (batch, es', s2) \<Rightarrow> sh_run ce es' (sh_commit (ce (length (obs_batch (ss_obs s2)))) batch s2)))"
  by pat_completeness auto

termination
  by (relation "measure (\<lambda>(ce, es, s). length es)")
    (auto dest!: accumulate_shorter [OF sym])

section \<open>Invariants of the loop\<close>

text \<open>
  What a property of the goroutine has to survive: a decision, a commit, an empty inbox, the
  other sessions. \<open>P batch es s\<close> sees the open batch, the schedule still to come and the state.
\<close>

definition decided :: "pending_bid list \<Rightarrow> pending_bid option \<Rightarrow> pending_bid list" where
  "decided batch p = (case p of None \<Rightarrow> batch | Some p \<Rightarrow> batch @ [p])"

lemma decided_simps [simp]:
  "decided batch None = batch" "decided batch (Some p) = batch @ [p]"
  by (simp_all add: decided_def)

locale shard_invariant =
  fixes ce :: "nat \<Rightarrow> commit_env"
    and P :: "pending_bid list \<Rightarrow> event list \<Rightarrow> shard \<Rightarrow> bool"
  assumes keeps_decide: "P batch (Arrive e c late # es) s \<Longrightarrow> length batch < batchMax \<Longrightarrow>
      sh_decide e c s = (p, s') \<Longrightarrow> P (decided batch p) es s'"
    and keeps_commit: "P batch es s \<Longrightarrow> batch \<noteq> [] \<Longrightarrow> length batch \<le> batchMax \<Longrightarrow>
      P [] es (sh_commit (ce n) batch s)"
    and keeps_gap: "P [] (Gap # es) s \<Longrightarrow> P [] es s"
    and keeps_stamp: "P batch (Stamp x t # es) s \<Longrightarrow> P batch es (s\<lparr>ss_db := stamped x t (ss_db s)\<rparr>)"
    and keeps_create: "P batch (Create a # es) s \<Longrightarrow> P batch es (s\<lparr>ss_db := created a (ss_db s)\<rparr>)"
begin

lemma accumulate_keeps:
  "P batch es s \<Longrightarrow> batch \<noteq> [] \<Longrightarrow> length batch \<le> batchMax \<Longrightarrow>
   accumulate batch es s = (batch', es', s') \<Longrightarrow>
   P batch' es' s' \<and> batch' \<noteq> [] \<and> length batch' \<le> batchMax"
proof (induction batch es s arbitrary: batch' es' s' rule: accumulate.induct)
  case (5 batch e c late es s)
  show ?case
  proof (cases "length batch < batchMax")
    case False
    with 5 show ?thesis by simp
  next
    case True
    obtain p s1 where d: "sh_decide e c s = (p, s1)" by fastforce
    have P: "P (decided batch p) es s1" using keeps_decide [OF 5(2) True d] .
    have b: "decided batch p \<noteq> []" "length (decided batch p) \<le> batchMax"
      using True 5(3) by (cases p; simp)+
    show ?thesis
    proof (cases late)
      case True
      with P b 5(5) \<open>length batch < batchMax\<close> d show ?thesis
        by (simp add: Let_def decided_def)
    next
      case late: False
      with 5(5) True d have acc: "accumulate (decided batch p) es s1 = (batch', es', s')"
        by (simp add: Let_def decided_def)
      show ?thesis
        using 5(1) [OF True refl d [symmetric] refl late P [unfolded decided_def]
            b [unfolded decided_def] acc [unfolded decided_def]] .
    qed
  qed
next
  case (2 batch x t es s)
  from 2(1) [OF keeps_stamp [OF 2(2)] 2(3,4)] 2(5) show ?case by simp
next
  case (3 batch a es s)
  from 3(1) [OF keeps_create [OF 3(2)] 3(3,4)] 3(5) show ?case by simp
qed auto

lemma run_keeps_at: "P [] es s \<Longrightarrow> ce' = ce \<Longrightarrow> P [] [] (sh_run ce' es s)"
proof (induction ce' es s rule: sh_run.induct)
  case (5 ce' e c late es s)
  obtain p s1 where d: "sh_decide e c s = (p, s1)" by fastforce
  have P: "P (decided [] p) es s1"
    using keeps_decide [OF 5(3) _ d] by (simp add: batchMax_def)
  show ?case
  proof (cases p)
    case None
    have "P [] es s1" using P None by simp
    from 5(1) [OF d [symmetric] None this 5(4)] show ?thesis by (simp add: d None)
  next
    case (Some q)
    obtain batch es' s2 where acc: "accumulate [q] es s1 = (batch, es', s2)"
      by (cases "accumulate [q] es s1") auto
    have "P batch es' s2 \<and> batch \<noteq> [] \<and> length batch \<le> batchMax"
      using accumulate_keeps [OF _ _ _ acc] P Some by (simp add: batchMax_def)
    then have next': "P [] es' (sh_commit (ce' (length (obs_batch (ss_obs s2)))) batch s2)"
      unfolding 5(4) by (elim conjE) (rule keeps_commit)
    show ?thesis
      using 5(2) [OF d [symmetric] Some acc [symmetric] refl next' 5(4)] by (simp add: d Some acc)
  qed
next
  case (1 ce' s)
  then show ?case by simp
next
  case (2 ce' es s)
  show ?case using 2(1) [OF keeps_gap [OF 2(2)] 2(3)] by (simp only: sh_run.simps)
next
  case (3 ce' x t es s)
  show ?case using 3(1) [OF keeps_stamp [OF 3(2)] 3(3)] by (simp only: sh_run.simps)
next
  case (4 ce' a es s)
  show ?case using 4(1) [OF keeps_create [OF 4(2)] 4(3)] by (simp only: sh_run.simps)
qed

lemma run_keeps: "P [] es s \<Longrightarrow> P [] [] (sh_run ce es s)"
  using run_keeps_at by blast

end

section \<open>What a decision and a commit do\<close>

lemma reply_simps [simp]:
  "ss_db (reply c r s) = ss_db s" "ss_auctions (reply c r s) = ss_auctions s"
  "ss_obs (reply c r s) = ss_obs s" "ss_replies (reply c r s) = ss_replies s @ [(c, r)]"
  by (simp_all add: reply_def)

lemma sh_decide_cases:
  assumes "sh_decide e c s = (p, s')"
  obtains (answered) "p = None" "ss_db s' = ss_db s" "ss_obs s' = ss_obs s"
      "\<exists>r. \<not> is_accepted r \<and> ss_replies s' = ss_replies s @ [(c, r)]"
  | (accepted) q where "p = Some q" "pb_cmd q = c" "pb_auction q = req_auction (cmd_req c)"
      "pb_user q = req_user (cmd_req c)" "pb_amount q = req_amount (cmd_req c)"
      "pb_key q = req_key (cmd_req c)" "pb_bid_id q = de_bid_id e"
      "ss_db s' = ss_db s" "ss_replies s' = ss_replies s"
      "ss_obs s' = (ss_obs s)\<lparr>obs_accept := obs_accept (ss_obs s) @ [de_decided_at e - cmd_started_at c]\<rparr>"
  using assms
  by (auto simp: sh_decide_def sh_state_of_def Let_def split: option.splits sum.splits if_splits prod.splits)

definition confirmed :: "pending_bid \<Rightarrow> bid_result" where
  "confirmed p = \<lparr>res_outcome = Accepted, res_seq = pb_seq p, res_bid_id = pb_bid_id p, res_current = pb_current p\<rparr>"

lemma commit_success_fold:
  "fold (\<lambda>p t. reply (pb_cmd p) (Inr (confirmed p))
       (t\<lparr>ss_obs := (ss_obs t)\<lparr>obs_lag := obs_lag (ss_obs t) @ [done - pb_decided_at p]\<rparr>\<rparr>)) batch s =
   s\<lparr>ss_replies := ss_replies s @ map (\<lambda>p. (pb_cmd p, Inr (confirmed p))) batch,
     ss_obs := (ss_obs s)\<lparr>obs_lag := obs_lag (ss_obs s) @ map (\<lambda>p. done - pb_decided_at p) batch\<rparr>\<rparr>"
  by (induction batch arbitrary: s) (simp_all add: reply_def)

lemma commit_failure_fold:
  "fold (\<lambda>p t. reply (pb_cmd p) err (t\<lparr>ss_auctions := (ss_auctions t)(pb_auction p := None)\<rparr>)) batch s =
   s\<lparr>ss_replies := ss_replies s @ map (\<lambda>p. (pb_cmd p, err)) batch,
     ss_auctions := (\<lambda>x. if x \<in> pb_auction ` set batch then None else ss_auctions s x)\<rparr>"
  by (induction batch arbitrary: s) (auto simp: reply_def fun_eq_iff)

text \<open>\<^verbatim>\<open>commit\<close>, once its loops are run.\<close>

lemma sh_commit_eq:
  "sh_commit ce batch s =
     (let obs = (ss_obs s)\<lparr>obs_batch := obs_batch (ss_obs s) @ [length batch]\<rparr> in
      case run_stmt (co_fault ce) (commitBatch (co_pick ce) batch) (ss_db s) of
        (Inl err, d') \<Rightarrow>
          s\<lparr>ss_db := d', ss_obs := obs,
            ss_replies := ss_replies s @ map (\<lambda>p. (pb_cmd p, Inl (Wrap ''commit batch'' (DbError err)))) batch,
            ss_auctions := (\<lambda>x. if x \<in> pb_auction ` set batch then None else ss_auctions s x)\<rparr>
      | (Inr _, d') \<Rightarrow>
          s\<lparr>ss_db := d',
            ss_obs := obs\<lparr>obs_lag := obs_lag (ss_obs s) @ map (\<lambda>p. co_done ce - pb_decided_at p) batch\<rparr>,
            ss_replies := ss_replies s @ map (\<lambda>p. (pb_cmd p, Inr (confirmed p))) batch\<rparr>)"
  unfolding sh_commit_def confirmed_def [symmetric] commit_success_fold commit_failure_fold
  by (cases s) (auto simp: Let_def fun_eq_iff split: prod.splits sum.splits)

lemma insert_bids_rows:
  "insert_bids bs d = Inr d' \<Longrightarrow> d' = d\<lparr>db_bids := db_bids d @ bs\<rparr>"
  by (induction bs arbitrary: d) (fastforce split: sum.splits dest: insert_bid_InrD(1))+

lemma commitBatch_InrD:
  assumes "commitBatch pick batch d = Inr (u, d')"
  shows "db_bids d' = db_bids d @ map row_of batch"
    "db_auctions d' = map (updated pick batch) (db_auctions d)"
    "list_all check_auction (db_auctions d')"
    "\<exists>d1. insert_bids (map row_of batch) d = Inr d1"
  using assms
  by (auto simp: commitBatch_def Let_def split: sum.splits if_splits dest!: insert_bids_rows)

text \<open>Whatever happened to the statement, it wrote all of it or none.\<close>

lemma sh_commit_cases:
  obtains (written) u where "commitBatch (co_pick ce) batch (ss_db s) = Inr (u, ss_db (sh_commit ce batch s))"
  | (unwritten) "ss_db (sh_commit ce batch s) = ss_db s"
      "\<exists>err. ss_replies (sh_commit ce batch s) = ss_replies s @ map (\<lambda>p. (pb_cmd p, Inl err)) batch"
proof (cases "run_stmt (co_fault ce) (commitBatch (co_pick ce) batch) (ss_db s)")
  case (Pair r d')
  show ?thesis
  proof (cases r)
    case (Inl err)
    with Pair have c: "ss_db (sh_commit ce batch s) = d'"
      "ss_replies (sh_commit ce batch s) = ss_replies s @ map (\<lambda>p. (pb_cmd p, Inl (Wrap ''commit batch'' (DbError err)))) batch"
      by (simp_all add: sh_commit_eq Let_def)
    from run_stmt_InlD [OF Pair [unfolded Inl]]
    consider "d' = ss_db s" | a where "commitBatch (co_pick ce) batch (ss_db s) = Inr (a, d')"
      by blast
    then show ?thesis
    proof cases
      case 1
      show ?thesis by (rule unwritten) (use 1 c in auto)
    next
      case (2 a)
      show ?thesis by (rule written [of a]) (use 2 c in simp)
    qed
  next
    case (Inr u)
    with Pair run_stmt_InrD [of "co_fault ce" "commitBatch (co_pick ce) batch" "ss_db s" u d'] show ?thesis
      by (auto simp: sh_commit_eq Let_def intro: written)
  qed
qed

lemma stamp_bids [simp]: "db_bids (stamped x t d) = db_bids d"
  by (simp add: stamped_def split: option.splits)

lemma create_bids [simp]: "db_bids (created a d) = db_bids d"
  by (simp add: created_def)

section \<open>Every command is answered once\<close>

fun arrivals :: "event list \<Rightarrow> command list" where
  "arrivals [] = []"
| "arrivals (Arrive e c late # es) = c # arrivals es"
| "arrivals (ev # es) = arrivals es"

definition owed :: "command multiset \<Rightarrow> pending_bid list \<Rightarrow> event list \<Rightarrow> shard \<Rightarrow> bool" where
  "owed M batch es s \<longleftrightarrow>
     mset (map fst (ss_replies s)) + mset (map pb_cmd batch) + mset (arrivals es) = M"

lemma sh_commit_callers:
  "map fst (ss_replies (sh_commit ce batch s)) = map fst (ss_replies s) @ map pb_cmd batch"
  by (auto simp: sh_commit_eq Let_def comp_def split: prod.splits sum.splits)

interpretation answers: shard_invariant ce "owed M" for ce M
proof unfold_locales
  fix batch e c late es s p s'
  assume "owed M batch (Arrive e c late # es) s" "sh_decide e c s = (p, s')"
  then show "owed M (decided batch p) es s'"
    by (elim sh_decide_cases) (fastforce simp: owed_def)+
next
  fix batch es s n
  assume "owed M batch es s"
  then show "owed M [] es (sh_commit (ce n) batch s)"
    by (simp add: owed_def sh_commit_callers)
qed (simp_all add: owed_def)

section \<open>An answered 201 is in the table\<close>

fun kept :: "db \<Rightarrow> command \<times> response \<Rightarrow> bool" where
  "kept d (c, Inl err) = True"
| "kept d (c, Inr res) =
     (res_outcome res = Accepted \<longrightarrow>
       list_ex (\<lambda>b. b_id b = res_bid_id res \<and> b_seq b = res_seq res \<and>
         b_auction b = req_auction (cmd_req c) \<and> b_user b = req_user (cmd_req c) \<and>
         b_amount b = req_amount (cmd_req c) \<and> b_key b = nullif_empty (req_key (cmd_req c))) (db_bids d))"

definition aligned :: "pending_bid \<Rightarrow> bool" where
  "aligned p \<longleftrightarrow> pb_auction p = req_auction (cmd_req (pb_cmd p)) \<and> pb_user p = req_user (cmd_req (pb_cmd p)) \<and>
     pb_amount p = req_amount (cmd_req (pb_cmd p)) \<and> pb_key p = req_key (cmd_req (pb_cmd p))"

definition all_kept :: "pending_bid list \<Rightarrow> event list \<Rightarrow> shard \<Rightarrow> bool" where
  "all_kept batch es s \<longleftrightarrow> list_all (kept (ss_db s)) (ss_replies s) \<and> list_all aligned batch"

lemma kept_append: "kept d x \<Longrightarrow> db_bids d' = db_bids d @ bs \<Longrightarrow> kept d' x"
  by (cases "(d, x)" rule: kept.cases) auto

lemma all_kept_append:
  "list_all (kept d) xs \<Longrightarrow> db_bids d' = db_bids d @ bs \<Longrightarrow> list_all (kept d') xs"
  by (auto simp: list_all_iff intro: kept_append)

lemma kept_not_accepted: "\<not> is_accepted r \<Longrightarrow> kept d (c, r)"
  by (cases r) auto

interpretation durable: shard_invariant ce all_kept for ce
proof unfold_locales
  fix batch e c late es s p s'
  assume "all_kept batch (Arrive e c late # es) s" "sh_decide e c s = (p, s')"
  then show "all_kept (decided batch p) es s'"
    by (elim sh_decide_cases) (auto simp: all_kept_def aligned_def kept_not_accepted)
next
  fix batch es s n
  assume k: "all_kept batch es s"
  show "all_kept [] es (sh_commit (ce n) batch s)"
  proof (cases rule: sh_commit_cases [of "ce n" batch s])
    case (written u)
    let ?d = "ss_db (sh_commit (ce n) batch s)"
    note rows = commitBatch_InrD(1) [OF written]
    have "list_all (kept ?d) (ss_replies s)"
      using k rows all_kept_append by (auto simp: all_kept_def)
    moreover have "kept ?d (pb_cmd p, Inr (confirmed p))" if p: "p \<in> set batch" for p
    proof -
      have "row_of p \<in> set (db_bids ?d)" using p rows by simp
      moreover have "aligned p" using k p by (auto simp: all_kept_def list_all_iff)
      ultimately show ?thesis
        unfolding confirmed_def
        by (auto simp: list_ex_iff aligned_def row_of_def intro!: bexI [of _ "row_of p"])
    qed
    ultimately show ?thesis
      by (auto simp: all_kept_def sh_commit_eq Let_def list_all_iff split: prod.splits sum.splits)
  next
    case unwritten
    with k show ?thesis by (auto simp: all_kept_def list_all_iff)
  qed
next
  fix batch x t es s
  assume "all_kept batch (Stamp x t # es) s"
  then show "all_kept batch es (s\<lparr>ss_db := stamped x t (ss_db s)\<rparr>)"
    by (auto simp: all_kept_def intro: all_kept_append [where bs = "[]"])
next
  fix batch a es s
  assume "all_kept batch (Create a # es) s"
  then show "all_kept batch es (s\<lparr>ss_db := created a (ss_db s)\<rparr>)"
    by (auto simp: all_kept_def intro: all_kept_append [where bs = "[]"])
qed (simp_all add: all_kept_def)

section \<open>The three histograms\<close>

definition balanced :: "nat \<Rightarrow> pending_bid list \<Rightarrow> event list \<Rightarrow> shard \<Rightarrow> bool" where
  "balanced n batch es s \<longleftrightarrow>
     length (obs_accept (ss_obs s)) = sum_list (obs_batch (ss_obs s)) + length batch \<and>
     length (obs_lag (ss_obs s)) + n = accepted_count (map snd (ss_replies s)) \<and>
     list_all (\<lambda>k. 1 \<le> k \<and> k \<le> batchMax) (obs_batch (ss_obs s))"

lemma accepted_count_const:
  "accepted_count (map (\<lambda>p. Inr (confirmed p)) ps) = length ps"
  "accepted_count (map (\<lambda>p. Inl err) ps) = 0"
  by (induction ps) (simp_all add: confirmed_def)

interpretation histograms: shard_invariant ce "balanced n" for ce n
proof unfold_locales
  fix batch e c late es s p s'
  assume "balanced n batch (Arrive e c late # es) s" "sh_decide e c s = (p, s')"
  then show "balanced n (decided batch p) es s'"
    by (elim sh_decide_cases) (auto simp: balanced_def)
next
  fix batch es s k
  assume b: "balanced n batch es s" and "batch \<noteq> []" "length batch \<le> batchMax"
  then have "1 \<le> length batch" by (cases batch) auto
  with b \<open>length batch \<le> batchMax\<close> show "balanced n [] es (sh_commit (ce k) batch s)"
    by (auto simp: balanced_def sh_commit_eq Let_def comp_def accepted_count_const
        split: prod.splits sum.splits)
qed (simp_all add: balanced_def)

section \<open>Properties of the loop\<close>

definition sample_command :: "nat \<Rightarrow> i64 \<Rightarrow> command" where
  "sample_command i amount =
     \<lparr>cmd_req = (sample_request 0 amount)\<lparr>req_user := word_of_nat i\<rparr>, cmd_started_at = 1, cmd_caller = i\<rparr>"

definition sample_decide_env :: "uuid \<Rightarrow> decide_env" where
  "sample_decide_env i = \<lparr>de_fault = NoFault, de_before = 2, de_after = 4, de_db_now = 3, de_now = 5,
     de_decided_at = 6, de_created_now = 5, de_bid_id = i\<rparr>"

definition sample_commit :: "nat \<Rightarrow> commit_env" where
  "sample_commit n = \<lparr>co_fault = NoFault, co_pick = (\<lambda>x k. 0), co_done = 9\<rparr>"

definition fresh_shard :: "db \<Rightarrow> shard" where
  "fresh_shard d = \<lparr>ss_db = d, ss_auctions = (\<lambda>_. None),
     ss_obs = \<lparr>obs_accept = [], obs_lag = [], obs_batch = []\<rparr>, ss_replies = []\<rparr>"

text \<open>
  Every command received is answered exactly once, whatever the clocks, the
  round trips and the batches: the callers answered by the end of a schedule are those answered
  before plus those of its arrivals, each as many times as it arrived. So \<open>PlaceBid\<close>, which waits
  for its answer with no early exit, always gets one.
\<close>

theorem shard_answers_everyone:
  "mset (map fst (ss_replies (sh_run ce es s))) = mset (map fst (ss_replies s)) + mset (arrivals es)"
  using answers.run_keeps [of "mset (map fst (ss_replies s)) + mset (arrivals es)" es s ce]
  by (simp add: owed_def)

text \<open>
  Claim C4. A 201 is durable. In every run of the goroutine, with any faults, clocks,
  closings beside it and any choice of the UPDATE among duplicate matches, each bid answered
  as \<open>Accepted\<close> has its row in the table at the end, with its id, sequence, auction, bidder,
  amount and key.
\<close>

theorem shard_accepted_is_durable:
  assumes "ss_replies s = []"
  shows "list_all (kept (ss_db (sh_run ce es s))) (ss_replies (sh_run ce es s))"
  using durable.run_keeps [of es s ce] assms by (simp add: all_kept_def)

theorem shard_accepted_is_durable_witness:
  "list_all (kept (ss_db (sh_run sample_commit [Arrive (sample_decide_env 9) (sample_command 7 100) False]
       (fresh_shard sample_db))))
     (ss_replies (sh_run sample_commit [Arrive (sample_decide_env 9) (sample_command 7 100) False]
       (fresh_shard sample_db)))"
  by (rule shard_accepted_is_durable) (simp add: fresh_shard_def)

text \<open>
  The three histograms agree with the answers: every accepted decision is in
  exactly one batch, so the batch sizes, each between 1 and 256, add up to the number of
  accept observations even when batches abort; and a lag is observed exactly once per 201.
\<close>

theorem shard_histograms_balance:
  "(let s = sh_run ce es (fresh_shard d) in
     length (obs_accept (ss_obs s)) = sum_list (obs_batch (ss_obs s)) \<and>
     length (obs_lag (ss_obs s)) = accepted_count (map snd (ss_replies s)) \<and>
     list_all (\<lambda>k. 1 \<le> k \<and> k \<le> 256) (obs_batch (ss_obs s)))"
  using histograms.run_keeps [of 0 es "fresh_shard d" ce]
  by (simp add: balanced_def fresh_shard_def batchMax_def Let_def)

end
