(* ===== verification/Optimistic.thy ===== *)
theory Optimistic
  imports Contract
begin

text \<open>
  The optimistic engine, \<^verbatim>\<open>internal/bid/optimistic\<close>: the conditional UPDATE with its INSERT in
  one CTE (\<open>opt_place_bid\<close>), the classification of a statement that matched no row
  (\<open>optimistic_classify\<close>), and \<open>optimistic_PlaceBid\<close>, which composes them. The engine is an
  interpretation of the contract, and \<open>opt_step\<close> interleaves any number of requests at the
  grain of their statements.
\<close>

section \<open>The two statements (sql.go)\<close>

text \<open>
  The WHERE is evaluated left to right: id, version, status, end, increment. The sums are
  SQL's, so an overflow raises instead of wrapping.
\<close>

definition opt_place_bid ::
  "i64 \<Rightarrow> uuid \<Rightarrow> uuid \<Rightarrow> i64 \<Rightarrow> uuid \<Rightarrow> string \<Rightarrow> time \<Rightarrow> (i64 \<times> i64) stmt" where
  "opt_place_bid amount user auction version bid_id key now d =
     (case find_auction d auction of
        None \<Rightarrow> Inl NoRows
      | Some a \<Rightarrow>
          if \<not> (a_version a = version \<and> a_status a = ColOpen \<and> now < a_ends_at a) then Inl NoRows
          else (case bigint_add (a_highest a) (a_min_inc a) of
                  None \<Rightarrow> Inl OutOfRange
                | Some minimum \<Rightarrow>
                    if \<not> minimum \<le>s amount then Inl NoRows
                    else (case bigint_add (a_version a) 1 of
                            None \<Rightarrow> Inl OutOfRange
                          | Some v \<Rightarrow>
                              (case update_auction (raised a amount user v) d of
                                 Inl e \<Rightarrow> Inl e
                               | Inr d1 \<Rightarrow>
                                   (case insert_bid \<lparr>b_id = bid_id, b_auction = auction, b_user = user,
                                            b_amount = amount, b_seq = v, b_key = nullif_empty key,
                                            b_created_at = now\<rparr> d1 of
                                      Inl e \<Rightarrow> Inl e
                                    | Inr d2 \<Rightarrow> Inr ((v, a_min_inc a), d2))))))"

definition opt_classify :: "uuid \<Rightarrow> time \<Rightarrow> (auction_state \<times> time) stmt" where
  "opt_classify auction now = select_state auction now"

section \<open>The engine (optimistic.go)\<close>

text \<open>
  What one call takes from outside: the generated bid id, the transaction time and the fate of
  each statement, and what other sessions commit between the two.
\<close>

record opt_env =
  oe_bid_id :: uuid
  oe_now1 :: time
  oe_fault1 :: fault
  oe_world :: "db \<Rightarrow> db"
  oe_now2 :: time
  oe_fault2 :: fault

text \<open>NotFound, then Closed, then Conflict, then TooLow; and Conflict again by default.\<close>

definition classify_outcome :: "auction_state \<Rightarrow> time \<Rightarrow> i64 \<Rightarrow> i64 \<Rightarrow> outcome" where
  "classify_outcome st dbNow expected amount =
     (if is_closed st dbNow then Closed
      else if st_version st \<noteq> expected then Conflict
      else if amount <s min_next_bid st then TooLow
      else Conflict)"

definition optimistic_classify :: "time \<Rightarrow> fault \<Rightarrow> bid_request \<Rightarrow> i64 \<Rightarrow> db \<Rightarrow> response \<times> db" where
  "optimistic_classify now f req expected d =
     (case run_stmt f (opt_classify (req_auction req) now) d of
        (Inl e, d') \<Rightarrow>
          if e = NoRows then (Inr (bare_result NotFound), d')
          else (Inl (Wrap ''classify bid'' (DbError e)), d')
      | (Inr (st, dbNow), d') \<Rightarrow>
          (Inr (rejected (classify_outcome st dbNow expected (req_amount req)) st), d'))"

definition optimistic_PlaceBid :: "opt_env \<Rightarrow> bid_request \<Rightarrow> db \<Rightarrow> response \<times> db" where
  "optimistic_PlaceBid env req d =
     (case req_expected req of
        None \<Rightarrow> (Inr (bare_result Invalid), d)
      | Some expected \<Rightarrow>
          (case run_stmt (oe_fault1 env)
                  (opt_place_bid (req_amount req) (req_user req) (req_auction req) expected
                     (oe_bid_id env) (req_key req) (oe_now1 env)) d of
             (Inl e, d1) \<Rightarrow>
               if e = NoRows
               then optimistic_classify (oe_now2 env) (oe_fault2 env) req expected (oe_world env d1)
               else (Inl (Wrap ''place bid'' (DbError e)), d1)
           | (Inr (seq, min_increment), d1) \<Rightarrow>
               (Inr (accepted_result seq (oe_bid_id env) (req_amount req) min_increment), d1)))"

section \<open>The statements, case by case\<close>

lemma opt_place_bid_InrD:
  assumes "opt_place_bid amount user auction version bid_id key now d = Inr ((v, m), d')"
  shows "\<exists>a b. next_bid_ok d a b \<and> d' = apply_bid a b d \<and>
    b = \<lparr>b_id = bid_id, b_auction = auction, b_user = user, b_amount = amount, b_seq = v,
         b_key = nullif_empty key, b_created_at = now\<rparr> \<and>
    a_version a = version \<and> a_status a = ColOpen \<and> now < a_ends_at a \<and> m = a_min_inc a"
proof -
  obtain a minimum d1 where a: "find_auction d auction = Some a"
    and g: "a_version a = version" "a_status a = ColOpen" "now < a_ends_at a"
    and minimum: "bigint_add (a_highest a) (a_min_inc a) = Some minimum" "minimum \<le>s amount"
    and v: "bigint_add (a_version a) 1 = Some v" and m: "m = a_min_inc a"
    and d1: "update_auction (raised a amount user v) d = Inr d1"
    and ins: "insert_bid \<lparr>b_id = bid_id, b_auction = auction, b_user = user, b_amount = amount,
      b_seq = v, b_key = nullif_empty key, b_created_at = now\<rparr> d1 = Inr d'" (is "insert_bid ?b d1 = _")
    using assms by (auto simp: opt_place_bid_def split: option.splits if_splits sum.splits)
  have d1': "d1 = set_auction (raised a amount user v) d"
    using d1 by (auto simp: update_auction_def split: if_splits)
  have "bid_violation d ?b = None"
    using insert_bid_InrD(2) [OF ins] by (simp add: d1')
  then have "next_bid_ok d a ?b"
    using a g minimum(2) bigint_add_sint [OF minimum(1)] bigint_add_sint [OF v]
    by (simp add: next_bid_ok_def sle_iff_sint)
  moreover have "d' = apply_bid a ?b d"
    using insert_bid_InrD(1) [OF ins] by (simp add: d1' apply_bid_def)
  ultimately show ?thesis using g m by blast
qed

text \<open>The converse: when the guards and the constraints are met, the statement writes the bid.\<close>

lemma opt_place_bid_lands:
  assumes inv: "schema_ok d" and b: "next_bid_ok d a b"
    and "a_status a = ColOpen" and "b_created_at b < a_ends_at a"
    and "b_key b = nullif_empty key"
  shows "opt_place_bid (b_amount b) (b_user b) (b_auction b) (a_version a) (b_id b) key
    (b_created_at b) d = Inr ((b_seq b, a_min_inc a), apply_bid a b d)"
proof -
  have a: "find_auction d (b_auction b) = Some a" and seq: "sint (b_seq b) = sint (a_version a) + 1"
    and inc: "sint (a_highest a) + sint (a_min_inc a) \<le> sint (b_amount b)"
    and viol: "bid_violation d b = None"
    using b by (simp_all add: next_bid_ok_def)
  have chk: "check_auction a" using schema_check [OF inv a] .
  then have "bigint_add (a_highest a) (a_min_inc a) = Some (a_highest a + a_min_inc a)"
    using inc sint_range [of "b_amount b"]
    by (intro bigint_add_Some) (auto simp: check_auction_def sless_iff_sint sle_iff_sint)
  moreover from bigint_add_sint [OF this] have "a_highest a + a_min_inc a \<le>s b_amount b"
    using inc by (simp only: sle_iff_sint)
  moreover have "bigint_add (a_version a) 1 = Some (b_seq b)"
  proof -
    have "bigint_add (a_version a) 1 = Some (a_version a + 1)"
      using seq sint_range [of "b_seq b"] sint_range [of "a_version a"] by (intro bigint_add_Some) auto
    moreover have "a_version a + 1 = b_seq b"
      using bigint_add_sint [OF calculation] seq by (simp add: i64_eqI)
    ultimately show ?thesis by simp
  qed
  moreover have "update_auction (raised a (b_amount b) (b_user b) (b_seq b)) d
      = Inr (set_auction (raised a (b_amount b) (b_user b) (b_seq b)) d)"
    using check_auction_raised [OF chk bid_violation_NoneD(1) [OF viol]] by (simp add: update_auction_def)
  moreover have "\<lparr>b_id = b_id b, b_auction = b_auction b, b_user = b_user b, b_amount = b_amount b,
      b_seq = b_seq b, b_key = nullif_empty key, b_created_at = b_created_at b\<rparr> = b"
    using assms(5) by simp
  ultimately show ?thesis
    using a assms(3,4) apply_bid_is_insert [OF viol] by (simp add: opt_place_bid_def)
qed

lemma optimistic_classify_db: "snd (optimistic_classify now f req expected d) = d"
  by (auto simp: optimistic_classify_def opt_classify_def run_select_state
      split: fault.splits option.splits)

lemma optimistic_classify_InrD:
  assumes "optimistic_classify now f req expected d = (Inr res, d')"
  shows "(find_auction d (req_auction req) = None \<and> res = bare_result NotFound) \<or>
    (\<exists>a. find_auction d (req_auction req) = Some a \<and>
       res = rejected (classify_outcome (state_of_row a) now expected (req_amount req)) (state_of_row a))"
  using assms
  by (auto simp: optimistic_classify_def opt_classify_def run_select_state
      split: fault.splits option.splits if_splits)

lemma classify_outcome_not_accepted [simp]:
  "classify_outcome st now expected amount \<noteq> Accepted"
  by (simp add: classify_outcome_def)

lemma classify_outcome_range:
  "classify_outcome st now expected amount \<in> {Closed, Conflict, TooLow}"
  by (simp add: classify_outcome_def)

section \<open>The contract\<close>

definition opt_good :: "opt_env \<Rightarrow> bid_request \<Rightarrow> db \<Rightarrow> bool" where
  "opt_good e r d \<longleftrightarrow> evolves d (oe_world e d)"

definition opt_calm :: "opt_env \<Rightarrow> bid_request \<Rightarrow> db \<Rightarrow> bool" where
  "opt_calm e r d \<longleftrightarrow>
     oe_fault1 e = NoFault \<and> 0 <s req_amount r \<and>
     oe_bid_id e \<notin> set (map b_id (db_bids d)) \<and> \<not> key_taken d (nullif_empty (req_key r)) \<and>
     (case find_auction d (req_auction r) of
        None \<Rightarrow> True
      | Some a \<Rightarrow> a_status a = ColOpen \<and> oe_now1 e < a_ends_at a \<and> sint (a_version a) < 2 ^ 63 - 1)"

text \<open>The shapes a call can end in.\<close>

lemma optimistic_PlaceBid_cases:
  assumes "optimistic_PlaceBid e r d = (res, d')"
  obtains (invalid) "req_expected r = None" "res = Inr (bare_result Invalid)" "d' = d"
  | (accept) expected v m where "req_expected r = Some expected" "oe_fault1 e = NoFault"
      "opt_place_bid (req_amount r) (req_user r) (req_auction r) expected (oe_bid_id e) (req_key r)
        (oe_now1 e) d = Inr ((v, m), d')"
      "res = Inr (accepted_result v (oe_bid_id e) (req_amount r) m)"
  | (classified) expected where "req_expected r = Some expected"
      "opt_place_bid (req_amount r) (req_user r) (req_auction r) expected (oe_bid_id e) (req_key r)
        (oe_now1 e) d = Inl NoRows"
      "optimistic_classify (oe_now2 e) (oe_fault2 e) r expected (oe_world e d) = (res, d')"
      "d' = oe_world e d"
  | (failed) err where "res = Inl err" "d' = d"
  | (lost) expected v m err where "req_expected r = Some expected" "res = Inl err"
      "opt_place_bid (req_amount r) (req_user r) (req_auction r) expected (oe_bid_id e) (req_key r)
        (oe_now1 e) d = Inr ((v, m), d')"
proof (cases "req_expected r")
  case None
  with assms show ?thesis by (intro invalid) (auto simp: optimistic_PlaceBid_def)
next
  case (Some expected)
  let ?s = "opt_place_bid (req_amount r) (req_user r) (req_auction r) expected (oe_bid_id e)
    (req_key r) (oe_now1 e)"
  have world: "snd (optimistic_classify (oe_now2 e) (oe_fault2 e) r expected (oe_world e d)) = oe_world e d"
    by (rule optimistic_classify_db)
  show ?thesis
  proof (cases "oe_fault1 e")
    case FaultBefore
    with assms Some show ?thesis
      by (intro failed) (auto simp: optimistic_PlaceBid_def run_stmt_def)
  next
    case NoFault
    show ?thesis
    proof (cases "?s d")
      case (Inl err)
      show ?thesis
      proof (cases "err = NoRows")
        case True
        with assms Some NoFault Inl world show ?thesis
          by (intro classified) (auto simp: optimistic_PlaceBid_def run_stmt_def)
      next
        case False
        with assms Some NoFault Inl show ?thesis
          by (intro failed) (auto simp: optimistic_PlaceBid_def run_stmt_def)
      qed
    next
      case (Inr out)
      with assms Some NoFault show ?thesis
        by (cases out) (auto intro!: accept simp: optimistic_PlaceBid_def run_stmt_def)
    qed
  next
    case FaultAfter
    show ?thesis
    proof (cases "?s d")
      case (Inl err)
      show ?thesis
      proof (cases "err = NoRows")
        case True
        with assms Some FaultAfter Inl world show ?thesis
          by (intro classified) (auto simp: optimistic_PlaceBid_def run_stmt_def)
      next
        case False
        with assms Some FaultAfter Inl show ?thesis
          by (intro failed) (auto simp: optimistic_PlaceBid_def run_stmt_def)
      qed
    next
      case (Inr out)
      with assms Some FaultAfter show ?thesis
        by (cases out) (auto intro!: lost simp: optimistic_PlaceBid_def run_stmt_def)
    qed
  qed
qed

lemma optimistic_evolves:
  assumes "opt_good e r d"
  shows "evolves d (snd (optimistic_PlaceBid e r d))"
proof -
  obtain res d' where p: "optimistic_PlaceBid e r d = (res, d')" by fastforce
  from p show ?thesis
  proof (cases rule: optimistic_PlaceBid_cases)
    case (classified expected)
    with assms p show ?thesis by (simp add: opt_good_def)
  next
    case (accept expected v m)
    from opt_place_bid_InrD [OF accept(3)] p show ?thesis by (auto intro: evolves_bid)
  next
    case (lost expected v m err)
    from opt_place_bid_InrD [OF lost(3)] p show ?thesis by (auto intro: evolves_bid)
  qed (simp_all add: p)
qed

interpretation optimistic: responsive_engine optimistic_PlaceBid "\<lambda>d. d" db_inv opt_good oe_world opt_calm
proof unfold_locales
  fix e r d assume "db_inv d" "opt_good e r d"
  then show "db_inv (snd (optimistic_PlaceBid e r d))"
    using db_inv_evolves optimistic_evolves by blast
next
  fix e r d assume "opt_good e r d"
  then show "evolves d (snd (optimistic_PlaceBid e r d))" by (rule optimistic_evolves)
next
  fix e r d res d' assume p: "optimistic_PlaceBid e r d = (Inr res, d')"
  then show "named_outcome (res_outcome res)"
  proof (cases rule: optimistic_PlaceBid_cases)
    case (classified expected)
    from optimistic_classify_InrD [OF classified(3)] show ?thesis
      by (auto simp: classify_outcome_def)
  qed auto
next
  fix e r d res d' assume p: "optimistic_PlaceBid e r d = (Inr res, d')"
    and acc: "res_outcome res = Accepted"
  from p show "\<exists>a b. next_bid_ok d a b \<and> d' = apply_bid a b d \<and>
        b_auction b = req_auction r \<and> b_user b = req_user r \<and> b_amount b = req_amount r \<and>
        b_key b = nullif_empty (req_key r) \<and> b_id b = res_bid_id res \<and> b_seq b = res_seq res \<and>
        st_version (res_current res) = res_seq res \<and>
        st_highest (res_current res) = req_amount r \<and>
        st_min_inc (res_current res) = a_min_inc a"
  proof (cases rule: optimistic_PlaceBid_cases)
    case (accept expected v m)
    from opt_place_bid_InrD [OF accept(3)] accept(4) show ?thesis by fastforce
  next
    case (classified expected)
    from optimistic_classify_InrD [OF classified(3)] acc show ?thesis
      by (auto simp: classify_outcome_def split: if_splits)
  qed (use acc in auto)
next
  fix e r d res d' assume p: "optimistic_PlaceBid e r d = (Inr res, d')"
    and acc: "res_outcome res \<noteq> Accepted"
  from p show "d' = d \<or> d' = oe_world e d"
    by (cases rule: optimistic_PlaceBid_cases) (use acc in auto)
next
  fix e r d res d' assume p: "optimistic_PlaceBid e r d = (Inr res, d')"
    and rej: "res_outcome res \<in> {Conflict, TooLow, Closed}"
  from p show "\<exists>a. find_auction d' (req_auction r) = Some a \<and>
        st_version (res_current res) = a_version a \<and> st_highest (res_current res) = a_highest a \<and>
        st_min_inc (res_current res) = a_min_inc a"
  proof (cases rule: optimistic_PlaceBid_cases)
    case (classified expected)
    from optimistic_classify_InrD [OF classified(3)] rej classified(4) show ?thesis by auto
  qed (use rej in auto)
next
  fix e r d res d' assume p: "optimistic_PlaceBid e r d = (Inr res, d')"
    and bare: "res_outcome res \<in> {NotFound, Invalid}"
  from p show "res_current res = zero_state"
  proof (cases rule: optimistic_PlaceBid_cases)
    case (classified expected)
    from optimistic_classify_InrD [OF classified(3)] bare show ?thesis
      by (auto simp: classify_outcome_def split: if_splits)
  qed (use bare in auto)
next
  fix e r d a
  assume inv: "db_inv d" and calm: "opt_calm e r d" and a: "find_auction d (req_auction r) = Some a"
    and ver: "req_expected r = Some (a_version a)"
    and inc: "sint (a_highest a) + sint (a_min_inc a) \<le> sint (req_amount r)"
  let ?b = "\<lparr>b_id = oe_bid_id e, b_auction = req_auction r, b_user = req_user r,
    b_amount = req_amount r, b_seq = a_version a + 1, b_key = nullif_empty (req_key r),
    b_created_at = oe_now1 e\<rparr>"
  have "sint (a_version a + 1) = sint (a_version a) + 1"
    using calm a sint_range [of "a_version a"]
    by (subst sint_add_in_range) (auto simp: opt_calm_def)
  then have "next_bid_ok d a ?b"
    using calm a inc next_seq_is_free [OF inv a, of "a_version a + 1"]
    by (auto simp: next_bid_ok_def opt_calm_def bid_violation_def)
  from opt_place_bid_lands [OF db_invD(1) [OF inv] this, of "req_key r"] calm a ver
  show "\<exists>res s'. optimistic_PlaceBid e r d = (Inr res, s') \<and> res_outcome res = Accepted"
    by (auto simp: optimistic_PlaceBid_def opt_calm_def run_stmt_def)
qed auto

section \<open>Any number of requests, interleaved at their statements\<close>

text \<open>
  Between a request's UPDATE and its classification other requests run theirs, and the
  database may close or create auctions. A process is idle or has missed its UPDATE
  (\<open>Missed\<close>); the log keeps what was answered, in order.
\<close>

datatype opt_pc = Ready | Missed bid_request i64

record opt_sys =
  os_db :: db
  os_pc :: "nat \<Rightarrow> opt_pc"
  os_log :: "(bid_request \<times> response) list"

definition opt_start :: "db \<Rightarrow> opt_sys" where
  "opt_start d = \<lparr>os_db = d, os_pc = (\<lambda>_. Ready), os_log = []\<rparr>"

definition opt_try :: "bid_request \<Rightarrow> i64 \<Rightarrow> uuid \<Rightarrow> time \<Rightarrow> (i64 \<times> i64) stmt" where
  "opt_try r expected bid_id now =
     opt_place_bid (req_amount r) (req_user r) (req_auction r) expected bid_id (req_key r) now"

inductive opt_step :: "opt_sys \<Rightarrow> opt_sys \<Rightarrow> bool" where
  opt_invalid: "os_pc s i = Ready \<Longrightarrow> req_expected r = None \<Longrightarrow>
    opt_step s (s\<lparr>os_log := os_log s @ [(r, Inr (bare_result Invalid))]\<rparr>)"
| opt_hit: "os_pc s i = Ready \<Longrightarrow> req_expected r = Some expected \<Longrightarrow>
    run_stmt f (opt_try r expected bid_id now) (os_db s) = (Inr (v, m), d') \<Longrightarrow>
    opt_step s (s\<lparr>os_db := d',
      os_log := os_log s @ [(r, Inr (accepted_result v bid_id (req_amount r) m))]\<rparr>)"
| opt_miss: "os_pc s i = Ready \<Longrightarrow> req_expected r = Some expected \<Longrightarrow>
    run_stmt f (opt_try r expected bid_id now) (os_db s) = (Inl NoRows, d') \<Longrightarrow>
    opt_step s (s\<lparr>os_db := d', os_pc := (os_pc s)(i := Missed r expected)\<rparr>)"
| opt_error: "os_pc s i = Ready \<Longrightarrow> req_expected r = Some expected \<Longrightarrow>
    run_stmt f (opt_try r expected bid_id now) (os_db s) = (Inl e, d') \<Longrightarrow> e \<noteq> NoRows \<Longrightarrow>
    opt_step s (s\<lparr>os_db := d', os_log := os_log s @ [(r, Inl (Wrap ''place bid'' (DbError e)))]\<rparr>)"
| opt_classified: "os_pc s i = Missed r expected \<Longrightarrow>
    optimistic_classify now f r expected (os_db s) = (res, d') \<Longrightarrow>
    opt_step s (s\<lparr>os_db := d', os_pc := (os_pc s)(i := Ready), os_log := os_log s @ [(r, res)]\<rparr>)"
| opt_close: "find_auction (os_db s) x = Some a \<Longrightarrow> a_status a = ColOpen \<Longrightarrow> a_ends_at a \<le> t \<Longrightarrow>
    opt_step s (s\<lparr>os_db := set_auction (closed_row a t) (os_db s)\<rparr>)"
| opt_create: "fresh_row (os_db s) a \<Longrightarrow>
    opt_step s (s\<lparr>os_db := add_auction a (os_db s)\<rparr>)"

inductive opt_reachable :: "db \<Rightarrow> opt_sys \<Rightarrow> bool" where
  opt_init: "opt_reachable d (opt_start d)"
| opt_next: "opt_reachable d s \<Longrightarrow> opt_step s t \<Longrightarrow> opt_reachable d t"

text \<open>The winners of a log: the accepted requests, with the version each one quoted.\<close>

fun winner_of :: "bid_request \<times> response \<Rightarrow> (uuid \<times> i64 option \<times> i64) list" where
  "winner_of (r, Inl e) = []"
| "winner_of (r, Inr res) =
     (if res_outcome res = Accepted then [(req_auction r, req_expected r, res_seq res)] else [])"

definition winners :: "(bid_request \<times> response) list \<Rightarrow> (uuid \<times> i64 option \<times> i64) list" where
  "winners log = concat (map winner_of log)"

lemma winners_simps [simp]:
  "winners [] = []" "winners (xs @ [x]) = winners xs @ winner_of x"
  by (simp_all add: winners_def)

lemma winner_of_classified:
  assumes "optimistic_classify now f r expected d = (res, d')"
  shows "winner_of (r, res) = []"
proof (cases res)
  case (Inr a)
  with optimistic_classify_InrD [of now f r expected d a d'] assms show ?thesis
    by auto
qed simp

definition opt_sys_inv :: "opt_sys \<Rightarrow> bool" where
  "opt_sys_inv s \<longleftrightarrow>
     db_inv (os_db s) \<and>
     distinct (map (\<lambda>(x, e, q). (x, q)) (winners (os_log s))) \<and>
     (\<forall>(x, e, q) \<in> set (winners (os_log s)).
        (x, q) \<in> (\<lambda>b. (b_auction b, b_seq b)) ` set (db_bids (os_db s)) \<and>
        (\<exists>v. e = Some v \<and> sint q = sint v + 1))"

lemma opt_sys_inv_grow:
  assumes "opt_sys_inv s" and "evolves (os_db s) (os_db t)" and "winners (os_log t) = winners (os_log s)"
  shows "opt_sys_inv t"
proof -
  obtain bs where "db_bids (os_db t) = db_bids (os_db s) @ bs"
    using evolves_bids [OF assms(2)] by blast
  moreover have "db_inv (os_db t)"
    using assms(1,2) db_inv_evolves by (auto simp: opt_sys_inv_def)
  ultimately show ?thesis
    using assms(1,3) by (auto simp: opt_sys_inv_def image_Un)
qed

lemma opt_step_inv:
  assumes "opt_step s t" and inv: "opt_sys_inv s"
  shows "opt_sys_inv t"
  using assms(1)
proof cases
  case (opt_hit i r expected f bid_id now v m d')
  let ?q = "(req_auction r, Some expected, v)"
  obtain a b where b: "next_bid_ok (os_db s) a b" "d' = apply_bid a b (os_db s)"
      "b_auction b = req_auction r" "b_seq b = v" "a_version a = expected"
    using opt_place_bid_InrD run_stmt_InrD [OF opt_hit(4)] by (fastforce simp: opt_try_def)
  have ev: "evolves (os_db s) d'" using b(1,2) by (simp add: evolves_bid)
  have old: "opt_sys_inv (s\<lparr>os_db := d'\<rparr>)"
    by (rule opt_sys_inv_grow [OF inv]) (simp_all add: ev)
  have new: "(req_auction r, v) \<notin> (\<lambda>b. (b_auction b, b_seq b)) ` set (db_bids (os_db s))"
  proof -
    have "bid_violation (os_db s) b = None" using b(1) by (simp add: next_bid_ok_def)
    from bid_violation_NoneD(3) [OF this] b(3,4) show ?thesis by simp
  qed
  have "(x, q) \<noteq> (req_auction r, v)" if "(x, e, q) \<in> set (winners (os_log s))" for x e q
    using inv new that by (fastforce simp: opt_sys_inv_def)
  then have fresh: "(req_auction r, v) \<notin> set (map (\<lambda>(x, e, q). (x, q)) (winners (os_log s)))"
    by auto
  have win: "winners (os_log t) = winners (os_log s) @ [?q]"
    using opt_hit(1,3) by simp
  show ?thesis
    using old fresh b opt_hit(1) unfolding opt_sys_inv_def win by (auto simp: next_bid_ok_def)
next
  case (opt_invalid i r)
  then show ?thesis by (intro opt_sys_inv_grow [OF inv]) simp_all
next
  case (opt_miss i r expected f bid_id now d')
  then show ?thesis using run_stmt_NoRowsD [OF opt_miss(4)] by (intro opt_sys_inv_grow [OF inv]) simp_all
next
  case (opt_error i r expected f bid_id now e d')
  have "evolves (os_db s) d'"
    using run_stmt_InlD [OF opt_error(4)] opt_place_bid_InrD evolves_bid by (fastforce simp: opt_try_def)
  then show ?thesis using opt_error(1) by (intro opt_sys_inv_grow [OF inv]) simp_all
next
  case (opt_classified i r expected now f res d')
  then have "d' = os_db s" using optimistic_classify_db by (metis snd_conv)
  then show ?thesis
    using opt_classified winner_of_classified [OF opt_classified(3)]
    by (intro opt_sys_inv_grow [OF inv]) simp_all
next
  case (opt_close x a t')
  then show ?thesis
    by (intro opt_sys_inv_grow [OF inv]) (auto intro!: evolves_one intro: ledger_close)
next
  case (opt_create a)
  then show ?thesis
    by (intro opt_sys_inv_grow [OF inv]) (auto intro!: evolves_one intro: ledger_step.ledger_create)
qed

lemma opt_start_inv: "db_inv d \<Longrightarrow> opt_sys_inv (opt_start d)"
  by (simp add: opt_sys_inv_def opt_start_def)

lemma opt_reachable_inv: "opt_reachable d s \<Longrightarrow> db_inv d \<Longrightarrow> opt_sys_inv s"
  by (induction rule: opt_reachable.induct) (auto intro: opt_step_inv opt_start_inv)

text \<open>
  The steps are the code's: a request whose two statements run with \<open>w\<close> committed between
  them ends as \<open>optimistic_PlaceBid\<close> does in the environment that says so.
\<close>

lemma opt_miss_then_classify:
  assumes "req_expected r = Some expected"
    and "run_stmt f (opt_try r expected bid_id now) d = (Inl NoRows, d')"
  shows "optimistic_classify now2 f2 r expected (w d') =
    optimistic_PlaceBid \<lparr>oe_bid_id = bid_id, oe_now1 = now, oe_fault1 = f, oe_world = w,
      oe_now2 = now2, oe_fault2 = f2\<rparr> r d"
  using assms by (simp add: optimistic_PlaceBid_def opt_try_def)

section \<open>Properties\<close>


definition sample_opt_env :: opt_env where
  "sample_opt_env = \<lparr>oe_bid_id = 9, oe_now1 = 5, oe_fault1 = NoFault, oe_world = (\<lambda>d. d),
     oe_now2 = 6, oe_fault2 = NoFault\<rparr>"


text \<open>
  The four reasons of a missed UPDATE, told apart. With no failed round trip and
  nothing committed in between, the outcome of \<open>PlaceBid\<close> on an existing auction is decided
  by one table over the row: accepted exactly when the version is current, the auction open and
  in time and the amount reaches top plus increment (as integers); a conflict only for a stale
  version; too low only with the version current.
\<close>

theorem optimistic_decision_table:
  assumes inv: "db_inv d" and calm: "opt_calm e r d" and quiet: "oe_world e = (\<lambda>d. d)" "oe_fault2 e = NoFault"
    and now2: "oe_now2 e < a_ends_at a"
    and a: "find_auction d (req_auction r) = Some a" and ver: "req_expected r = Some v"
    and room: "sint (a_highest a) + sint (a_min_inc a) < 2 ^ 63"
  shows "\<exists>res. fst (optimistic_PlaceBid e r d) = Inr res \<and>
    res_outcome res =
      (if a_version a \<noteq> v then Conflict
       else if sint (a_highest a) + sint (a_min_inc a) \<le> sint (req_amount r) then Accepted
       else TooLow)"
proof -
  have chk: "0 \<le> sint (a_highest a)" "0 < sint (a_min_inc a)"
    using schema_check [OF db_invD(1) [OF inv] a] by (auto simp: check_auction_def sless_iff_sint sle_iff_sint)
  have row: "a_status a = ColOpen" "oe_now1 e < a_ends_at a" "oe_fault1 e = NoFault"
    using calm a by (auto simp: opt_calm_def)
  have minimum: "bigint_add (a_highest a) (a_min_inc a) = Some (a_highest a + a_min_inc a)"
    using chk room by (intro bigint_add_Some) auto
  note sum = bigint_add_sint [OF minimum]
  have low: "req_amount r <s min_next_bid (state_of_row a)
      \<longleftrightarrow> \<not> sint (a_highest a) + sint (a_min_inc a) \<le> sint (req_amount r)"
    using sum by (auto simp: min_next_bid_def sless_iff_sint)
  have open': "\<not> is_closed (state_of_row a) (oe_now2 e)"
    using row now2 by (simp add: is_closed_row)
  show ?thesis
  proof (cases "a_version a = v \<and> sint (a_highest a) + sint (a_min_inc a) \<le> sint (req_amount r)")
    case True
    then obtain res s' where p: "optimistic_PlaceBid e r d = (Inr res, s')" "res_outcome res = Accepted"
      using optimistic.place_lands [OF inv _ calm a, of] ver quiet by (auto simp: opt_good_def)
    with True show ?thesis by simp
  next
    case False
    then have miss: "opt_place_bid (req_amount r) (req_user r) (req_auction r) v (oe_bid_id e)
        (req_key r) (oe_now1 e) d = Inl NoRows"
      using a row minimum sum by (auto simp: opt_place_bid_def sle_iff_sint)
    have "fst (optimistic_PlaceBid e r d)
        = Inr (rejected (classify_outcome (state_of_row a) (oe_now2 e) v (req_amount r)) (state_of_row a))"
      using miss ver row(3) quiet a
      by (simp add: optimistic_PlaceBid_def run_stmt_def optimistic_classify_def opt_classify_def select_state_def)
    with False open' low show ?thesis by (auto simp: classify_outcome_def)
  qed
qed

theorem optimistic_decision_table_witness:
  "\<exists>res. fst (optimistic_PlaceBid sample_opt_env (sample_request 0 99) sample_db) = Inr res \<and>
     res_outcome res = TooLow"
proof -
  have "opt_calm sample_opt_env (sample_request 0 99) sample_db"
    by code_simp
  from optimistic_decision_table [OF sample_inv this, of sample_row 0] show ?thesis
    using sample_find by (simp add: sample_opt_env_def sample_request_def sample_row_def)
qed

text \<open>
  Claim C28. At most one winner per version: in every interleaving of any number of
  requests, closings and creations, no two accepted requests quoted the same version of the
  same auction, and none got the same sequence number.
\<close>

theorem optimistic_one_winner_per_version:
  assumes "opt_reachable d s" and "db_inv d"
  shows "distinct (map (\<lambda>(x, e, q). (x, e)) (winners (os_log s)))
    \<and> distinct (map (\<lambda>(x, e, q). (x, q)) (winners (os_log s)))"
proof -
  have inv: "opt_sys_inv s" using opt_reachable_inv [OF assms] .
  have seq: "\<exists>v. e = Some v \<and> sint q = sint v + 1" if "(x, e, q) \<in> set (winners (os_log s))" for x e q
    using inv that unfolding opt_sys_inv_def by blast
  have one: "q = q'" if "(x, e, q) \<in> set (winners (os_log s))" "(x, e, q') \<in> set (winners (os_log s))"
    for x e q q'
    using seq [OF that(1)] seq [OF that(2)] by (auto intro: i64_eqI)
  have "inj_on (\<lambda>(x, e, q). (x, e)) (set (winners (os_log s)))"
    using one by (auto simp: inj_on_def)
  then show ?thesis
    using inv by (auto simp: opt_sys_inv_def distinct_map)
qed

theorem optimistic_one_winner_per_version_witness:
  "\<exists>s. opt_reachable sample_db s \<and> length (winners (os_log s)) = 1 \<and>
     distinct (map (\<lambda>(x, e, q). (x, e)) (winners (os_log s)))"
proof -
  let ?r = "sample_request 0 100"
  have "fst (run_stmt NoFault (opt_try ?r 0 9 5) sample_db) = Inr (1, 100)"
    by code_simp
  then obtain d' where hit: "run_stmt NoFault (opt_try ?r 0 9 5) sample_db = (Inr (1, 100), d')"
    by (metis prod.collapse)
  let ?t = "(opt_start sample_db)\<lparr>os_db := d',
      os_log := os_log (opt_start sample_db) @ [(?r, Inr (accepted_result 1 9 (req_amount ?r) 100))]\<rparr>"
  have "opt_step (opt_start sample_db) ?t"
    using hit by (intro opt_hit [where i = 0 and r = ?r and expected = 0])
      (simp_all add: opt_start_def sample_request_def)
  then have r: "opt_reachable sample_db ?t" by (intro opt_next [OF opt_init])
  have "length (winners (os_log ?t)) = 1"
    by (simp add: opt_start_def winners_def)
  with r optimistic_one_winner_per_version [OF r sample_inv] show ?thesis by blast
qed

end
