(* ===== verification/Pessimistic.thy ===== *)
theory Pessimistic
  imports Optimistic
begin

text \<open>
  The pessimistic engine, \<^verbatim>\<open>internal/bid/pessimistic\<close>: the locked read (\<open>pess_lock\<close>), the
  decision in Go over the locked row (\<open>pess_decide\<close>), the unguarded write with its commit
  (\<open>pess_finish\<close>), and \<open>pessimistic_PlaceBid\<close>, which composes them inside one transaction.
  The engine's state is the database and the number of samples \<^verbatim>\<open>lockWait\<close> was fed.

  \<open>pess_step\<close> runs any number of transactions against a lock table: nothing guards the write
  but the lock, and the invariant shows that the lock is enough. Rows an open transaction wrote
  are invisible to the others until it commits, so write and commit are one step of it.
\<close>

section \<open>The two statements (sql.go)\<close>

definition lock_auction :: "uuid \<Rightarrow> time \<Rightarrow> (auction_state \<times> time) stmt" where
  "lock_auction auction now = select_state auction now"

text \<open>No version, no status, no end in the WHERE: only the id.\<close>

definition pess_place_bid :: "i64 \<Rightarrow> uuid \<Rightarrow> uuid \<Rightarrow> uuid \<Rightarrow> string \<Rightarrow> time \<Rightarrow> i64 stmt" where
  "pess_place_bid amount user auction bid_id key now d =
     (case find_auction d auction of
        None \<Rightarrow> Inl NoRows
      | Some a \<Rightarrow>
          (case bigint_add (a_version a) 1 of
             None \<Rightarrow> Inl OutOfRange
           | Some v \<Rightarrow>
               (case update_auction (raised a amount user v) d of
                  Inl e \<Rightarrow> Inl e
                | Inr d1 \<Rightarrow>
                    (case insert_bid \<lparr>b_id = bid_id, b_auction = auction, b_user = user,
                             b_amount = amount, b_seq = v, b_key = nullif_empty key,
                             b_created_at = now\<rparr> d1 of
                       Inl e \<Rightarrow> Inl e
                     | Inr d2 \<Rightarrow> Inr (v, d2)))))"

section \<open>The engine (pessimistic.go)\<close>

text \<open>
  \<open>pe_tx_now\<close> is \<^verbatim>\<open>now()\<close> of the transaction, which stamps \<^verbatim>\<open>created_at\<close> by its DEFAULT;
  \<open>pe_lock_now\<close> is the \<^verbatim>\<open>clock_timestamp()\<close> of the locked read.
\<close>

record pess_env =
  pe_fault_begin :: fault
  pe_tx_now :: time
  pe_fault_lock :: fault
  pe_lock_now :: time
  pe_bid_id :: uuid
  pe_fault_write :: fault
  pe_fault_commit :: fault

record pess_state =
  ps_db :: db
  ps_lock_wait :: nat

text \<open>
  \<^verbatim>\<open>lock\<close>: a failed read is not a sample of the histogram, a read that found no row is.
\<close>

definition pess_lock ::
  "fault \<Rightarrow> time \<Rightarrow> uuid \<Rightarrow> pess_state \<Rightarrow> (go_error + auction_state \<times> time) \<times> pess_state" where
  "pess_lock f now auction s =
     (case fst (run_stmt f (lock_auction auction now) (ps_db s)) of
        Inl e \<Rightarrow>
          if e \<noteq> NoRows then (Inl (Wrap ''lock auction'' (DbError e)), s)
          else (Inl (DbError e), s\<lparr>ps_lock_wait := ps_lock_wait s + 1\<rparr>)
      | Inr (st, dbNow) \<Rightarrow> (Inr (st, dbNow), s\<lparr>ps_lock_wait := ps_lock_wait s + 1\<rparr>))"

text \<open>The rejections decided over the locked row, in order; \<open>None\<close> is the accept.\<close>

definition pess_decide :: "auction_state \<Rightarrow> time \<Rightarrow> i64 \<Rightarrow> outcome option" where
  "pess_decide st dbNow amount =
     (if is_closed st dbNow then Some Closed
      else if amount <s min_next_bid st then Some TooLow
      else None)"

text \<open>
  The write and the commit. An error before the commit rolls back; a commit whose answer was
  lost has still happened.
\<close>

definition pess_finish ::
  "fault \<Rightarrow> fault \<Rightarrow> uuid \<Rightarrow> time \<Rightarrow> bid_request \<Rightarrow> auction_state \<Rightarrow> db \<Rightarrow> response \<times> db" where
  "pess_finish f_write f_commit bid_id tx_now req st d =
     (case run_stmt f_write (pess_place_bid (req_amount req) (req_user req) (req_auction req)
              bid_id (req_key req) tx_now) d of
        (Inl e, _) \<Rightarrow> (Inl (Wrap ''place bid'' (DbError e)), d)
      | (Inr version, d') \<Rightarrow>
          (case f_commit of
             FaultBefore \<Rightarrow> (Inl (Wrap ''commit bid'' (DbError ConnectionError)), d)
           | FaultAfter \<Rightarrow> (Inl (Wrap ''commit bid'' (DbError ConnectionError)), d')
           | NoFault \<Rightarrow> (Inr (accepted_result version bid_id (req_amount req) (st_min_inc st)), d')))"

definition pessimistic_PlaceBid :: "pess_env \<Rightarrow> bid_request \<Rightarrow> pess_state \<Rightarrow> response \<times> pess_state" where
  "pessimistic_PlaceBid env req s =
     (if pe_fault_begin env \<noteq> NoFault then (Inl (Wrap ''begin bid'' (DbError ConnectionError)), s)
      else (case pess_lock (pe_fault_lock env) (pe_lock_now env) (req_auction req) s of
              (Inl err, s1) \<Rightarrow>
                if errors_is_no_rows err then (Inr (bare_result NotFound), s1) else (Inl err, s1)
            | (Inr (st, dbNow), s1) \<Rightarrow>
                (case pess_decide st dbNow (req_amount req) of
                   Some oc \<Rightarrow> (Inr (rejected oc st), s1)
                 | None \<Rightarrow>
                     (let (res, d') = pess_finish (pe_fault_write env) (pe_fault_commit env)
                            (pe_bid_id env) (pe_tx_now env) req st (ps_db s1)
                      in (res, s1\<lparr>ps_db := d'\<rparr>)))))"

section \<open>The statements, case by case\<close>

lemma pess_lock_cases:
  assumes "pess_lock f now x s = (res, s')"
  obtains (missing) "find_auction (ps_db s) x = None" "res = Inl (DbError NoRows)" "ps_db s' = ps_db s"
      "ps_lock_wait s' = ps_lock_wait s + 1"
  | (found) a where "find_auction (ps_db s) x = Some a" "res = Inr (state_of_row a, now)" "f = NoFault"
      "ps_db s' = ps_db s" "ps_lock_wait s' = ps_lock_wait s + 1"
  | (failed) "res = Inl (Wrap ''lock auction'' (DbError ConnectionError))" "s' = s"
  using assms
  by (cases f; cases "find_auction (ps_db s) x")
    (auto simp: pess_lock_def lock_auction_def run_select_state)

lemma pess_place_bid_InrD:
  assumes "pess_place_bid amount user auction bid_id key now d = Inr (v, d')"
  shows "\<exists>a. find_auction d auction = Some a \<and> sint v = sint (a_version a) + 1 \<and>
    bid_violation d \<lparr>b_id = bid_id, b_auction = auction, b_user = user, b_amount = amount,
      b_seq = v, b_key = nullif_empty key, b_created_at = now\<rparr> = None \<and>
    d' = apply_bid a \<lparr>b_id = bid_id, b_auction = auction, b_user = user, b_amount = amount,
      b_seq = v, b_key = nullif_empty key, b_created_at = now\<rparr> d"
proof -
  obtain a d1 where a: "find_auction d auction = Some a" and v: "bigint_add (a_version a) 1 = Some v"
    and d1: "update_auction (raised a amount user v) d = Inr d1"
    and ins: "insert_bid \<lparr>b_id = bid_id, b_auction = auction, b_user = user, b_amount = amount,
      b_seq = v, b_key = nullif_empty key, b_created_at = now\<rparr> d1 = Inr d'" (is "insert_bid ?b d1 = _")
    using assms by (auto simp: pess_place_bid_def split: option.splits if_splits sum.splits)
  have d1': "d1 = set_auction (raised a amount user v) d"
    using d1 by (auto simp: update_auction_def split: if_splits)
  have "bid_violation d ?b = None"
    using insert_bid_InrD(2) [OF ins] by (simp add: d1')
  moreover have "d' = apply_bid a ?b d"
    using insert_bid_InrD(1) [OF ins] by (simp add: d1' apply_bid_def)
  ultimately show ?thesis using a bigint_add_sint [OF v] by simp
qed

lemma pess_place_bid_lands:
  assumes inv: "schema_ok d" and a: "find_auction d (b_auction b) = Some a"
    and seq: "sint (b_seq b) = sint (a_version a) + 1"
    and viol: "bid_violation d b = None" and key: "b_key b = nullif_empty key"
  shows "pess_place_bid (b_amount b) (b_user b) (b_auction b) (b_id b) key (b_created_at b) d
    = Inr (b_seq b, apply_bid a b d)"
proof -
  have chk: "check_auction a" using schema_check [OF inv a] .
  have "bigint_add (a_version a) 1 = Some (a_version a + 1)"
    using seq sint_range [of "b_seq b"] sint_range [of "a_version a"] by (intro bigint_add_Some) auto
  moreover have "a_version a + 1 = b_seq b"
    using bigint_add_sint [OF calculation] seq by (simp add: i64_eqI)
  moreover have "update_auction (raised a (b_amount b) (b_user b) (b_seq b)) d
      = Inr (set_auction (raised a (b_amount b) (b_user b) (b_seq b)) d)"
    using check_auction_raised [OF chk bid_violation_NoneD(1) [OF viol]] by (simp add: update_auction_def)
  moreover have "\<lparr>b_id = b_id b, b_auction = b_auction b, b_user = b_user b, b_amount = b_amount b,
      b_seq = b_seq b, b_key = nullif_empty key, b_created_at = b_created_at b\<rparr> = b"
    using key by simp
  ultimately show ?thesis
    using a apply_bid_is_insert [OF viol] by (simp add: pess_place_bid_def)
qed

lemma pess_finish_cases:
  assumes "pess_finish fw fc bid_id tx_now req st d = (res, d')"
  obtains (written) v a where "find_auction d (req_auction req) = Some a"
      "sint v = sint (a_version a) + 1"
      "bid_violation d \<lparr>b_id = bid_id, b_auction = req_auction req, b_user = req_user req,
         b_amount = req_amount req, b_seq = v, b_key = nullif_empty (req_key req), b_created_at = tx_now\<rparr> = None"
      "d' = apply_bid a \<lparr>b_id = bid_id, b_auction = req_auction req, b_user = req_user req,
         b_amount = req_amount req, b_seq = v, b_key = nullif_empty (req_key req), b_created_at = tx_now\<rparr> d"
      "res = Inr (accepted_result v bid_id (req_amount req) (st_min_inc st)) \<or> isl res"
  | (failed) "isl res" "d' = d"
proof -
  let ?s = "pess_place_bid (req_amount req) (req_user req) (req_auction req) bid_id (req_key req) tx_now"
  show ?thesis
  proof (cases "run_stmt fw ?s d")
    case (Pair out d1)
    show ?thesis
    proof (cases out)
      case (Inl e)
      with Pair assms show ?thesis by (intro failed) (auto simp: pess_finish_def)
    next
      case (Inr v)
      with Pair have "?s d = Inr (v, d1)" by (auto dest: run_stmt_InrD)
      from pess_place_bid_InrD [OF this] Pair Inr assms show ?thesis
        by (cases fc) (auto simp: pess_finish_def intro: written failed)
    qed
  qed
qed

section \<open>The contract\<close>

text \<open>
  Go's \<^verbatim>\<open>MinNextBid\<close> wraps, and here nothing else guards the amount. The contract holds while
  prices and increments stay below \<open>money_cap\<close>, where the sum cannot wrap; what happens above
  is the subject of \<open>pessimistic_overflow_sells_for_anything\<close> below.
\<close>

definition pess_ok :: "pess_state \<Rightarrow> bool" where
  "pess_ok s \<longleftrightarrow> db_inv (ps_db s) \<and> capped (ps_db s)"

definition pess_good :: "pess_env \<Rightarrow> bid_request \<Rightarrow> pess_state \<Rightarrow> bool" where
  "pess_good e r s \<longleftrightarrow> pe_tx_now e \<le> pe_lock_now e \<and> sint (req_amount r) \<le> money_cap"

definition pess_calm :: "pess_env \<Rightarrow> bid_request \<Rightarrow> pess_state \<Rightarrow> bool" where
  "pess_calm e r s \<longleftrightarrow>
     pe_fault_begin e = NoFault \<and> pe_fault_lock e = NoFault \<and> pe_fault_write e = NoFault \<and>
     pe_fault_commit e = NoFault \<and> 0 <s req_amount r \<and>
     pe_bid_id e \<notin> set (map b_id (db_bids (ps_db s))) \<and>
     \<not> key_taken (ps_db s) (nullif_empty (req_key r)) \<and>
     (case find_auction (ps_db s) (req_auction r) of
        None \<Rightarrow> True
      | Some a \<Rightarrow> a_status a = ColOpen \<and> pe_lock_now e < a_ends_at a \<and> sint (a_version a) < 2 ^ 63 - 1)"

text \<open>Passing the decision over the locked row is what the ledger asks of the next bid.\<close>

lemma pess_decide_None:
  assumes "schema_ok d" and "capped d" and a: "find_auction d x = Some a"
  shows "pess_decide (state_of_row a) t amount = None \<longleftrightarrow>
    a_status a = ColOpen \<and> t < a_ends_at a \<and> sint (a_highest a) + sint (a_min_inc a) \<le> sint amount"
  using sint_min_next_capped [OF assms]
  by (cases "a_status a") (auto simp: pess_decide_def is_closed_row sless_iff_sint)

lemma pess_decide_Some: "pess_decide st t amount = Some oc \<Longrightarrow> oc = Closed \<or> oc = TooLow"
  by (auto simp: pess_decide_def split: if_splits)

lemma pess_finish_next_bid:
  assumes inv: "db_inv d" and cap: "capped d" and a: "find_auction d (req_auction req) = Some a"
    and dec: "pess_decide (state_of_row a) t (req_amount req) = None" and clock: "tx_now \<le> t"
    and v: "sint v = sint (a_version a) + 1"
    and viol: "bid_violation d \<lparr>b_id = bid_id, b_auction = req_auction req, b_user = req_user req,
         b_amount = req_amount req, b_seq = v, b_key = nullif_empty (req_key req), b_created_at = tx_now\<rparr> = None"
  shows "next_bid_ok d a \<lparr>b_id = bid_id, b_auction = req_auction req, b_user = req_user req,
         b_amount = req_amount req, b_seq = v, b_key = nullif_empty (req_key req), b_created_at = tx_now\<rparr>"
  using pess_decide_None [OF db_invD(1) [OF inv] cap a, of t] dec a v viol clock
  by (auto simp: next_bid_ok_def)

text \<open>The shapes a call can end in, once the environment is good.\<close>

lemma pessimistic_PlaceBid_cases:
  assumes ok: "pess_ok s" and good: "pess_good e r s" and p: "pessimistic_PlaceBid e r s = (res, s')"
  obtains (error) err where "res = Inl err" "ps_db s' = ps_db s"
  | (missing) "res = Inr (bare_result NotFound)" "ps_db s' = ps_db s"
      "find_auction (ps_db s) (req_auction r) = None"
  | (refused) a oc where "find_auction (ps_db s) (req_auction r) = Some a"
      "pess_decide (state_of_row a) (pe_lock_now e) (req_amount r) = Some oc"
      "res = Inr (rejected oc (state_of_row a))" "ps_db s' = ps_db s"
  | (written) a b where "next_bid_ok (ps_db s) a b" "ps_db s' = apply_bid a b (ps_db s)"
      "b_auction b = req_auction r" "b_user b = req_user r" "b_amount b = req_amount r"
      "b_key b = nullif_empty (req_key r)" "b_id b = pe_bid_id e"
      "res = Inr (accepted_result (b_seq b) (pe_bid_id e) (req_amount r) (a_min_inc a)) \<or> isl res"
proof (cases "pe_fault_begin e = NoFault")
  case False
  with p show ?thesis by (intro error) (auto simp: pessimistic_PlaceBid_def)
next
  case begun: True
  obtain lres s1 where lock: "pess_lock (pe_fault_lock e) (pe_lock_now e) (req_auction r) s = (lres, s1)"
    by fastforce
  from lock show ?thesis
  proof (cases rule: pess_lock_cases)
    case missing
    with p begun lock show ?thesis by (intro that(2)) (auto simp: pessimistic_PlaceBid_def)
  next
    case failed
    with p begun lock show ?thesis by (intro that(1)) (auto simp: pessimistic_PlaceBid_def)
  next
    case (found a)
    show ?thesis
    proof (cases "pess_decide (state_of_row a) (pe_lock_now e) (req_amount r)")
      case (Some oc)
      with p begun lock found show ?thesis
        by (intro that(3) [of a oc]) (auto simp: pessimistic_PlaceBid_def)
    next
      case None
      obtain d' where fin: "pess_finish (pe_fault_write e) (pe_fault_commit e) (pe_bid_id e) (pe_tx_now e)
          r (state_of_row a) (ps_db s) = (res, d')" and d': "ps_db s' = d'"
        using p begun lock found None by (auto simp: pessimistic_PlaceBid_def split: prod.splits)
      from fin show ?thesis
      proof (cases rule: pess_finish_cases)
        case failed
        with d' show ?thesis by (cases res) (auto intro: that(1))
      next
        case (written v a')
        have "a' = a" using written(1) found(1) by simp
        with written have "next_bid_ok (ps_db s) a \<lparr>b_id = pe_bid_id e, b_auction = req_auction r,
            b_user = req_user r, b_amount = req_amount r, b_seq = v,
            b_key = nullif_empty (req_key r), b_created_at = pe_tx_now e\<rparr>"
          using pess_finish_next_bid [OF _ _ found(1) None, of "pe_tx_now e" v] ok good
          by (auto simp: pess_ok_def pess_good_def)
        from that(4) [OF this] written \<open>a' = a\<close> d' show ?thesis by auto
      qed
    qed
  qed
qed

lemma pessimistic_evolves:
  assumes "pess_ok s" and "pess_good e r s"
  shows "evolves (ps_db s) (ps_db (snd (pessimistic_PlaceBid e r s)))"
    and "pess_ok (snd (pessimistic_PlaceBid e r s))"
proof -
  obtain res s' where p: "pessimistic_PlaceBid e r s = (res, s')" by fastforce
  from assms p have "evolves (ps_db s) (ps_db s') \<and> pess_ok s'"
  proof (cases rule: pessimistic_PlaceBid_cases)
    case (written a b)
    have "capped (ps_db s')"
      using capped_apply_bid [of "ps_db s" "b_auction b" a b] written assms
      by (auto simp: next_bid_ok_def pess_ok_def pess_good_def)
    with written assms show ?thesis
      using db_inv_bid evolves_bid by (auto simp: pess_ok_def)
  qed (use assms in \<open>auto simp: pess_ok_def\<close>)
  with p show "evolves (ps_db s) (ps_db (snd (pessimistic_PlaceBid e r s)))"
    "pess_ok (snd (pessimistic_PlaceBid e r s))" by simp_all
qed

text \<open>What an answer can be, whatever the environment: the engine knows four outcomes.\<close>

lemma pessimistic_outcomes:
  assumes "pessimistic_PlaceBid e r s = (Inr res, s')"
  shows "res_outcome res \<in> {Accepted, TooLow, Closed, NotFound} \<and>
    (res_outcome res = NotFound \<longrightarrow> res_current res = zero_state)"
  using assms
  by (auto simp: pessimistic_PlaceBid_def pess_decide_def pess_finish_def
      split: if_splits prod.splits sum.splits option.splits fault.splits)

text \<open>With nothing failing, the call is the decision and the write.\<close>

lemma pess_quiet:
  assumes "pe_fault_begin e = NoFault" "pe_fault_lock e = NoFault"
    and a: "find_auction (ps_db s) (req_auction r) = Some a"
  shows "pessimistic_PlaceBid e r s =
    (case pess_decide (state_of_row a) (pe_lock_now e) (req_amount r) of
       Some oc \<Rightarrow> (Inr (rejected oc (state_of_row a)), s\<lparr>ps_lock_wait := ps_lock_wait s + 1\<rparr>)
     | None \<Rightarrow>
         (let (res, d') = pess_finish (pe_fault_write e) (pe_fault_commit e) (pe_bid_id e)
                (pe_tx_now e) r (state_of_row a) (ps_db s)
          in (res, s\<lparr>ps_lock_wait := ps_lock_wait s + 1, ps_db := d'\<rparr>)))"
proof -
  have "pess_lock NoFault (pe_lock_now e) (req_auction r) s
      = (Inr (state_of_row a, pe_lock_now e), s\<lparr>ps_lock_wait := ps_lock_wait s + 1\<rparr>)"
    using a by (simp add: pess_lock_def lock_auction_def run_select_state)
  with assms show ?thesis by (simp add: pessimistic_PlaceBid_def split: option.splits)
qed

lemma pess_write_lands:
  assumes inv: "db_inv (ps_db s)" and a: "find_auction (ps_db s) (req_auction r) = Some a"
    and calm: "pess_calm e r s"
  shows "pess_finish NoFault NoFault (pe_bid_id e) (pe_tx_now e) r (state_of_row a) (ps_db s)
      = (Inr (accepted_result (a_version a + 1) (pe_bid_id e) (req_amount r) (a_min_inc a)),
         apply_bid a \<lparr>b_id = pe_bid_id e, b_auction = req_auction r, b_user = req_user r,
           b_amount = req_amount r, b_seq = a_version a + 1, b_key = nullif_empty (req_key r),
           b_created_at = pe_tx_now e\<rparr> (ps_db s))" (is "_ = (_, apply_bid a ?b _)")
proof -
  have seq: "sint (a_version a + 1) = sint (a_version a) + 1"
    using calm a sint_range [of "a_version a"]
    by (subst sint_add_in_range) (auto simp: pess_calm_def)
  have "bid_violation (ps_db s) ?b = None"
    using calm a next_seq_is_free [OF inv a seq] by (auto simp: pess_calm_def bid_violation_def)
  from pess_place_bid_lands [OF db_invD(1) [OF inv] _ _ this, of a "req_key r"] a seq
  have "pess_place_bid (req_amount r) (req_user r) (req_auction r) (pe_bid_id e) (req_key r)
      (pe_tx_now e) (ps_db s) = Inr (a_version a + 1, apply_bid a ?b (ps_db s))"
    by simp
  then show ?thesis by (simp add: pess_finish_def run_stmt_NoFault_Inr)
qed

interpretation pessimistic: responsive_engine pessimistic_PlaceBid ps_db pess_ok pess_good
  "\<lambda>e d. d" pess_calm
proof unfold_locales
  fix s assume "pess_ok s"
  then show "db_inv (ps_db s)" by (simp add: pess_ok_def)
next
  fix s e r assume "pess_ok s" "pess_good e r s"
  then show "pess_ok (snd (pessimistic_PlaceBid e r s))"
    "evolves (ps_db s) (ps_db (snd (pessimistic_PlaceBid e r s)))"
    by (rule pessimistic_evolves)+
next
  fix e r s res s' assume p: "pessimistic_PlaceBid e r s = (Inr res, s')"
  from pessimistic_outcomes [OF p] show "named_outcome (res_outcome res)"
    by (auto simp: named_outcome_def)
  assume "res_outcome res \<in> {NotFound, Invalid}"
  with pessimistic_outcomes [OF p] show "res_current res = zero_state" by auto
next
  fix s e r res s'
  assume env: "pess_ok s" "pess_good e r s" and p: "pessimistic_PlaceBid e r s = (Inr res, s')"
    and acc: "res_outcome res = Accepted"
  from env p show "\<exists>a b. next_bid_ok (ps_db s) a b \<and> ps_db s' = apply_bid a b (ps_db s) \<and>
        b_auction b = req_auction r \<and> b_user b = req_user r \<and> b_amount b = req_amount r \<and>
        b_key b = nullif_empty (req_key r) \<and> b_id b = res_bid_id res \<and> b_seq b = res_seq res \<and>
        st_version (res_current res) = res_seq res \<and> st_highest (res_current res) = req_amount r \<and>
        st_min_inc (res_current res) = a_min_inc a"
  proof (cases rule: pessimistic_PlaceBid_cases)
    case (written a b)
    then show ?thesis by (intro exI [of _ a] exI [of _ b]) auto
  next
    case (refused a oc)
    then show ?thesis using acc by (auto dest: pess_decide_Some)
  qed (use acc in auto)
next
  fix s e r res s'
  assume env: "pess_ok s" "pess_good e r s" and p: "pessimistic_PlaceBid e r s = (Inr res, s')"
    and rej: "res_outcome res \<noteq> Accepted"
  from env p show "ps_db s' = ps_db s \<or> ps_db s' = ps_db s"
    by (cases rule: pessimistic_PlaceBid_cases) (use rej in auto)
next
  fix s e r res s'
  assume env: "pess_ok s" "pess_good e r s" and p: "pessimistic_PlaceBid e r s = (Inr res, s')"
    and rej: "res_outcome res \<in> {Conflict, TooLow, Closed}"
  from env p show "\<exists>a. find_auction (ps_db s') (req_auction r) = Some a \<and>
        st_version (res_current res) = a_version a \<and> st_highest (res_current res) = a_highest a \<and>
        st_min_inc (res_current res) = a_min_inc a"
    by (cases rule: pessimistic_PlaceBid_cases) (use rej in auto)
next
  fix s e r a
  assume ok: "pess_ok s" and good: "pess_good e r s" and calm: "pess_calm e r s"
    and a: "find_auction (ps_db s) (req_auction r) = Some a"
    and inc: "sint (a_highest a) + sint (a_min_inc a) \<le> sint (req_amount r)"
  have inv: "db_inv (ps_db s)" and cap: "capped (ps_db s)" using ok by (simp_all add: pess_ok_def)
  have dec: "pess_decide (state_of_row a) (pe_lock_now e) (req_amount r) = None"
    using pess_decide_None [OF db_invD(1) [OF inv] cap a] calm a inc by (simp add: pess_calm_def)
  have "pe_fault_begin e = NoFault" "pe_fault_lock e = NoFault" "pe_fault_write e = NoFault"
    "pe_fault_commit e = NoFault" using calm by (simp_all add: pess_calm_def)
  then show "\<exists>res s'. pessimistic_PlaceBid e r s = (Inr res, s') \<and> res_outcome res = Accepted"
    using pess_quiet [OF _ _ a] dec pess_write_lands [OF inv a calm] by simp
qed

section \<open>Transactions against the row lock\<close>

text \<open>
  Any number of transactions at the grain of their statements. A transaction is waiting for its
  row with the \<^verbatim>\<open>now()\<close> of its begin, or holds it with the state it read; the row is free when
  no transaction holds it, and the locked read, like the UPDATE of the materialiser, waits until
  it is. The clock is the database's and never goes back.
\<close>

datatype pess_pc = Idle | Waiting bid_request time | Holding bid_request auction_state time

record pess_sys =
  py_state :: pess_state
  py_pc :: "nat \<Rightarrow> pess_pc"
  py_clock :: time
  py_log :: "(bid_request \<times> response) list"

definition pess_start :: "pess_state \<Rightarrow> time \<Rightarrow> pess_sys" where
  "pess_start s t = \<lparr>py_state = s, py_pc = (\<lambda>_. Idle), py_clock = t, py_log = []\<rparr>"

fun holds :: "pess_pc \<Rightarrow> uuid \<Rightarrow> bool" where
  "holds (Holding r st t) x = (req_auction r = x)"
| "holds _ x = False"

definition lock_free :: "pess_sys \<Rightarrow> uuid \<Rightarrow> bool" where
  "lock_free s x \<longleftrightarrow> (\<forall>i. \<not> holds (py_pc s i) x)"

definition pess_answer :: "go_error \<Rightarrow> response" where
  "pess_answer err = (if errors_is_no_rows err then Inr (bare_result NotFound) else Inl err)"

inductive pess_step :: "pess_sys \<Rightarrow> pess_sys \<Rightarrow> bool" where
  pess_begin: "py_pc s i = Idle \<Longrightarrow> sint (req_amount r) \<le> money_cap \<Longrightarrow>
    pess_step s (s\<lparr>py_pc := (py_pc s)(i := Waiting r (py_clock s))\<rparr>)"
| pess_unread: "py_pc s i = Waiting r t \<Longrightarrow> lock_free s (req_auction r) \<Longrightarrow>
    pess_lock f (py_clock s) (req_auction r) (py_state s) = (Inl err, st') \<Longrightarrow>
    pess_step s (s\<lparr>py_state := st', py_pc := (py_pc s)(i := Idle),
      py_log := py_log s @ [(r, pess_answer err)]\<rparr>)"
| pess_refuse: "py_pc s i = Waiting r t \<Longrightarrow> lock_free s (req_auction r) \<Longrightarrow>
    pess_lock f (py_clock s) (req_auction r) (py_state s) = (Inr (st, dbNow), st') \<Longrightarrow>
    pess_decide st dbNow (req_amount r) = Some oc \<Longrightarrow>
    pess_step s (s\<lparr>py_state := st', py_pc := (py_pc s)(i := Idle),
      py_log := py_log s @ [(r, Inr (rejected oc st))]\<rparr>)"
| pess_grant: "py_pc s i = Waiting r t \<Longrightarrow> lock_free s (req_auction r) \<Longrightarrow>
    pess_lock f (py_clock s) (req_auction r) (py_state s) = (Inr (st, dbNow), st') \<Longrightarrow>
    pess_decide st dbNow (req_amount r) = None \<Longrightarrow>
    pess_step s (s\<lparr>py_state := st', py_pc := (py_pc s)(i := Holding r st t)\<rparr>)"
| pess_commit: "py_pc s i = Holding r st t \<Longrightarrow>
    pess_finish f_write f_commit bid_id t r st (ps_db (py_state s)) = (res, d') \<Longrightarrow>
    pess_step s (s\<lparr>py_state := (py_state s)\<lparr>ps_db := d'\<rparr>, py_pc := (py_pc s)(i := Idle),
      py_log := py_log s @ [(r, res)]\<rparr>)"
| pess_close: "find_auction (ps_db (py_state s)) x = Some a \<Longrightarrow> a_status a = ColOpen \<Longrightarrow>
    a_ends_at a \<le> py_clock s \<Longrightarrow> lock_free s x \<Longrightarrow>
    pess_step s (s\<lparr>py_state := (py_state s)\<lparr>ps_db :=
      set_auction (closed_row a (py_clock s)) (ps_db (py_state s))\<rparr>\<rparr>)"
| pess_create: "fresh_row (ps_db (py_state s)) a \<Longrightarrow> sint (a_highest a) \<le> money_cap \<Longrightarrow>
    sint (a_min_inc a) < money_cap \<Longrightarrow>
    pess_step s (s\<lparr>py_state := (py_state s)\<lparr>ps_db := add_auction a (ps_db (py_state s))\<rparr>\<rparr>)"
| pess_tick: "0 \<le> dt \<Longrightarrow> pess_step s (s\<lparr>py_clock := py_clock s + dt\<rparr>)"

inductive pess_reachable :: "pess_state \<Rightarrow> time \<Rightarrow> pess_sys \<Rightarrow> bool" where
  pess_init: "pess_reachable s0 t0 (pess_start s0 t0)"
| pess_next: "pess_reachable s0 t0 s \<Longrightarrow> pess_step s t \<Longrightarrow> pess_reachable s0 t0 t"

text \<open>
  What a transaction knows at each point: a waiting one began in the past; a holding one holds a
  row that is still what it read and that it decided to accept on.
\<close>

fun pc_ok :: "db \<Rightarrow> time \<Rightarrow> pess_pc \<Rightarrow> bool" where
  "pc_ok d now Idle = True"
| "pc_ok d now (Waiting r t) = (t \<le> now \<and> sint (req_amount r) \<le> money_cap)"
| "pc_ok d now (Holding r st t) =
     (sint (req_amount r) \<le> money_cap \<and>
      (\<exists>a t'. find_auction d (req_auction r) = Some a \<and> st = state_of_row a \<and> t \<le> t' \<and>
        pess_decide st t' (req_amount r) = None))"

definition excluded :: "pess_sys \<Rightarrow> bool" where
  "excluded s \<longleftrightarrow> (\<forall>i j x. holds (py_pc s i) x \<longrightarrow> holds (py_pc s j) x \<longrightarrow> i = j)"

definition pess_sys_inv :: "db \<Rightarrow> pess_sys \<Rightarrow> bool" where
  "pess_sys_inv d s \<longleftrightarrow>
     pess_ok (py_state s) \<and> evolves d (ps_db (py_state s)) \<and> excluded s \<and>
     (\<forall>i. pc_ok (ps_db (py_state s)) (py_clock s) (py_pc s i)) \<and>
     length (db_bids d) + accepted_count (map snd (py_log s)) \<le> length (db_bids (ps_db (py_state s)))"

text \<open>Only the row a transaction holds matters to what it knows.\<close>

lemma pc_ok_frame:
  assumes "pc_ok d now p" and "\<And>x. holds p x \<Longrightarrow> find_auction d' x = find_auction d x" and "now \<le> now'"
  shows "pc_ok d' now' p"
  using assms by (cases p) auto

lemma pess_lock_db: "pess_lock f now x s = (r, s') \<Longrightarrow> ps_db s' = ps_db s"
  by (erule pess_lock_cases) auto

lemma pess_answer_not_accepted [simp]: "\<not> is_accepted (pess_answer err)"
  by (simp add: pess_answer_def)

text \<open>A step of transaction \<open>i\<close> that leaves the tables alone and does not take a held row.\<close>

lemma pess_sys_inv_local:
  assumes inv: "pess_sys_inv d s" and db: "ps_db st' = ps_db (py_state s)"
    and p: "pc_ok (ps_db (py_state s)) (py_clock s) p" and free: "\<And>x. holds p x \<Longrightarrow> lock_free s x"
    and log: "accepted_count (map snd log) = accepted_count (map snd (py_log s))"
  shows "pess_sys_inv d (s\<lparr>py_state := st', py_pc := (py_pc s)(i := p), py_log := log\<rparr>)"
  using inv p free unfolding pess_sys_inv_def excluded_def lock_free_def pess_ok_def
  by (auto simp: db log)

lemma pess_commit_inv:
  assumes inv: "pess_sys_inv d s" and h: "py_pc s i = Holding r st t"
    and fin: "pess_finish fw fc bid_id t r st (ps_db (py_state s)) = (res, d')"
  shows "pess_sys_inv d (s\<lparr>py_state := (py_state s)\<lparr>ps_db := d'\<rparr>, py_pc := (py_pc s)(i := Idle),
      py_log := py_log s @ [(r, res)]\<rparr>)"
proof -
  let ?d = "ps_db (py_state s)"
  have ok: "db_inv ?d" "capped ?d" and ev: "evolves d ?d" and ex: "excluded s"
    and pcs: "pc_ok ?d (py_clock s) (py_pc s j)"
    and len: "length (db_bids d) + accepted_count (map snd (py_log s)) \<le> length (db_bids ?d)" for j
    using inv by (auto simp: pess_sys_inv_def pess_ok_def)
  obtain a t' where a: "find_auction ?d (req_auction r) = Some a" and st: "st = state_of_row a"
    and t': "t \<le> t'" and dec: "pess_decide st t' (req_amount r) = None"
    and cap: "sint (req_amount r) \<le> money_cap"
    using pcs [of i] h by auto
  have ex': "excluded (s\<lparr>py_state := (py_state s)\<lparr>ps_db := d'\<rparr>, py_pc := (py_pc s)(i := Idle),
      py_log := py_log s @ [(r, res)]\<rparr>)"
    using ex by (auto simp: excluded_def)
  from fin show ?thesis
  proof (cases rule: pess_finish_cases)
    case failed
    then show ?thesis using inv ex' by (cases res) (auto simp: pess_sys_inv_def)
  next
    case (written v a')
    let ?b = "\<lparr>b_id = bid_id, b_auction = req_auction r, b_user = req_user r, b_amount = req_amount r,
      b_seq = v, b_key = nullif_empty (req_key r), b_created_at = t\<rparr>"
    have "a' = a" using written(1) a by simp
    have nb: "next_bid_ok ?d a ?b"
      using pess_finish_next_bid [OF ok a _ t' _ written(3)] dec st written(2) \<open>a' = a\<close> by simp
    have d': "d' = apply_bid a ?b ?d" using written(4) \<open>a' = a\<close> by simp
    have frame: "find_auction d' x = find_auction ?d x" if "holds (py_pc s j) x" "j \<noteq> i" for j x
    proof -
      have "x \<noteq> req_auction r"
        using ex that h unfolding excluded_def by (metis holds.simps(1))
      then show ?thesis using a by (simp add: d' find_apply_bid)
    qed
    have "pc_ok d' (py_clock s) (((py_pc s)(i := Idle)) j)" for j
      using pc_ok_frame [OF pcs [of j] frame [of j]] by auto
    moreover have "pess_ok ((py_state s)\<lparr>ps_db := d'\<rparr>)"
      using db_inv_bid [OF ok(1) nb] capped_apply_bid [OF ok(2) a, of ?b] cap
      by (simp add: pess_ok_def d')
    moreover have "evolves d d'"
      using ev evolves_bid [OF nb] unfolding d' by (rule evolves_trans)
    moreover have "length (db_bids d) + accepted_count (map snd (py_log s @ [(r, res)])) \<le> length (db_bids d')"
      using len by (simp add: d')
    ultimately show ?thesis using ex' by (simp add: pess_sys_inv_def)
  qed
qed

lemma pess_world_inv:
  assumes inv: "pess_sys_inv d s" and step: "ledger_step (ps_db (py_state s)) d'"
    and cap: "capped d'" and same: "db_bids d' = db_bids (ps_db (py_state s))"
    and frame: "\<And>x a. \<not> lock_free s x \<Longrightarrow> find_auction (ps_db (py_state s)) x = Some a \<Longrightarrow> find_auction d' x = Some a"
  shows "pess_sys_inv d (s\<lparr>py_state := (py_state s)\<lparr>ps_db := d'\<rparr>\<rparr>)"
proof -
  have "pc_ok d' (py_clock s) (py_pc s i)" for i
  proof (cases "py_pc s i")
    case (Holding r st t)
    then have "\<not> lock_free s (req_auction r)" by (metis lock_free_def holds.simps(1))
    with inv Holding frame show ?thesis
      unfolding pess_sys_inv_def by (metis pc_ok.simps(3))
  qed (use inv in \<open>force simp: pess_sys_inv_def dest: spec [of _ i]\<close>)+
  moreover have "db_inv d'" "evolves d d'"
    using inv step db_inv_ledger_step evolves_step by (auto simp: pess_sys_inv_def pess_ok_def)
  ultimately show ?thesis
    using inv cap same by (auto simp: pess_sys_inv_def pess_ok_def excluded_def)
qed

lemma pess_step_inv:
  assumes "pess_step s t" and inv: "pess_sys_inv d s"
  shows "pess_sys_inv d t"
  using assms(1)
proof cases
  case (pess_begin i r)
  have "pess_sys_inv d (s\<lparr>py_state := py_state s, py_pc := (py_pc s)(i := Waiting r (py_clock s)),
      py_log := py_log s\<rparr>)"
    using pess_begin by (intro pess_sys_inv_local [OF inv]) auto
  with pess_begin show ?thesis by simp
next
  case (pess_unread i r t0 f err st')
  then show ?thesis by (auto dest!: pess_lock_db intro!: pess_sys_inv_local [OF inv])
next
  case (pess_refuse i r t0 f st dbNow st' oc)
  then show ?thesis
    by (auto dest!: pess_lock_db pess_decide_Some intro!: pess_sys_inv_local [OF inv])
next
  case (pess_grant i r t0 f st dbNow st')
  have w: "t0 \<le> py_clock s" "sint (req_amount r) \<le> money_cap"
    using inv pess_grant(2) unfolding pess_sys_inv_def by (metis pc_ok.simps(2))+
  from pess_grant(4) obtain a where a: "find_auction (ps_db (py_state s)) (req_auction r) = Some a"
      "st = state_of_row a" "dbNow = py_clock s"
    by (cases rule: pess_lock_cases) auto
  have "pess_sys_inv d (s\<lparr>py_state := st', py_pc := (py_pc s)(i := Holding r st t0), py_log := py_log s\<rparr>)"
    using a w pess_grant pess_lock_db [OF pess_grant(4)] by (intro pess_sys_inv_local [OF inv]) auto
  with pess_grant(1) show ?thesis by simp
next
  case (pess_commit i r st t0 fw fc bid_id res d')
  show ?thesis unfolding pess_commit(1) by (rule pess_commit_inv [OF inv pess_commit(2,3)])
next
  case (pess_close x a)
  show ?thesis unfolding pess_close(1)
  proof (rule pess_world_inv [OF inv])
    show "ledger_step (ps_db (py_state s)) (set_auction (closed_row a (py_clock s)) (ps_db (py_state s)))"
      using pess_close(2-4) by (rule ledger_close)
    show "capped (set_auction (closed_row a (py_clock s)) (ps_db (py_state s)))"
      using inv pess_close(2) by (intro capped_close) (auto simp: pess_sys_inv_def pess_ok_def)
  qed (use pess_close in \<open>auto simp: find_closed_row\<close>)
next
  case (pess_create a)
  show ?thesis unfolding pess_create(1)
  proof (rule pess_world_inv [OF inv])
    show "ledger_step (ps_db (py_state s)) (add_auction a (ps_db (py_state s)))"
      using pess_create(2) by (rule ledger_create)
    show "capped (add_auction a (ps_db (py_state s)))"
      using inv pess_create(3,4) by (auto simp: pess_sys_inv_def pess_ok_def capped_def)
  qed (auto simp: row_simps)
next
  case (pess_tick dt)
  have "pc_ok (ps_db (py_state s)) (py_clock s + dt) (py_pc s i)" for i
    using inv pess_tick(2) pc_ok_frame [of "ps_db (py_state s)" "py_clock s" "py_pc s i" "ps_db (py_state s)" "py_clock s + dt"]
    by (simp add: pess_sys_inv_def)
  with inv show ?thesis unfolding pess_tick(1) by (simp add: pess_sys_inv_def excluded_def)
qed

lemma pess_start_inv: "pess_ok s \<Longrightarrow> pess_sys_inv (ps_db s) (pess_start s t)"
  by (simp add: pess_sys_inv_def pess_start_def excluded_def)

lemma pess_reachable_inv: "pess_reachable s0 t0 s \<Longrightarrow> pess_ok s0 \<Longrightarrow> pess_sys_inv (ps_db s0) s"
  by (induction rule: pess_reachable.induct) (auto intro: pess_step_inv pess_start_inv)

section \<open>Properties\<close>


definition sample_pess :: pess_state where
  "sample_pess = \<lparr>ps_db = sample_db, ps_lock_wait = 0\<rparr>"

lemma sample_pess_ok: "pess_ok sample_pess"
  using sample_inv
  by (simp add: pess_ok_def sample_pess_def capped_def sample_db_def sample_row_def money_cap_def)


text \<open>
  The client's version plays no part: whatever \<open>ExpectedVersion\<close> says, present
  or absent, the answer and the resulting state are the same, and the answer is never
  \<open>Conflict\<close> nor \<open>Invalid\<close>.
\<close>

theorem pessimistic_ignores_expected_version:
  "pessimistic_PlaceBid e (r\<lparr>req_expected := v\<rparr>) s = pessimistic_PlaceBid e r s \<and>
   (case fst (pessimistic_PlaceBid e r s) of
      Inl err \<Rightarrow> True
    | Inr res \<Rightarrow> res_outcome res \<in> {Accepted, TooLow, Closed, NotFound})"
proof
  show "pessimistic_PlaceBid e (r\<lparr>req_expected := v\<rparr>) s = pessimistic_PlaceBid e r s"
    by (auto simp: pessimistic_PlaceBid_def pess_finish_def
        split: sum.splits prod.splits option.splits fault.splits)
  obtain res s' where p: "pessimistic_PlaceBid e r s = (res, s')" by fastforce
  then show "case fst (pessimistic_PlaceBid e r s) of Inl err \<Rightarrow> True
      | Inr res \<Rightarrow> res_outcome res \<in> {Accepted, TooLow, Closed, NotFound}"
    using pessimistic_outcomes by (cases res) auto
qed

text \<open>
  The decision over the locked row. With no failed round trip and prices that do
  not wrap, the answer for an existing auction is \<open>Closed\<close> at or after its end or once it is
  stamped, else \<open>TooLow\<close> below top plus increment, else \<open>Accepted\<close> with exactly the one new
  row; a rejection writes nothing; each call feeds the histogram one sample.
\<close>

theorem pessimistic_decision_table:
  assumes ok: "pess_ok s" and calm: "pess_calm e r s"
    and a: "find_auction (ps_db s) (req_auction r) = Some a"
  shows "\<exists>res s'. pessimistic_PlaceBid e r s = (Inr res, s') \<and>
    ps_lock_wait s' = ps_lock_wait s + 1 \<and>
    res_outcome res =
      (if sint (a_highest a) + sint (a_min_inc a) \<le> sint (req_amount r) then Accepted else TooLow) \<and>
    length (db_bids (ps_db s')) = length (db_bids (ps_db s)) + (if res_outcome res = Accepted then 1 else 0)"
proof -
  have inv: "db_inv (ps_db s)" and cap: "capped (ps_db s)" using ok by (simp_all add: pess_ok_def)
  note dec = pess_decide_None [OF db_invD(1) [OF inv] cap a, of "pe_lock_now e" "req_amount r"]
  have row: "a_status a = ColOpen" "pe_lock_now e < a_ends_at a"
    and quiet: "pe_fault_begin e = NoFault" "pe_fault_lock e = NoFault" "pe_fault_write e = NoFault"
      "pe_fault_commit e = NoFault"
    using calm a by (auto simp: pess_calm_def)
  show ?thesis
  proof (cases "sint (a_highest a) + sint (a_min_inc a) \<le> sint (req_amount r)")
    case True
    with dec row have "pess_decide (state_of_row a) (pe_lock_now e) (req_amount r) = None" by simp
    with True show ?thesis
      using pess_quiet [OF quiet(1,2) a] pess_write_lands [OF inv a calm] quiet by simp
  next
    case False
    with dec row have "pess_decide (state_of_row a) (pe_lock_now e) (req_amount r) = Some TooLow"
      by (auto simp: pess_decide_def is_closed_row split: if_splits)
    with False show ?thesis using pess_quiet [OF quiet(1,2) a] by simp
  qed
qed

definition sample_pess_env :: pess_env where
  "sample_pess_env = \<lparr>pe_fault_begin = NoFault, pe_tx_now = 4, pe_fault_lock = NoFault,
     pe_lock_now = 5, pe_bid_id = 9, pe_fault_write = NoFault, pe_fault_commit = NoFault\<rparr>"

theorem pessimistic_decision_table_witness:
  "\<exists>res s'. pessimistic_PlaceBid sample_pess_env (sample_request 0 100) sample_pess = (Inr res, s') \<and>
     res_outcome res = Accepted \<and> length (db_bids (ps_db s')) = 1"
proof -
  have "pess_calm sample_pess_env (sample_request 0 100) sample_pess" by code_simp
  from pessimistic_decision_table [OF sample_pess_ok this, of sample_row] show ?thesis
    using sample_find
    by (auto simp: sample_pess_def sample_request_def sample_row_def sample_db_def)
qed

text \<open>
  Claim C31. Above the range of \<^verbatim>\<open>int64\<close> the price guard is gone. When the top plus the
  increment does not fit in 64 bits, Go's \<open>MinNextBid\<close> wraps to a negative number and the
  pessimistic engine accepts any positive amount, so the published top falls to it; the
  statement of the optimistic engine raises an error on the same row for every amount.
\<close>

theorem pessimistic_overflow_sells_for_anything:
  assumes inv: "db_inv (ps_db s)" and calm: "pess_calm e r s"
    and a: "find_auction (ps_db s) (req_auction r) = Some a"
    and over: "2 ^ 63 \<le> sint (a_highest a) + sint (a_min_inc a)"
  shows "(\<exists>res s'. pessimistic_PlaceBid e r s = (Inr res, s') \<and> res_outcome res = Accepted \<and>
      (\<exists>a'. find_auction (ps_db s') (req_auction r) = Some a' \<and> a_highest a' = req_amount r)) \<and>
    opt_place_bid (req_amount r) (req_user r) (req_auction r) (a_version a) (pe_bid_id e) (req_key r)
      (pe_lock_now e) (ps_db s) = Inl OutOfRange"
proof -
  have row: "a_status a = ColOpen" "pe_lock_now e < a_ends_at a" "0 <s req_amount r"
    and quiet: "pe_fault_begin e = NoFault" "pe_fault_lock e = NoFault" "pe_fault_write e = NoFault"
      "pe_fault_commit e = NoFault"
    using calm a by (auto simp: pess_calm_def)
  have "sint (a_highest a + a_min_inc a) = sint (a_highest a) + sint (a_min_inc a) - 2 ^ 64"
    using over by (intro sint_add_wraps)
  then have "sint (a_highest a + a_min_inc a) < 0"
    using sint_range [of "a_highest a"] sint_range [of "a_min_inc a"] by simp
  then have "pess_decide (state_of_row a) (pe_lock_now e) (req_amount r) = None"
    using row by (auto simp: pess_decide_def is_closed_row min_next_bid_def sless_iff_sint)
  then have "pessimistic_PlaceBid e r s = (Inr (accepted_result (a_version a + 1) (pe_bid_id e) (req_amount r) (a_min_inc a)),
       s\<lparr>ps_lock_wait := ps_lock_wait s + 1, ps_db :=
         apply_bid a \<lparr>b_id = pe_bid_id e, b_auction = req_auction r, b_user = req_user r,
           b_amount = req_amount r, b_seq = a_version a + 1, b_key = nullif_empty (req_key r),
           b_created_at = pe_tx_now e\<rparr> (ps_db s)\<rparr>)"
    using pess_quiet [OF quiet(1,2) a] pess_write_lands [OF inv a calm] quiet by simp
  moreover have "bigint_add (a_highest a) (a_min_inc a) = None"
    using over by (simp add: bigint_add_None_iff)
  ultimately show ?thesis
    using a row by (simp add: opt_place_bid_def find_apply_bid)
qed

definition dear_row :: auction_row where
  "dear_row = sample_row\<lparr>a_highest := 9223372036854775800\<rparr>"

definition dear_pess :: pess_state where
  "dear_pess = \<lparr>ps_db = \<lparr>db_auctions = [dear_row], db_bids = []\<rparr>, ps_lock_wait = 0\<rparr>"

theorem pessimistic_overflow_sells_for_anything_witness:
  "\<exists>res s'. pessimistic_PlaceBid sample_pess_env (sample_request 0 1) dear_pess = (Inr res, s') \<and>
     res_outcome res = Accepted"
proof -
  have inv: "db_inv (ps_db dear_pess)"
    by (simp add: db_inv_def schema_ok_def history_ok_def timely_ok_def closing_ok_def dear_pess_def
        dear_row_def sample_row_def check_auction_def keys_of_def List.map_filter_def bids_of_def
        auction_history_def sless_iff_sint sle_iff_sint)
  have calm: "pess_calm sample_pess_env (sample_request 0 1) dear_pess" by code_simp
  have a: "find_auction (ps_db dear_pess) (req_auction (sample_request 0 1)) = Some dear_row"
    by (simp add: dear_pess_def dear_row_def sample_row_def find_auction_def sample_request_def)
  have "2 ^ 63 \<le> sint (a_highest dear_row) + sint (a_min_inc dear_row)"
    by (simp add: dear_row_def sample_row_def)
  from pessimistic_overflow_sells_for_anything [OF inv calm a this] show ?thesis by blast
qed

end
