(* ===== verification/Shard_Journal.thy ===== *)
theory Shard_Journal
  imports Shard Pessimistic
begin

text \<open>
  The single writer against the ledger. \<open>journal\<close> is the database the shard's memory speaks of:
  the committed one with the open batch applied bid by bid. While the memory agrees with it
  (\<open>coherent\<close>), every accepted decision is the next bid of its auction, and a commit takes the
  database to the journal, provided the UPDATE takes the last of several bids for one auction.
  The second half is what happens when it does not, when the clock moves between the two reads
  of a decision, and when somebody else wrote.
\<close>

section \<open>The journal\<close>

definition post :: "pending_bid \<Rightarrow> db \<Rightarrow> db" where
  "post p d = (case find_auction d (pb_auction p) of None \<Rightarrow> d | Some a \<Rightarrow> apply_bid a (row_of p) d)"

definition journal :: "pending_bid list \<Rightarrow> db \<Rightarrow> db" where
  "journal ps d = fold post ps d"

text \<open>A decided bid is the next of its auction, except that no constraint was asked yet.\<close>

definition next_pending_ok :: "db \<Rightarrow> pending_bid \<Rightarrow> bool" where
  "next_pending_ok d p \<longleftrightarrow>
     (\<exists>a. find_auction d (pb_auction p) = Some a \<and> sint (pb_seq p) = sint (a_version a) + 1 \<and>
        sint (a_highest a) + sint (a_min_inc a) \<le> sint (pb_amount p) \<and> pb_created_at p \<le> a_ends_at a)"

fun batch_ok :: "pending_bid list \<Rightarrow> db \<Rightarrow> bool" where
  "batch_ok [] d = True"
| "batch_ok (p # ps) d = (next_pending_ok d p \<and> batch_ok ps (post p d))"

lemma row_of_simps [simp]:
  "b_id (row_of p) = pb_bid_id p" "b_auction (row_of p) = pb_auction p" "b_user (row_of p) = pb_user p"
  "b_amount (row_of p) = pb_amount p" "b_seq (row_of p) = pb_seq p"
  "b_key (row_of p) = nullif_empty (pb_key p)" "b_created_at (row_of p) = pb_created_at p"
  by (simp_all add: row_of_def)

lemma journal_simps [simp]:
  "journal [] d = d" "journal (p # ps) d = journal ps (post p d)"
  "journal (ps @ [p]) d = post p (journal ps d)"
  by (simp_all add: journal_def)

lemma batch_ok_snoc: "batch_ok (ps @ [p]) d \<longleftrightarrow> batch_ok ps d \<and> next_pending_ok (journal ps d) p"
  by (induction ps arbitrary: d) auto

lemma find_post:
  "find_auction (post p d) x =
     (if x = pb_auction p
      then map_option (\<lambda>a. raised a (pb_amount p) (pb_user p) (pb_seq p)) (find_auction d x)
      else find_auction d x)"
  by (cases "find_auction d (pb_auction p)") (auto simp: post_def row_simps)

lemma post_bids: "find_auction d (pb_auction p) \<noteq> None \<Longrightarrow> db_bids (post p d) = db_bids d @ [row_of p]"
  by (auto simp: post_def)

text \<open>Inserting the rows of a decided batch walks the ledger to the journal.\<close>

lemma insert_bids_journal:
  assumes "insert_bids (map row_of ps) di = Inr d'" and "batch_ok ps dj"
    and "db_bids di = db_bids dj" and "\<And>x. find_auction di x = None \<longleftrightarrow> find_auction dj x = None"
  shows "evolves dj (journal ps dj) \<and> db_bids (journal ps dj) = db_bids d'"
  using assms
proof (induction ps arbitrary: di dj)
  case (Cons p ps)
  from Cons.prems(1) obtain d1 where ins: "insert_bid (row_of p) di = Inr d1"
    and rest: "insert_bids (map row_of ps) d1 = Inr d'"
    by (auto split: sum.splits)
  from Cons.prems(2) obtain a where a: "find_auction dj (pb_auction p) = Some a"
    and nx: "next_pending_ok dj p" and ok: "batch_ok ps (post p dj)"
    by (auto simp: next_pending_ok_def)
  note d1 = insert_bid_InrD [OF ins]
  have "bid_violation dj (row_of p) = None"
    using d1(2) bid_violation_cong [OF Cons.prems(3), of "row_of p"] Cons.prems(4) by simp
  with nx a have "next_bid_ok dj a (row_of p)"
    by (auto simp: next_pending_ok_def next_bid_ok_def)
  then have ev: "evolves dj (post p dj)"
    using a by (auto simp: post_def intro: evolves_bid)
  have "db_bids d1 = db_bids (post p dj)"
    using d1(1) Cons.prems(3) a by (simp add: post_def)
  moreover have "find_auction d1 x = None \<longleftrightarrow> find_auction (post p dj) x = None" for x
    using d1(1) Cons.prems(4) by (auto simp: row_simps find_post)
  ultimately have "evolves (post p dj) (journal ps (post p dj)) \<and>
      db_bids (journal ps (post p dj)) = db_bids d'"
    using Cons.IH [OF rest ok] by blast
  with ev show ?case by (auto intro: evolves_trans)
qed simp

text \<open>The row of an auction after the journal is the last of its bids.\<close>

definition settled_row :: "pending_bid list \<Rightarrow> auction_row \<Rightarrow> auction_row" where
  "settled_row ps a =
     (let ms = matches ps (a_id a) in
      if ms = [] then a else raised a (pb_amount (last ms)) (pb_user (last ms)) (pb_seq (last ms)))"

lemma matches_simps [simp]:
  "matches [] x = []" "matches (ps @ [p]) x = matches ps x @ (if pb_auction p = x then [p] else [])"
  by (simp_all add: matches_def)

lemma settled_row_id [simp]: "a_id (settled_row ps a) = a_id a"
  by (simp add: settled_row_def Let_def)

lemma raised_raised: "raised (raised a m u v) m' u' v' = raised a m' u' v'"
  by (simp add: raised_def)

lemma settled_row_snoc:
  "settled_row (ps @ [p]) a =
     (if a_id a = pb_auction p then raised (settled_row ps a) (pb_amount p) (pb_user p) (pb_seq p)
      else settled_row ps a)"
  by (auto simp: settled_row_def Let_def raised_raised)

lemma journal_rows:
  assumes "distinct (map a_id (db_auctions d))"
  shows "db_auctions (journal ps d) = map (settled_row ps) (db_auctions d)"
proof (induction ps rule: rev_induct)
  case Nil
  then show ?case by (simp add: settled_row_def map_idI)
next
  case (snoc p ps)
  let ?J = "journal ps d" and ?x = "pb_auction p"
  have find: "find_auction ?J ?x = map_option (settled_row ps) (find_auction d ?x)"
    unfolding find_auction_def snoc by (simp add: find_map_key)
  show ?case
  proof (cases "find_auction d ?x")
    case None
    then have "post p ?J = ?J" using find by (simp add: post_def)
    moreover have "a_id a \<noteq> ?x" if "a \<in> set (db_auctions d)" for a
      using None that by (metis find_auction_None_iff imageI)
    ultimately show ?thesis by (simp add: snoc settled_row_snoc)
  next
    case (Some r)
    have mem: "r \<in> set (db_auctions d)" "a_id r = ?x"
      using Some by (auto dest: find_auction_mem find_auction_id)
    have uniq: "a = r" if "a \<in> set (db_auctions d)" "a_id a = ?x" for a
      using that mem assms by (metis distinct_map inj_onD)
    have "db_auctions (post p ?J) =
        map (\<lambda>q. if a_id q = ?x then raised (settled_row ps r) (pb_amount p) (pb_user p) (pb_seq p) else q)
          (map (settled_row ps) (db_auctions d))"
      using find Some mem(2) by (simp add: post_def apply_bid_def set_auction_def snoc)
    also have "\<dots> = map (settled_row (ps @ [p])) (db_auctions d)"
      using uniq mem(2) by (auto simp: settled_row_snoc)
    finally show ?thesis by simp
  qed
qed

text \<open>The UPDATE settles a batch when it takes the last match of each auction.\<close>

definition settles :: "(uuid \<Rightarrow> nat \<Rightarrow> nat) \<Rightarrow> pending_bid list \<Rightarrow> bool" where
  "settles pick batch \<longleftrightarrow>
     list_all (\<lambda>p. (let n = length (matches batch (pb_auction p)) in
       pick (pb_auction p) n mod n = n - 1)) batch"

lemma updated_settled: "settles pick batch \<Longrightarrow> updated pick batch a = settled_row batch a"
proof -
  assume s: "settles pick batch"
  show ?thesis
  proof (cases "matches batch (a_id a) = []")
    case False
    then obtain p where "p \<in> set batch" "pb_auction p = a_id a"
      by (auto simp: matches_def filter_empty_conv)
    with s have "pick (a_id a) (length (matches batch (a_id a))) mod length (matches batch (a_id a))
        = length (matches batch (a_id a)) - 1"
      by (auto simp: settles_def list_all_iff Let_def)
    with False show ?thesis
      by (simp add: updated_def settled_row_def Let_def last_conv_nth)
  qed (simp add: updated_def settled_row_def)
qed

lemma settles_last: "settles (\<lambda>x n. n - 1) batch"
proof -
  have "length (matches batch (pb_auction p)) \<noteq> 0" if "p \<in> set batch" for p
    using that by (auto simp: matches_def filter_empty_conv)
  then show ?thesis by (auto simp: settles_def list_all_iff Let_def)
qed

lemma matches_single:
  "distinct (map pb_auction batch) \<Longrightarrow> p \<in> set batch \<Longrightarrow> matches batch (pb_auction p) = [p]"
proof (induction batch)
  case (Cons q batch)
  have "filter (\<lambda>p. pb_auction p = pb_auction q) batch = []"
    using Cons.prems(1) by (metis (mono_tags, lifting) distinct.simps(2) filter_False imageI list.set_map list.simps(9))
  with Cons show ?case by (auto simp: matches_def)
qed simp

lemma settles_distinct: "distinct (map pb_auction batch) \<Longrightarrow> settles pick batch"
  by (simp add: settles_def list_all_iff Let_def matches_single)

lemma commitBatch_journal:
  assumes c: "commitBatch pick batch d = Inr (u, d')" and ok: "batch_ok batch d"
    and s: "settles pick batch" and inv: "db_inv d"
  shows "d' = journal batch d \<and> evolves d d'"
proof -
  obtain d1 where ins: "insert_bids (map row_of batch) d = Inr d1"
    using commitBatch_InrD(4) [OF c] by blast
  have d1: "d1 = d\<lparr>db_bids := db_bids d @ map row_of batch\<rparr>"
    using insert_bids_rows [OF ins] .
  have j: "evolves d (journal batch d)" "db_bids (journal batch d) = db_bids d1"
    using insert_bids_journal [OF ins ok refl] by auto
  have "distinct (map a_id (db_auctions d))"
    using db_invD(1) [OF inv] by (simp add: schema_ok_def)
  from journal_rows [OF this] have "db_auctions (journal batch d) = db_auctions d'"
    using commitBatch_InrD(2) [OF c] updated_settled [OF s] by simp
  moreover have "db_bids (journal batch d) = db_bids d'"
    using j(2) d1 commitBatch_InrD(1) [OF c] by simp
  ultimately have "d' = journal batch d" by simp
  with j(1) show ?thesis by simp
qed

section \<open>Coherence\<close>

definition agrees :: "mem_auction \<Rightarrow> auction_row \<Rightarrow> bool" where
  "agrees m a \<longleftrightarrow> st_version (ma_state m) = a_version a \<and> st_highest (ma_state m) = a_highest a \<and>
     st_min_inc (ma_state m) = a_min_inc a \<and> st_ends_at (ma_state m) = a_ends_at a"

definition coherent :: "(uuid \<Rightarrow> mem_auction option) \<Rightarrow> db \<Rightarrow> bool" where
  "coherent mem d \<longleftrightarrow> (\<forall>x m. mem x = Some m \<longrightarrow> (\<exists>a. find_auction d x = Some a \<and> agrees m a))"

text \<open>
  Two databases a shard that owns the auctions \<open>X\<close> cannot tell apart: same terms, versions and tops.
  Another session's stamp leaves such a database behind, and so does a commit on other auctions.
\<close>

definition same_row :: "auction_row \<Rightarrow> auction_row \<Rightarrow> bool" where
  "same_row a b \<longleftrightarrow> a_id a = a_id b \<and> a_version a = a_version b \<and> a_highest a = a_highest b \<and>
     a_min_inc a = a_min_inc b \<and> a_ends_at a = a_ends_at b"

definition covers_on :: "uuid set \<Rightarrow> db \<Rightarrow> db \<Rightarrow> bool" where
  "covers_on X d d' \<longleftrightarrow> (\<forall>x \<in> X. \<forall>a. find_auction d x = Some a \<longrightarrow> (\<exists>b. find_auction d' x = Some b \<and> same_row a b))"

lemma covers_stamp: "covers_on X d (stamped x t d)"
  by (auto simp: covers_on_def stamped_def same_row_def find_closed_row split: option.splits)

lemma covers_create: "covers_on X d (created a d)"
  by (auto simp: covers_on_def created_def same_row_def row_simps)

lemma covers_refl [simp]: "covers_on X d d"
  by (simp add: covers_on_def same_row_def)

lemma covers_on_post:
  assumes "covers_on X d d'" and "next_pending_ok d p" and "pb_auction p \<in> X"
  shows "covers_on X (post p d) (post p d')" "next_pending_ok d' p"
proof -
  show "next_pending_ok d' p"
    using assms by (fastforce simp: covers_on_def next_pending_ok_def same_row_def)
  show "covers_on X (post p d) (post p d')"
    using assms(1) by (fastforce simp: covers_on_def find_post same_row_def)
qed

lemma covers_on_batch:
  "covers_on X d d' \<Longrightarrow> batch_ok ps d \<Longrightarrow> pb_auction ` set ps \<subseteq> X \<Longrightarrow>
   batch_ok ps d' \<and> covers_on X (journal ps d) (journal ps d')"
  by (induction ps arbitrary: d d') (auto dest: covers_on_post)

lemma coherent_covers_on:
  "coherent mem d \<Longrightarrow> covers_on X d d' \<Longrightarrow> (\<And>x. mem x \<noteq> None \<Longrightarrow> x \<in> X) \<Longrightarrow> coherent mem d'"
  unfolding coherent_def covers_on_def agrees_def same_row_def by (metis option.distinct(1))

lemma journal_other: "x \<notin> pb_auction ` set ps \<Longrightarrow> find_auction (journal ps d) x = find_auction d x"
  by (induction ps arbitrary: d) (auto simp: find_post)

text \<open>What the rows of a journal satisfy: positive terms, bounded prices, bounded versions.\<close>

definition sane :: "int \<Rightarrow> db \<Rightarrow> bool" where
  "sane n d \<longleftrightarrow> (\<forall>x a. find_auction d x = Some a \<longrightarrow>
     0 \<le> sint (a_highest a) \<and> 0 < sint (a_min_inc a) \<and> sint (a_highest a) \<le> money_cap \<and>
     sint (a_min_inc a) < money_cap \<and> sint (a_version a) \<le> n)"

lemma sane_db: "db_inv d \<Longrightarrow> capped d \<Longrightarrow> sane (int (length (db_bids d))) d"
  unfolding sane_def
proof (intro allI impI)
  fix x a
  assume inv: "db_inv d" and cap: "capped d" and a: "find_auction d x = Some a"
  have "check_auction a" using schema_check [OF db_invD(1) [OF inv] a] .
  moreover have "sint (a_version a) \<le> int (length (db_bids d))"
    using version_is_length [OF inv a] by (simp add: bids_of_def)
  ultimately show "0 \<le> sint (a_highest a) \<and> 0 < sint (a_min_inc a) \<and> sint (a_highest a) \<le> money_cap \<and>
      sint (a_min_inc a) < money_cap \<and> sint (a_version a) \<le> int (length (db_bids d))"
    using capped_row [OF cap a] by (simp add: check_auction_def sless_iff_sint sle_iff_sint)
qed

lemma sane_post:
  "sane n d \<Longrightarrow> next_pending_ok d p \<Longrightarrow> sint (pb_amount p) \<le> money_cap \<Longrightarrow> sane (n + 1) (post p d)"
  by (fastforce simp: sane_def find_post next_pending_ok_def split: if_splits)

lemma sane_journal:
  "sane n d \<Longrightarrow> batch_ok ps d \<Longrightarrow> list_all (\<lambda>p. sint (pb_amount p) \<le> money_cap) ps \<Longrightarrow>
   sane (n + int (length ps)) (journal ps d)"
proof (induction ps arbitrary: n d)
  case (Cons p ps)
  then have "sane (n + 1) (post p d)" by (auto intro: sane_post)
  from Cons.IH [OF this] Cons.prems show ?case by (simp add: algebra_simps)
qed simp

section \<open>One decision\<close>

definition decide_ok :: "decide_env \<Rightarrow> command \<Rightarrow> bool" where
  "decide_ok e c \<longleftrightarrow> de_created_now e \<le> de_now e \<and> sint (req_amount (cmd_req c)) \<le> money_cap"

lemma sh_state_of_coherent:
  assumes st: "sh_state_of e c s = (Some m, s1)" and coh: "coherent (ss_auctions s) (journal batch (ss_db s))"
    and held: "\<And>p. p \<in> set batch \<Longrightarrow> ss_auctions s (pb_auction p) \<noteq> None"
  shows "\<exists>a. find_auction (journal batch (ss_db s)) (req_auction (cmd_req c)) = Some a \<and> agrees m a"
    and "coherent (ss_auctions s1) (journal batch (ss_db s))"
    and "\<And>p. p \<in> set batch \<Longrightarrow> ss_auctions s1 (pb_auction p) \<noteq> None"
    and "ss_db s1 = ss_db s"
proof -
  let ?x = "req_auction (cmd_req c)" and ?J = "journal batch (ss_db s)"
  have *: "(\<exists>a. find_auction ?J ?x = Some a \<and> agrees m a) \<and> coherent (ss_auctions s1) ?J \<and>
    (\<forall>p \<in> set batch. ss_auctions s1 (pb_auction p) \<noteq> None) \<and> ss_db s1 = ss_db s"
  proof (cases "ss_auctions s ?x")
    case (Some m')
    with st have "m' = m" "s1 = s" by (auto simp: sh_state_of_def Let_def)
    with Some coh held show ?thesis by (auto simp: coherent_def)
  next
    case None
    with st have h: "hydrate e ?x (ss_db s) = Inr m" and s1: "s1 = s\<lparr>ss_auctions := (ss_auctions s)(?x \<mapsto> m)\<rparr>"
      by (auto simp: sh_state_of_def Let_def split: sum.splits if_splits)
    from h obtain a where a: "find_auction (ss_db s) ?x = Some a" "agrees m a"
      by (auto simp: hydrate_def hydrateQuery_def run_select_state agrees_def Let_def
          split: fault.splits option.splits sum.splits)
    have "?x \<notin> pb_auction ` set batch" using None held by (metis imageE)
    from journal_other [OF this] a have "find_auction ?J ?x = Some a" by simp
    with a(2) coh held show ?thesis by (auto simp: s1 coherent_def)
  qed
  then show "\<exists>a. find_auction ?J ?x = Some a \<and> agrees m a" "coherent (ss_auctions s1) ?J" "ss_db s1 = ss_db s"
    by simp_all
  show "ss_auctions s1 (pb_auction p) \<noteq> None" if "p \<in> set batch" for p
    using * that by blast
qed

lemma sh_decide_next:
  assumes d: "sh_decide e c s = (p, s')" and ok: "decide_ok e c"
    and coh: "coherent (ss_auctions s) (journal batch (ss_db s))"
    and held: "\<And>q. q \<in> set batch \<Longrightarrow> ss_auctions s (pb_auction q) \<noteq> None"
    and sane: "sane n (journal batch (ss_db s))" and n: "n < 2 ^ 63 - 1"
  shows "coherent (ss_auctions s') (journal (decided batch p) (ss_db s))"
    and "\<And>q. q \<in> set (decided batch p) \<Longrightarrow> ss_auctions s' (pb_auction q) \<noteq> None"
    and "p = Some q \<Longrightarrow> next_pending_ok (journal batch (ss_db s)) q"
    and "p = None \<Longrightarrow> fst (sh_state_of e c s) = None \<or>
      (\<exists>m. fst (sh_state_of e c s) = Some m \<and>
        (is_closed (ma_state m) (ma_now m (de_now e)) \<or> req_amount (cmd_req c) <s min_next_bid (ma_state m)))"
proof -
  let ?x = "req_auction (cmd_req c)" and ?J = "journal batch (ss_db s)"
  obtain om s1 where st: "sh_state_of e c s = (om, s1)" by fastforce
  have *: "coherent (ss_auctions s') (journal (decided batch p) (ss_db s)) \<and>
    (\<forall>q \<in> set (decided batch p). ss_auctions s' (pb_auction q) \<noteq> None) \<and>
    (\<forall>q. p = Some q \<longrightarrow> next_pending_ok ?J q) \<and>
    (p = None \<longrightarrow> om = None \<or> (\<exists>m. om = Some m \<and>
        (is_closed (ma_state m) (ma_now m (de_now e)) \<or> req_amount (cmd_req c) <s min_next_bid (ma_state m))))"
  proof (cases om)
    case None
    with st d have "p = None" "s' = s1" by (auto simp: sh_decide_def)
    moreover have "ss_auctions s1 = ss_auctions s"
      using st None by (auto simp: sh_state_of_def Let_def split: option.splits sum.splits if_splits)
    ultimately show ?thesis using coh held None by auto
  next
    case (Some m)
    note m = sh_state_of_coherent [OF st [unfolded Some] coh held]
    from m(1) obtain a where a: "find_auction ?J ?x = Some a" and ag: "agrees m a" by blast
    show ?thesis
    proof (cases "is_closed (ma_state m) (ma_now m (de_now e)) \<or> req_amount (cmd_req c) <s min_next_bid (ma_state m)")
      case True
      with d st Some have "p = None" "ss_auctions s' = ss_auctions s1"
        by (auto simp: sh_decide_def Let_def split: if_splits)
      with m True Some show ?thesis by auto
    next
      case False
      let ?st = "(ma_state m)\<lparr>st_version := st_version (ma_state m) + 1, st_highest := req_amount (cmd_req c)\<rparr>"
      let ?m = "m\<lparr>ma_state := ?st, ma_bidder := req_user (cmd_req c)\<rparr>"
      from d st Some False obtain q where q: "p = Some q" "pb_auction q = ?x" "pb_amount q = req_amount (cmd_req c)"
          "pb_user q = req_user (cmd_req c)" "pb_seq q = st_version (ma_state m) + 1"
          "pb_created_at q = de_created_now e + ma_skew m"
          "ss_auctions s' = (ss_auctions s1)(?x \<mapsto> ?m)"
        by (auto simp: sh_decide_def Let_def ma_now_def)
      have row: "0 \<le> sint (a_highest a)" "0 < sint (a_min_inc a)" "sint (a_highest a) \<le> money_cap"
          "sint (a_min_inc a) < money_cap" "sint (a_version a) \<le> n"
        using sane a unfolding sane_def by blast+
      have seq: "sint (a_version a + 1) = sint (a_version a) + 1"
        using row(5) n sint_range [of "a_version a"] by (subst sint_add_in_range) auto
      have "sint (min_next_bid (ma_state m)) = sint (a_highest a) + sint (a_min_inc a)"
        using ag row by (subst sint_min_next_bid) (auto simp: agrees_def money_cap_def)
      then have price: "sint (a_highest a) + sint (a_min_inc a) \<le> sint (req_amount (cmd_req c))"
        using False by (simp add: sless_iff_sint)
      have "de_now e + ma_skew m < a_ends_at a"
        using False ag by (simp add: is_closed_def ma_now_def agrees_def)
      then have nx: "next_pending_ok ?J q"
        using a q seq price ok ag by (simp add: next_pending_ok_def decide_ok_def agrees_def)
      have "coherent (ss_auctions s') (post q ?J)"
        using m(2) a q(2-5,7) ag by (auto simp: coherent_def find_post agrees_def)
      with nx m(3) q(1,2,7) show ?thesis by auto
    qed
  qed
  then show "coherent (ss_auctions s') (journal (decided batch p) (ss_db s))"
    "p = Some q \<Longrightarrow> next_pending_ok ?J q"
    "p = None \<Longrightarrow> fst (sh_state_of e c s) = None \<or> (\<exists>m. fst (sh_state_of e c s) = Some m \<and>
        (is_closed (ma_state m) (ma_now m (de_now e)) \<or> req_amount (cmd_req c) <s min_next_bid (ma_state m)))"
    by (auto simp: st)
  show "ss_auctions s' (pb_auction q) \<noteq> None" if "q \<in> set (decided batch p)" for q
    using * that by blast
qed

section \<open>The run refines the ledger\<close>

text \<open>
  The commits settle their batches in two ways: the UPDATE happens to take the last match, or
  no auction is bid on twice between two moments of an empty inbox, which is what the comment
  of \<^verbatim>\<open>commit\<close> believes of every schedule.
\<close>

fun singly :: "uuid list \<Rightarrow> event list \<Rightarrow> bool" where
  "singly xs [] = True"
| "singly xs (Gap # es) = singly [] es"
| "singly xs (Arrive e c late # es) =
     (req_auction (cmd_req c) \<notin> set xs \<and> singly (req_auction (cmd_req c) # xs) es)"
| "singly xs (ev # es) = singly xs es"

definition settling :: "(nat \<Rightarrow> commit_env) \<Rightarrow> pending_bid list \<Rightarrow> event list \<Rightarrow> bool" where
  "settling ce batch es \<longleftrightarrow>
     (\<forall>n. co_pick (ce n) = (\<lambda>x k. k - 1)) \<or>
     (\<exists>xs. singly xs es \<and> pb_auction ` set batch \<subseteq> set xs \<and> distinct (map pb_auction batch))"

fun event_ok :: "event \<Rightarrow> bool" where
  "event_ok (Arrive e c late) = decide_ok e c"
| "event_ok (Create a) = (sint (a_highest a) \<le> money_cap \<and> sint (a_min_inc a) < money_cap)"
| "event_ok ev = True"

definition sound :: "(nat \<Rightarrow> commit_env) \<Rightarrow> db \<Rightarrow> pending_bid list \<Rightarrow> event list \<Rightarrow> shard \<Rightarrow> bool" where
  "sound ce d0 batch es s \<longleftrightarrow>
     db_inv (ss_db s) \<and> evolves d0 (ss_db s) \<and> capped (ss_db s) \<and>
     batch_ok batch (ss_db s) \<and> list_all (\<lambda>p. sint (pb_amount p) \<le> money_cap) batch \<and>
     coherent (ss_auctions s) (journal batch (ss_db s)) \<and>
     (\<forall>p \<in> set batch. ss_auctions s (pb_auction p) \<noteq> None) \<and>
     list_all event_ok es \<and>
     int (length (db_bids (ss_db s)) + length batch + length es) < 2 ^ 63 - 1 \<and>
     settling ce batch es"

lemma settling_settles: "settling ce batch es \<Longrightarrow> settles (co_pick (ce n)) batch"
  unfolding settling_def using settles_last settles_distinct by metis

lemma settling_commit: "settling ce batch es \<Longrightarrow> settling ce [] es"
  by (auto simp: settling_def)

lemma settling_decide:
  assumes "settling ce batch (Arrive e c late # es)" and "sh_decide e c s = (p, s')"
  shows "settling ce (decided batch p) es"
  using assms(1) unfolding settling_def
proof
  assume "\<exists>xs. singly xs (Arrive e c late # es) \<and> pb_auction ` set batch \<subseteq> set xs \<and>
      distinct (map pb_auction batch)"
  then obtain xs where xs: "req_auction (cmd_req c) \<notin> set xs" "singly (req_auction (cmd_req c) # xs) es"
      "pb_auction ` set batch \<subseteq> set xs" "distinct (map pb_auction batch)"
    by auto
  from assms(2) have "pb_auction ` set (decided batch p) \<subseteq> set (req_auction (cmd_req c) # xs) \<and>
      distinct (map pb_auction (decided batch p))"
    using xs by (elim sh_decide_cases) auto
  with xs(2) show "(\<forall>n. co_pick (ce n) = (\<lambda>x k. k - 1)) \<or> (\<exists>xs. singly xs es \<and>
      pb_auction ` set (decided batch p) \<subseteq> set xs \<and> distinct (map pb_auction (decided batch p)))"
    by blast
qed simp

lemma capped_post: "capped d \<Longrightarrow> sint (pb_amount p) \<le> money_cap \<Longrightarrow> capped (post p d)"
  by (auto simp: post_def intro: capped_apply_bid split: option.splits)

lemma capped_journal:
  "capped d \<Longrightarrow> list_all (\<lambda>p. sint (pb_amount p) \<le> money_cap) ps \<Longrightarrow> capped (journal ps d)"
  by (induction ps arbitrary: d) (auto intro: capped_post)

text \<open>A failed commit forgets the batch: what is left of the map agrees with the database.\<close>

lemma coherent_evict:
  assumes "coherent mem (journal batch d)"
  shows "coherent (\<lambda>x. if x \<in> pb_auction ` set batch then None else mem x) d"
  using assms unfolding coherent_def by (metis journal_other option.distinct(1))

lemma coherent_evict_journal:
  assumes "coherent mem d"
  shows "coherent (\<lambda>x. if x \<in> X then None else mem x) d"
  using assms by (auto simp: coherent_def)

text \<open>A commit that settles its batch takes the database to the journal or leaves it alone.\<close>

lemma sh_commit_core:
  assumes inv: "db_inv (ss_db s)" "capped (ss_db s)" and ok: "batch_ok batch (ss_db s)"
    and am: "list_all (\<lambda>p. sint (pb_amount p) \<le> money_cap) batch"
    and coh: "coherent (ss_auctions s) (journal batch (ss_db s))"
    and st: "settles (co_pick ce) batch"
  shows "ss_db (sh_commit ce batch s) \<in> {ss_db s, journal batch (ss_db s)}"
    and "evolves (ss_db s) (ss_db (sh_commit ce batch s))" and "capped (ss_db (sh_commit ce batch s))"
    and "coherent (ss_auctions (sh_commit ce batch s)) (ss_db (sh_commit ce batch s))"
    and "length (db_bids (ss_db (sh_commit ce batch s))) \<le> length (db_bids (ss_db s)) + length batch"
proof -
  let ?s = "sh_commit ce batch s" and ?J = "journal batch (ss_db s)"
  have mem: "ss_auctions ?s = ss_auctions s \<or>
      ss_auctions ?s = (\<lambda>x. if x \<in> pb_auction ` set batch then None else ss_auctions s x)"
    by (simp add: sh_commit_eq Let_def split: prod.splits sum.splits)
  have "ss_db ?s \<in> {ss_db s, ?J} \<and> evolves (ss_db s) (ss_db ?s) \<and> capped (ss_db ?s) \<and>
      coherent (ss_auctions ?s) (ss_db ?s) \<and> length (db_bids (ss_db ?s)) \<le> length (db_bids (ss_db s)) + length batch"
  proof (cases rule: sh_commit_cases [of ce batch s])
    case (written u)
    note j = commitBatch_journal [OF written ok st inv(1)]
    have "coherent (ss_auctions ?s) ?J"
      using mem coh coherent_evict_journal [OF coh] by auto
    moreover have "evolves (ss_db s) ?J" using j by metis
    ultimately show ?thesis
      using j capped_journal [OF inv(2) am] commitBatch_InrD(1) [OF written] by simp
  next
    case unwritten
    have "coherent (ss_auctions ?s) (ss_db s)"
    proof (cases "batch = []")
      case True
      then have "ss_auctions ?s = ss_auctions s" using mem by auto
      with coh True show ?thesis by simp
    next
      case False
      have "ss_auctions ?s = (\<lambda>x. if x \<in> pb_auction ` set batch then None else ss_auctions s x)"
        using unwritten(2) False
        by (auto simp: sh_commit_eq Let_def neq_Nil_conv split: prod.splits sum.splits)
      then show ?thesis using coherent_evict [OF coh] by simp
    qed
    then show ?thesis using unwritten(1) inv(2) by simp
  qed
  then show "ss_db ?s \<in> {ss_db s, ?J}" "evolves (ss_db s) (ss_db ?s)" "capped (ss_db ?s)"
    "coherent (ss_auctions ?s) (ss_db ?s)" "length (db_bids (ss_db ?s)) \<le> length (db_bids (ss_db s)) + length batch"
    by blast+
qed

lemma sound_commit:
  assumes s: "sound ce d0 batch es s"
  shows "sound ce d0 [] es (sh_commit (ce n) batch s)"
proof -
  have s': "db_inv (ss_db s)" "evolves d0 (ss_db s)" "capped (ss_db s)" "batch_ok batch (ss_db s)"
      "list_all (\<lambda>p. sint (pb_amount p) \<le> money_cap) batch" "coherent (ss_auctions s) (journal batch (ss_db s))"
      "list_all event_ok es" "int (length (db_bids (ss_db s)) + length batch + length es) < 2 ^ 63 - 1"
      "settling ce batch es"
    using s by (simp_all add: sound_def)
  note core = sh_commit_core [OF s'(1,3,4,5,6) settling_settles [OF s'(9)]]
  show ?thesis
    using s'(7,8) core(3-5) [of n] evolves_trans [OF s'(2) core(2)] db_inv_evolves [OF core(2) s'(1)]
      settling_commit [OF s'(9)]
    by (simp add: sound_def)
qed

lemma sound_decide:
  assumes s: "sound ce d0 batch (Arrive e c late # es) s" and d: "sh_decide e c s = (p, s')"
  shows "sound ce d0 (decided batch p) es s'"
proof -
  let ?J = "journal batch (ss_db s)"
  let ?n = "int (length (db_bids (ss_db s))) + int (length batch)"
  have s1: "db_inv (ss_db s)" "capped (ss_db s)" "batch_ok batch (ss_db s)"
      "list_all (\<lambda>p. sint (pb_amount p) \<le> money_cap) batch" "coherent (ss_auctions s) ?J"
    and ok: "decide_ok e c" and n: "?n < 2 ^ 63 - 1"
    and held: "\<And>q. q \<in> set batch \<Longrightarrow> ss_auctions s (pb_auction q) \<noteq> None"
    using s by (simp_all add: sound_def)
  have "sane ?n ?J"
    using sane_journal [OF sane_db [OF s1(1,2)] s1(3,4)] by simp
  note nx = sh_decide_next [OF d ok s1(5) held this n]
  have db: "ss_db s' = ss_db s" using d by (elim sh_decide_cases)
  have "batch_ok (decided batch p) (ss_db s)"
    using s1(3) nx(3) by (cases p) (auto simp: batch_ok_snoc)
  moreover have "list_all (\<lambda>p. sint (pb_amount p) \<le> money_cap) (decided batch p)"
    using d s1(4) ok by (elim sh_decide_cases) (auto simp: decide_ok_def)
  moreover have "int (length (db_bids (ss_db s)) + length (decided batch p) + length es) < 2 ^ 63 - 1"
    using s by (cases p) (auto simp: sound_def)
  moreover have "settling ce batch (Arrive e c late # es)" using s by (simp add: sound_def)
  then have "settling ce (decided batch p) es" using d by (rule settling_decide)
  ultimately show ?thesis
    using s nx(1,2) unfolding sound_def db by simp
qed

lemma sound_world:
  assumes s: "sound ce d0 batch (ev # es) s" and "covers_on UNIV (ss_db s) d'" and "evolves (ss_db s) d'"
    and "capped d'" and "db_bids d' = db_bids (ss_db s)" and "settling ce batch es"
  shows "sound ce d0 batch es (s\<lparr>ss_db := d'\<rparr>)"
proof -
  have s': "db_inv (ss_db s)" "evolves d0 (ss_db s)" "batch_ok batch (ss_db s)"
      "coherent (ss_auctions s) (journal batch (ss_db s))"
    using s by (simp_all add: sound_def)
  note c = covers_on_batch [OF assms(2) s'(3) subset_UNIV]
  have "coherent (ss_auctions s) (journal batch d')"
    using coherent_covers_on [OF s'(4)] c by blast
  moreover have "db_inv d'" using db_inv_evolves [OF assms(3) s'(1)] .
  moreover have "evolves d0 d'" using s'(2) assms(3) by (rule evolves_trans)
  ultimately show ?thesis
    using s c assms(4-6) by (simp add: sound_def)
qed

lemma stamp_evolves: "evolves d (stamped x t d)"
  by (auto simp: stamped_def split: option.splits intro!: evolves_one intro: ledger_close)

lemma create_evolves: "evolves d (created a d)"
  by (auto simp: created_def intro!: evolves_one intro: ledger_create)

interpretation refines: shard_invariant ce "sound ce d0" for ce d0
proof unfold_locales
  fix batch e c late es s p s'
  assume "sound ce d0 batch (Arrive e c late # es) s" "sh_decide e c s = (p, s')"
  then show "sound ce d0 (decided batch p) es s'" by (rule sound_decide)
next
  fix batch es s n
  assume "sound ce d0 batch es s"
  then show "sound ce d0 [] es (sh_commit (ce n) batch s)" by (rule sound_commit)
next
  fix es s
  assume s: "sound ce d0 [] (Gap # es) s"
  then have "settling ce [] (Gap # es)" by (simp add: sound_def)
  then have "settling ce [] es" unfolding settling_def by (auto intro: exI [of _ "[]"])
  with s show "sound ce d0 [] es s" by (simp add: sound_def)
next
  fix batch x t es s
  assume s: "sound ce d0 batch (Stamp x t # es) s"
  have "capped (stamped x t (ss_db s))"
    using s by (auto simp: sound_def stamped_def intro: capped_close split: option.splits)
  moreover have "settling ce batch es" using s by (simp add: sound_def settling_def)
  ultimately show "sound ce d0 batch es (s\<lparr>ss_db := stamped x t (ss_db s)\<rparr>)"
    using covers_stamp stamp_evolves by (intro sound_world [OF s]) simp_all
next
  fix batch a es s
  assume s: "sound ce d0 batch (Create a # es) s"
  have "capped (created a (ss_db s))"
    using s by (auto simp: sound_def created_def capped_def)
  moreover have "settling ce batch es" using s by (simp add: sound_def settling_def)
  ultimately show "sound ce d0 batch es (s\<lparr>ss_db := created a (ss_db s)\<rparr>)"
    using covers_create create_evolves by (intro sound_world [OF s]) simp_all
qed

section \<open>One call with the inbox to itself\<close>

lemma sh_run_single:
  "sh_run ce [Arrive e c late] s =
     (case sh_decide e c s of
        (None, s1) \<Rightarrow> s1
      | (Some p, s1) \<Rightarrow> sh_commit (ce (length (obs_batch (ss_obs s1)))) [p] s1)"
  by (auto split: prod.splits option.splits)

lemma sh_decide_None_reply:
  assumes d: "sh_decide e c s = (None, s')" and s: "ss_replies s = []"
  shows "(\<exists>err. ss_replies s' = [(c, Inl err)]) \<or>
    (find_auction (ss_db s) (req_auction (cmd_req c)) = None \<and> ss_replies s' = [(c, Inr (bare_result NotFound))]) \<or>
    (\<exists>m s1 oc. sh_state_of e c s = (Some m, s1) \<and> oc \<in> {Closed, TooLow} \<and>
       (oc = Closed \<longleftrightarrow> is_closed (ma_state m) (ma_now m (de_now e))) \<and>
       (oc = TooLow \<longrightarrow> req_amount (cmd_req c) <s min_next_bid (ma_state m)) \<and>
       ss_replies s' = [(c, Inr (rejected oc (ma_state m)))])"
proof -
  have missing: "find_auction (ss_db s) x = None" if "hydrate e x (ss_db s) = Inl NoRows" for x
    using that
    by (auto simp: hydrate_def hydrateQuery_def run_select_state Let_def
        split: fault.splits option.splits sum.splits)
  obtain om s1 where st: "sh_state_of e c s = (om, s1)" by fastforce
  show ?thesis
  proof (cases om)
    case None
    with st d have "s' = s1" by (simp add: sh_decide_def)
    with st None s missing show ?thesis
      by (auto simp: sh_state_of_def Let_def split: option.splits sum.splits if_splits)
  next
    case (Some m)
    have "ss_replies s1 = []"
      using st Some s by (auto simp: sh_state_of_def Let_def split: option.splits sum.splits if_splits)
    with st Some d have "\<exists>oc. oc \<in> {Closed, TooLow} \<and>
       (oc = Closed \<longleftrightarrow> is_closed (ma_state m) (ma_now m (de_now e))) \<and>
       (oc = TooLow \<longrightarrow> req_amount (cmd_req c) <s min_next_bid (ma_state m)) \<and>
       ss_replies s' = [(c, Inr (rejected oc (ma_state m)))]"
      by (auto simp: sh_decide_def Let_def split: if_splits)
    with st Some show ?thesis by blast
  qed
qed

text \<open>A batch of one that was written is one step of the ledger.\<close>

lemma commit_one:
  assumes c: "commitBatch pick [p] d = Inr (u, d')" and nx: "next_pending_ok d p" and inv: "db_inv d"
  shows "\<exists>a. next_bid_ok d a (row_of p) \<and> d' = apply_bid a (row_of p) d"
proof -
  from nx obtain a where a: "find_auction d (pb_auction p) = Some a"
    by (auto simp: next_pending_ok_def)
  have "bid_violation d (row_of p) = None"
    using commitBatch_InrD(4) [OF c] by (auto split: sum.splits dest: insert_bid_InrD(2))
  with nx a have "next_bid_ok d a (row_of p)"
    by (auto simp: next_bid_ok_def next_pending_ok_def)
  moreover have "d' = journal [p] d"
    using commitBatch_journal [OF c _ _ inv] nx settles_distinct [of "[p]" pick] by simp
  then have "d' = apply_bid a (row_of p) d" using a by (simp add: post_def)
  ultimately show ?thesis by blast
qed

lemma commit_one_lands:
  assumes inv: "db_inv d" and a: "find_auction d (pb_auction p) = Some a"
    and viol: "bid_violation d (row_of p) = None"
  shows "commitBatch pick [p] d = Inr ((), apply_bid a (row_of p) d)"
proof -
  have dist: "distinct (map a_id (db_auctions d))" and chk: "list_all check_auction (db_auctions d)"
    using db_invD(1) [OF inv] by (simp_all add: schema_ok_def)
  have up: "updated pick [p] = settled_row [p]"
    using updated_settled settles_distinct [of "[p]" pick] by fastforce
  have rows: "map (settled_row [p]) (db_auctions d) = db_auctions (apply_bid a (row_of p) d)"
    using journal_rows [OF dist, of "[p]"] a by (simp add: post_def)
  have "check_auction (settled_row [p] r)" if "r \<in> set (db_auctions d)" for r
    using chk that bid_violation_NoneD(1) [OF viol]
    by (auto simp: settled_row_def Let_def list_all_iff matches_def intro: check_auction_raised)
  then have "list_all check_auction (map (settled_row [p]) (db_auctions d))"
    by (simp add: list_all_iff)
  moreover have "db_bids (apply_bid a (row_of p) d) = db_bids d @ [row_of p]" by simp
  ultimately show ?thesis
    using viol unfolding commitBatch_def up rows
    by (simp add: insert_bid_def up rows Let_def)
qed

section \<open>The engine\<close>

text \<open>
  One call of \<^verbatim>\<open>PlaceBid\<close> while no other command is in flight: the context may be done before
  the command enters the inbox, and nothing is decided then; after that the caller waits.
\<close>

record shard_engine =
  en_db :: db
  en_mem :: "nat \<Rightarrow> uuid \<Rightarrow> mem_auction option"
  en_obs :: observers

record shard_env =
  se_cancelled :: bool
  se_started :: time
  se_decide :: decide_env
  se_commit :: commit_env

definition shard_of :: "shard_engine \<Rightarrow> nat \<Rightarrow> shard" where
  "shard_of s i = \<lparr>ss_db = en_db s, ss_auctions = en_mem s i, ss_obs = en_obs s, ss_replies = []\<rparr>"

definition command_of :: "shard_env \<Rightarrow> bid_request \<Rightarrow> command" where
  "command_of env req = \<lparr>cmd_req = req, cmd_started_at = se_started env, cmd_caller = 0\<rparr>"

definition shard_PlaceBid :: "shard_env \<Rightarrow> bid_request \<Rightarrow> shard_engine \<Rightarrow> response \<times> shard_engine" where
  "shard_PlaceBid env req s =
     (if se_cancelled env then (Inl CtxError, s)
      else
        (let i = shardFor (req_auction req) numShards;
             t = sh_run (\<lambda>_. se_commit env) [Arrive (se_decide env) (command_of env req) False] (shard_of s i)
         in (snd (hd (ss_replies t)),
             s\<lparr>en_db := ss_db t, en_mem := (en_mem s)(i := ss_auctions t), en_obs := ss_obs t\<rparr>)))"

definition shard_ok :: "shard_engine \<Rightarrow> bool" where
  "shard_ok s \<longleftrightarrow> db_inv (en_db s) \<and> capped (en_db s) \<and>
     (\<forall>i. coherent (en_mem s i) (en_db s)) \<and>
     (\<forall>i x. en_mem s i x \<noteq> None \<longrightarrow> i = shardFor x numShards)"

definition shard_good :: "shard_env \<Rightarrow> bid_request \<Rightarrow> shard_engine \<Rightarrow> bool" where
  "shard_good e r s \<longleftrightarrow> decide_ok (se_decide e) (command_of e r) \<and>
     int (length (db_bids (en_db s))) < 2 ^ 63 - 2"

definition shard_calm :: "shard_env \<Rightarrow> bid_request \<Rightarrow> shard_engine \<Rightarrow> bool" where
  "shard_calm e r s \<longleftrightarrow>
     \<not> se_cancelled e \<and> de_fault (se_decide e) = NoFault \<and> co_fault (se_commit e) = NoFault \<and>
     0 <s req_amount r \<and> de_bid_id (se_decide e) \<notin> set (map b_id (db_bids (en_db s))) \<and>
     \<not> key_taken (en_db s) (nullif_empty (req_key r)) \<and>
     (case fst (sh_state_of (se_decide e) (command_of e r)
              (shard_of s (shardFor (req_auction r) numShards))) of
        None \<Rightarrow> True
      | Some m \<Rightarrow> \<not> is_closed (ma_state m) (ma_now m (de_now (se_decide e))))"

lemma shard_of_simps [simp]:
  "ss_db (shard_of s i) = en_db s" "ss_auctions (shard_of s i) = en_mem s i"
  "ss_replies (shard_of s i) = []" "cmd_req (command_of e r) = r"
  by (simp_all add: shard_of_def command_of_def)

text \<open>The ways a call can end, over the shard the auction routes to.\<close>

lemma shard_PlaceBid_sound:
  assumes ok: "shard_ok s" and good: "shard_good e r s"
  shows "sound (\<lambda>_. se_commit e) (en_db s) [] [Arrive (se_decide e) (command_of e r) False]
    (shard_of s (shardFor (req_auction r) numShards))"
proof -
  have "settling (\<lambda>_. se_commit e) [] [Arrive (se_decide e) (command_of e r) False]"
    unfolding settling_def by (intro disjI2 exI [of _ "[]"]) simp
  with ok good show ?thesis by (simp add: sound_def shard_ok_def shard_good_def)
qed

lemma shard_PlaceBid_cases:
  assumes ok: "shard_ok s" and good: "shard_good e r s" and p: "shard_PlaceBid e r s = (res, s')"
  obtains (error) err where "res = Inl err" "en_db s' = en_db s"
  | (missing) "res = Inr (bare_result NotFound)" "en_db s' = en_db s"
      "find_auction (en_db s) (req_auction r) = None"
  | (refused) oc m a where "res = Inr (rejected oc (ma_state m))" "oc \<in> {Closed, TooLow}" "en_db s' = en_db s"
      "find_auction (en_db s) (req_auction r) = Some a" "agrees m a"
      "oc = TooLow \<longrightarrow> req_amount r <s min_next_bid (ma_state m)"
      "oc = Closed \<longrightarrow> is_closed (ma_state m) (ma_now m (de_now (se_decide e)))"
      "fst (sh_state_of (se_decide e) (command_of e r) (shard_of s (shardFor (req_auction r) numShards))) = Some m"
  | (written) q a where "next_bid_ok (en_db s) a (row_of q)" "en_db s' = apply_bid a (row_of q) (en_db s)"
      "pb_auction q = req_auction r" "pb_user q = req_user r" "pb_amount q = req_amount r"
      "pb_key q = req_key r" "res = Inr (confirmed q) \<or> isl res"
      "st_version (pb_current q) = pb_seq q" "st_highest (pb_current q) = pb_amount q"
      "st_min_inc (pb_current q) = a_min_inc a"
proof (cases "se_cancelled e")
  case True
  with p show ?thesis by (intro error [of CtxError]) (simp_all add: shard_PlaceBid_def)
next
  case False
  let ?t = "shard_of s (shardFor (req_auction r) numShards)" and ?c = "command_of e r"
  obtain o' t where d: "sh_decide (se_decide e) ?c ?t = (o', t)" by fastforce
  have inv: "db_inv (en_db s)" using ok by (simp add: shard_ok_def)
  have coh: "coherent (ss_auctions ?t) (journal [] (ss_db ?t))" using ok by (simp add: shard_ok_def)
  have n: "int (length (db_bids (en_db s))) < 2 ^ 63 - 1" and dok: "decide_ok (se_decide e) ?c"
    using good by (simp_all add: shard_good_def)
  have sane: "sane (int (length (db_bids (en_db s)))) (journal [] (ss_db ?t))"
    using ok by (simp add: shard_ok_def sane_db)
  show ?thesis
  proof (cases o')
    case None
    have t: "ss_db t = en_db s" using d None by (elim sh_decide_cases) auto
    have res: "res = snd (hd (ss_replies t))" "en_db s' = en_db s"
      using p False d None t by (auto simp: shard_PlaceBid_def Let_def)
    have "ss_replies ?t = []" by simp
    from sh_decide_None_reply [OF d [unfolded None] this] show ?thesis
    proof (elim disjE exE conjE, goal_cases)
      case (1 err)
      with res show ?case by (intro error [of err]) auto
    next
      case 2
      with res show ?case by (intro missing) auto
    next
      case (3 m s1 oc)
      obtain a where a: "find_auction (en_db s) (req_auction r) = Some a" "agrees m a"
        using sh_state_of_coherent(1) [OF 3(1) coh] by auto
      show ?case
        by (rule refused [of oc m a]) (use 3 a res in auto)
    qed
  next
    case (Some q)
    note nx = sh_decide_next(3) [OF d dok coh _ sane n, of q]
    have t: "ss_db t = en_db s" "pb_auction q = req_auction r" "pb_user q = req_user r"
      "pb_amount q = req_amount r" "pb_key q = req_key r" "ss_replies t = []"
      using d Some by (elim sh_decide_cases, simp_all)+
    have cur: "st_version (pb_current q) = pb_seq q" "st_highest (pb_current q) = pb_amount q"
      using d Some by (auto simp: sh_decide_def Let_def split: option.splits prod.splits if_splits)
    let ?u = "sh_commit (se_commit e) [q] t"
    have res: "res = snd (hd (ss_replies ?u))" "en_db s' = ss_db ?u"
      using p False d Some by (auto simp: shard_PlaceBid_def Let_def sh_run_single)
    have reply: "res = Inr (confirmed q) \<or> isl res"
      using res(1) t(6) by (auto simp: sh_commit_eq Let_def split: prod.splits sum.splits)
    show ?thesis
    proof (cases rule: sh_commit_cases [of "se_commit e" "[q]" t])
      case (written u)
      from commit_one [OF written [unfolded t(1)] _ inv] nx Some obtain a where
        a: "next_bid_ok (en_db s) a (row_of q)" "ss_db ?u = apply_bid a (row_of q) (en_db s)"
        by auto
      obtain m s1 where m: "sh_state_of (se_decide e) ?c ?t = (Some m, s1)"
          "st_min_inc (pb_current q) = st_min_inc (ma_state m)"
        using d Some by (auto simp: sh_decide_def Let_def split: option.splits prod.splits if_splits)
      have "find_auction (en_db s) (req_auction r) = Some a"
        using a(1) t(2) by (simp add: next_bid_ok_def)
      then have "st_min_inc (pb_current q) = a_min_inc a"
        using sh_state_of_coherent(1) [OF m(1) coh] m(2) by (auto simp: agrees_def)
      from that(4) [OF a(1) _ t(2-5) reply cur this] a(2) res(2) show ?thesis by simp
    next
      case unwritten
      then obtain err where "ss_replies ?u = [(pb_cmd q, Inl err)]" using t(6) by auto
      with res unwritten(1) t(1) show ?thesis by (intro that(1) [of err]) auto
    qed
  qed
qed

lemma shard_PlaceBid_ok:
  assumes ok: "shard_ok s" and good: "shard_good e r s"
  shows "shard_ok (snd (shard_PlaceBid e r s))" "evolves (en_db s) (en_db (snd (shard_PlaceBid e r s)))"
proof -
  let ?i = "shardFor (req_auction r) numShards" and ?es = "[Arrive (se_decide e) (command_of e r) False]"
  let ?t = "sh_run (\<lambda>_. se_commit e) ?es (shard_of s ?i)"
  have snd: "sound (\<lambda>_. se_commit e) (en_db s) [] [] ?t"
    using refines.run_keeps [OF shard_PlaceBid_sound [OF ok good]] .
  then have t: "db_inv (ss_db ?t)" "evolves (en_db s) (ss_db ?t)" "capped (ss_db ?t)"
      "coherent (ss_auctions ?t) (ss_db ?t)"
    by (simp_all add: sound_def)
  have routed: "ss_auctions ?t x = en_mem s ?i x" if "x \<noteq> req_auction r" for x
    using that
    by (auto simp: sh_run_single sh_decide_def sh_state_of_def Let_def sh_commit_eq command_of_def
        split: option.splits prod.splits sum.splits if_splits)
  have other: "coherent (en_mem s i) (ss_db ?t)" if i: "i \<noteq> ?i" for i
  proof -
    obtain res s' where p: "shard_PlaceBid e r s = (res, s')" by fastforce
    have coh: "coherent (en_mem s i) (en_db s)" and away: "en_mem s i (req_auction r) = None"
      using ok i unfolding shard_ok_def by blast+
    show ?thesis
    proof (cases "se_cancelled e")
      case False
      then have db: "en_db s' = ss_db ?t" using p by (auto simp: shard_PlaceBid_def Let_def)
      from ok good p show ?thesis
      proof (cases rule: shard_PlaceBid_cases)
        case (written q a)
        then show ?thesis
          using coh away db by (auto simp: coherent_def find_apply_bid next_bid_ok_def)
      qed (use coh db in simp_all)
    next
      case True
      let ?e = "e\<lparr>se_cancelled := False\<rparr>"
      obtain res s' where p: "shard_PlaceBid ?e r s = (res, s')" by fastforce
      then have db: "en_db s' = ss_db ?t"
        by (auto simp: shard_PlaceBid_def Let_def command_of_def)
      have good': "shard_good ?e r s" using good by (simp add: shard_good_def command_of_def)
      from ok good' p show ?thesis
      proof (cases rule: shard_PlaceBid_cases)
        case (written q a)
        then show ?thesis
          using coh away db by (auto simp: coherent_def find_apply_bid next_bid_ok_def)
      qed (use coh db in simp_all)
    qed
  qed
  show "evolves (en_db s) (en_db (snd (shard_PlaceBid e r s)))"
    using t(2) by (simp add: shard_PlaceBid_def Let_def)
  have home: "i = shardFor x numShards" if "en_mem s i x \<noteq> None" for i x
    using that ok unfolding shard_ok_def by blast
  have routing: "\<forall>i x. ((en_mem s)(?i := ss_auctions ?t)) i x \<noteq> None \<longrightarrow> i = shardFor x numShards"
  proof (intro allI impI)
    fix i x
    assume h: "((en_mem s)(?i := ss_auctions ?t)) i x \<noteq> None"
    show "i = shardFor x numShards"
    proof (cases "i = ?i \<and> x = req_auction r")
      case False
      with h routed [of x] have "en_mem s i x \<noteq> None" by (cases "i = ?i") auto
      then show ?thesis by (rule home)
    qed simp
  qed
  have "\<forall>i. coherent (((en_mem s)(?i := ss_auctions ?t)) i) (ss_db ?t)"
    using t(4) other by simp
  note mem = this
  let ?s = "s\<lparr>en_db := ss_db ?t, en_mem := (en_mem s)(?i := ss_auctions ?t), en_obs := ss_obs ?t\<rparr>"
  have fields: "en_db ?s = ss_db ?t" "en_mem ?s = (en_mem s)(?i := ss_auctions ?t)" by simp_all
  have "shard_ok ?s"
    unfolding shard_ok_def fields by (intro conjI t(1,3) mem routing)
  moreover have "snd (shard_PlaceBid e r s) = (if se_cancelled e then s else ?s)"
    by (simp only: shard_PlaceBid_def Let_def split: if_split) simp
  ultimately show "shard_ok (snd (shard_PlaceBid e r s))" using ok by simp
qed

lemma agrees_rejected:
  "agrees m a \<Longrightarrow> st_version (ma_state m) = a_version a \<and> st_highest (ma_state m) = a_highest a \<and>
     st_min_inc (ma_state m) = a_min_inc a"
  by (simp add: agrees_def)

lemma shard_PlaceBid_outcome:
  assumes "shard_PlaceBid e r s = (Inr res, s')"
  shows "named_outcome (res_outcome res) \<and> res_outcome res \<noteq> Invalid \<and> res_outcome res \<noteq> Conflict \<and>
    (res_outcome res = NotFound \<longrightarrow> res_current res = zero_state)"
proof -
  let ?t = "shard_of s (shardFor (req_auction r) numShards)" and ?c = "command_of e r"
  obtain o' t where d: "sh_decide (se_decide e) ?c ?t = (o', t)" by fastforce
  have nc: "\<not> se_cancelled e" using assms by (auto simp: shard_PlaceBid_def)
  show ?thesis
  proof (cases o')
    case None
    with assms nc d have res: "Inr res = snd (hd (ss_replies t))"
      by (auto simp: shard_PlaceBid_def Let_def)
    have "ss_replies ?t = []" by simp
    from sh_decide_None_reply [OF d [unfolded None] this] res show ?thesis by auto
  next
    case (Some q)
    have "ss_replies t = []" using d Some by (elim sh_decide_cases) auto
    with assms nc d Some show ?thesis
      by (auto simp: shard_PlaceBid_def Let_def sh_run_single sh_commit_eq confirmed_def
          split: prod.splits sum.splits)
  qed
qed

lemma shard_PlaceBid_lands:
  assumes ok: "shard_ok s" and room: "int (length (db_bids (en_db s))) < 2 ^ 63 - 2" and calm: "shard_calm e r s"
    and a: "find_auction (en_db s) (req_auction r) = Some a"
    and inc: "sint (a_highest a) + sint (a_min_inc a) \<le> sint (req_amount r)"
  shows "\<exists>res s' q m. shard_PlaceBid e r s = (Inr res, s') \<and> res_outcome res = Accepted \<and>
    en_db s' = apply_bid a (row_of q) (en_db s) \<and> pb_auction q = req_auction r \<and>
    fst (sh_state_of (se_decide e) (command_of e r) (shard_of s (shardFor (req_auction r) numShards))) = Some m \<and>
    pb_created_at q = ma_now m (de_created_now (se_decide e))"
proof -
  let ?t = "shard_of s (shardFor (req_auction r) numShards)" and ?c = "command_of e r"
  have inv: "db_inv (en_db s)" and cap: "capped (en_db s)" and coh: "coherent (ss_auctions ?t) (journal [] (ss_db ?t))"
    using ok by (simp_all add: shard_ok_def)
  have env: "\<not> se_cancelled e" "de_fault (se_decide e) = NoFault" "co_fault (se_commit e) = NoFault" "0 <s req_amount r"
      "de_bid_id (se_decide e) \<notin> set (map b_id (db_bids (en_db s)))" "\<not> key_taken (en_db s) (nullif_empty (req_key r))"
    using calm by (simp_all add: shard_calm_def)
  have "fst (sh_state_of (se_decide e) ?c ?t) \<noteq> None"
  proof (cases "ss_auctions ?t (req_auction r)")
    case None
    have "\<exists>m. hydrate (se_decide e) (req_auction r) (ss_db ?t) = Inr m"
      using a env(2) by (simp add: hydrate_def hydrateQuery_def run_select_state Let_def)
    with None show ?thesis by (auto simp: sh_state_of_def Let_def)
  qed (simp add: sh_state_of_def Let_def)
  then obtain m s1 where st: "sh_state_of (se_decide e) ?c ?t = (Some m, s1)"
    by (cases "sh_state_of (se_decide e) ?c ?t") auto
  have open': "\<not> is_closed (ma_state m) (ma_now m (de_now (se_decide e)))"
    using calm st by (simp add: shard_calm_def)
  have ag: "agrees m a" using sh_state_of_coherent(1) [OF st coh] a by auto
  note row = sane_db [OF inv cap, unfolded sane_def, rule_format, OF a]
  have "sint (min_next_bid (ma_state m)) = sint (a_highest a) + sint (a_min_inc a)"
    using ag row by (subst sint_min_next_bid) (auto simp: agrees_def money_cap_def)
  then have "\<not> req_amount r <s min_next_bid (ma_state m)" using inc by (simp add: sless_iff_sint)
  with st open' obtain q t where d: "sh_decide (se_decide e) ?c ?t = (Some q, t)"
      "pb_seq q = a_version a + 1" "pb_key q = req_key r" "pb_bid_id q = de_bid_id (se_decide e)"
      "pb_auction q = req_auction r" "pb_amount q = req_amount r"
      "pb_created_at q = ma_now m (de_created_now (se_decide e))"
    using ag by (auto simp: sh_decide_def Let_def agrees_def ma_now_def)
  have t: "ss_db t = en_db s" "ss_replies t = []" using d(1) by (elim sh_decide_cases, simp_all)+
  have seq: "sint (a_version a + 1) = sint (a_version a) + 1"
    using row room sint_range [of "a_version a"] by (subst sint_add_in_range) auto
  have "bid_violation (en_db s) (row_of q) = None"
    using env d a next_seq_is_free [OF inv a seq] by (auto simp: bid_violation_def)
  from commit_one_lands [OF inv _ this, of a] a d(5)
  have "commitBatch (co_pick (se_commit e)) [q] (ss_db t) = Inr ((), apply_bid a (row_of q) (en_db s))"
    by (simp add: t)
  then have out: "ss_replies (sh_commit (se_commit e) [q] t) = [(pb_cmd q, Inr (confirmed q))]"
    "ss_db (sh_commit (se_commit e) [q] t) = apply_bid a (row_of q) (en_db s)"
    using env(3) t(2) by (simp_all add: sh_commit_eq Let_def run_stmt_def)
  show ?thesis
    by (rule exI [of _ "confirmed q"], rule exI [of _ "snd (shard_PlaceBid e r s)"],
        rule exI [of _ q], rule exI [of _ m])
      (use env(1) d st out in \<open>simp add: shard_PlaceBid_def Let_def sh_run_single confirmed_def\<close>)
qed

interpretation shard: responsive_engine shard_PlaceBid en_db shard_ok shard_good "\<lambda>e d. d" shard_calm
proof unfold_locales
  fix s assume "shard_ok s"
  then show "db_inv (en_db s)" by (simp add: shard_ok_def)
next
  fix s e r assume "shard_ok s" "shard_good e r s"
  then show "shard_ok (snd (shard_PlaceBid e r s))"
    "evolves (en_db s) (en_db (snd (shard_PlaceBid e r s)))"
    by (rule shard_PlaceBid_ok)+
next
  fix e r s res s' assume p: "shard_PlaceBid e r s = (Inr res, s')"
  then show "named_outcome (res_outcome res)" using shard_PlaceBid_outcome by blast
  assume "res_outcome res \<in> {NotFound, Invalid}"
  with shard_PlaceBid_outcome [OF p] show "res_current res = zero_state" by auto
next
  fix s e r res s'
  assume env: "shard_ok s" "shard_good e r s" and p: "shard_PlaceBid e r s = (Inr res, s')"
    and acc: "res_outcome res = Accepted"
  from env p show "\<exists>a b. next_bid_ok (en_db s) a b \<and> en_db s' = apply_bid a b (en_db s) \<and>
        b_auction b = req_auction r \<and> b_user b = req_user r \<and> b_amount b = req_amount r \<and>
        b_key b = nullif_empty (req_key r) \<and> b_id b = res_bid_id res \<and> b_seq b = res_seq res \<and>
        st_version (res_current res) = res_seq res \<and> st_highest (res_current res) = req_amount r \<and>
        st_min_inc (res_current res) = a_min_inc a"
  proof (cases rule: shard_PlaceBid_cases)
    case (written q a)
    then show ?thesis by (intro exI [of _ a] exI [of _ "row_of q"]) (auto simp: confirmed_def)
  next
    case (refused oc m a)
    then show ?thesis using acc by auto
  qed (use acc in auto)
next
  fix s e r res s'
  assume env: "shard_ok s" "shard_good e r s" and p: "shard_PlaceBid e r s = (Inr res, s')"
    and rej: "res_outcome res \<noteq> Accepted"
  from env p show "en_db s' = en_db s \<or> en_db s' = en_db s"
    by (cases rule: shard_PlaceBid_cases) (use rej in \<open>auto simp: confirmed_def\<close>)
next
  fix s e r res s'
  assume env: "shard_ok s" "shard_good e r s" and p: "shard_PlaceBid e r s = (Inr res, s')"
    and rej: "res_outcome res \<in> {Conflict, TooLow, Closed}"
  from env p show "\<exists>a. find_auction (en_db s') (req_auction r) = Some a \<and>
        st_version (res_current res) = a_version a \<and> st_highest (res_current res) = a_highest a \<and>
        st_min_inc (res_current res) = a_min_inc a"
    by (cases rule: shard_PlaceBid_cases) (use rej in \<open>auto simp: confirmed_def dest: agrees_rejected\<close>)
next
  fix s e r a
  assume "shard_ok s" "shard_good e r s" "shard_calm e r s"
    "find_auction (en_db s) (req_auction r) = Some a"
    "sint (a_highest a) + sint (a_min_inc a) \<le> sint (req_amount r)"
  then show "\<exists>res s'. shard_PlaceBid e r s = (Inr res, s') \<and> res_outcome res = Accepted"
    using shard_PlaceBid_lands [of s e r a] by (auto simp: shard_good_def)
qed

section \<open>Several bids of one auction in a batch\<close>

text \<open>The accepts of one auction in a batch carry consecutive sequence numbers.\<close>

lemma batch_versions:
  assumes "batch_ok ps d" and "find_auction d x = Some a"
  shows "(\<forall>b. find_auction (journal ps d) x = Some b \<longrightarrow>
      sint (a_version b) = sint (a_version a) + int (length (matches ps x))) \<and>
    (\<forall>i < length (matches ps x). sint (pb_seq (matches ps x ! i)) = sint (a_version a) + int i + 1)"
  using assms
proof (induction ps rule: rev_induct)
  case (snoc p ps)
  then have ok: "batch_ok ps d" and nx: "next_pending_ok (journal ps d) p" by (simp_all add: batch_ok_snoc)
  note ih = snoc.IH [OF ok snoc.prems(2)]
  show ?case
  proof (cases "pb_auction p = x")
    case True
    then obtain b where b: "find_auction (journal ps d) x = Some b" "sint (pb_seq p) = sint (a_version b) + 1"
      using nx by (auto simp: next_pending_ok_def)
    with ih have "sint (pb_seq p) = sint (a_version a) + int (length (matches ps x)) + 1" by simp
    with ih b True show ?thesis by (auto simp: find_post nth_append less_Suc_eq)
  next
    case False
    with ih show ?thesis by (auto simp: find_post)
  qed
qed simp

lemma find_updated:
  assumes "commitBatch pick batch d = Inr (u, d')" and "find_auction d x = Some a"
  shows "find_auction d' x = Some (updated pick batch a)"
proof -
  have "a_id (updated pick batch r) = a_id r" for r
    by (simp add: updated_def Let_def)
  then have "find_auction d' x = map_option (updated pick batch) (find_auction d x)"
    unfolding find_auction_def commitBatch_InrD(2) [OF assms(1)] by (simp add: find_map_key)
  with assms(2) show ?thesis by simp
qed

lemma bids_of_batch: "filter (\<lambda>b. b_auction b = x) (map row_of batch) = map row_of (matches batch x)"
  by (induction batch) (auto simp: matches_def)

section \<open>A jammed auction\<close>

text \<open>
  The row is behind its history: the next sequence number is already taken. \<open>stuck\<close> is what any
  goroutine that does not remember the auction keeps true from there on.
\<close>

definition behind :: "db \<Rightarrow> uuid \<Rightarrow> i64 \<Rightarrow> bool" where
  "behind d x v \<longleftrightarrow> (\<exists>a. find_auction d x = Some a \<and> a_version a = v) \<and>
     list_ex (\<lambda>b. b_auction b = x \<and> b_seq b = v + 1) (db_bids d)"

definition stuck_mem :: "i64 \<Rightarrow> pending_bid list \<Rightarrow> mem_auction option \<Rightarrow> bool" where
  "stuck_mem v ms mo \<longleftrightarrow>
     (case ms of
        [] \<Rightarrow> (\<forall>m. mo = Some m \<longrightarrow> st_version (ma_state m) = v)
      | p # _ \<Rightarrow> pb_seq p = v + 1 \<and> mo \<noteq> None)"

lemma stuck_mem_simps [simp]:
  "stuck_mem v [] mo \<longleftrightarrow> (\<forall>m. mo = Some m \<longrightarrow> st_version (ma_state m) = v)"
  "stuck_mem v (p # ps) mo \<longleftrightarrow> pb_seq p = v + 1 \<and> mo \<noteq> None"
  by (simp_all add: stuck_mem_def)

definition stuck :: "uuid \<Rightarrow> i64 \<Rightarrow> pending_bid list \<Rightarrow> event list \<Rightarrow> shard \<Rightarrow> bool" where
  "stuck x v batch es s \<longleftrightarrow>
     behind (ss_db s) x v \<and> list_all aligned batch \<and>
     stuck_mem v (matches batch x) (ss_auctions s x) \<and>
     list_all (\<lambda>(c, r). req_auction (cmd_req c) = x \<longrightarrow> \<not> is_accepted r) (ss_replies s)"

lemma insert_bids_taken:
  "p \<in> set ps \<Longrightarrow> b \<in> set (db_bids d) \<Longrightarrow> b_auction b = pb_auction p \<Longrightarrow> b_seq b = pb_seq p \<Longrightarrow>
   \<exists>e. insert_bids (map row_of ps) d = Inl e"
proof (induction ps arbitrary: d)
  case (Cons q ps)
  show ?case
  proof (cases "insert_bid (row_of q) d")
    case (Inr d1)
    have "q \<noteq> p"
      using bid_violation_NoneD(3) [OF insert_bid_InrD(2) [OF Inr]] Cons.prems(2-4) by force
    moreover have "b \<in> set (db_bids d1)" using insert_bid_InrD(1) [OF Inr] Cons.prems(2) by simp
    ultimately show ?thesis using Cons.IH [of d1] Cons.prems Inr by auto
  qed simp
qed simp

lemma behind_mono:
  "behind d x v \<Longrightarrow> find_auction d' x = Some a \<Longrightarrow> a_version a = v \<Longrightarrow> db_bids d' = db_bids d @ bs \<Longrightarrow> behind d' x v"
  by (auto simp: behind_def)

lemma stuck_commit:
  assumes s: "stuck x v batch es s"
  shows "stuck x v [] es (sh_commit ce batch s)"
proof (cases "matches batch x")
  case Nil
  have al: "req_auction (cmd_req (pb_cmd p)) \<noteq> x" if "p \<in> set batch" for p
    using s Nil that by (auto simp: stuck_def aligned_def list_all_iff matches_def filter_empty_conv)
  have "behind (ss_db (sh_commit ce batch s)) x v"
  proof (cases rule: sh_commit_cases [of ce batch s])
    case (written u)
    from s obtain a where a: "find_auction (ss_db s) x = Some a" "a_version a = v"
      by (auto simp: stuck_def behind_def)
    have "updated (co_pick ce) batch a = a"
      using Nil find_auction_id [OF a(1)] by (simp add: updated_def)
    with find_updated [OF written a(1)] s a(2) commitBatch_InrD(1) [OF written] show ?thesis
      by (auto simp: stuck_def intro: behind_mono)
  next
    case unwritten
    with s show ?thesis by (simp add: stuck_def)
  qed
  with s Nil show ?thesis
    by (auto simp: stuck_def sh_commit_eq Let_def list_all_iff dest: al split: prod.splits sum.splits if_splits)
next
  case (Cons p ps)
  then have p: "p \<in> set batch" "pb_auction p = x"
    by (auto simp: matches_def dest!: filter_eq_ConsD)
  from s Cons obtain b where b: "b \<in> set (db_bids (ss_db s))" "b_auction b = x" "b_seq b = pb_seq p"
    by (auto simp: stuck_def behind_def list_ex_iff)
  obtain err where "insert_bids (map row_of batch) (ss_db s) = Inl err"
    using insert_bids_taken [OF p(1) b(1)] b p(2) by auto
  then have c: "commitBatch (co_pick ce) batch (ss_db s) = Inl err" by (simp add: commitBatch_def)
  then obtain err' where "run_stmt (co_fault ce) (commitBatch (co_pick ce) batch) (ss_db s) = (Inl err', ss_db s)"
    by (cases "co_fault ce") (simp_all add: run_stmt_def)
  with s p show ?thesis
    by (auto simp: stuck_def sh_commit_eq Let_def list_all_iff)
qed

lemma stuck_decide:
  assumes s: "stuck x v batch (Arrive e c late # es) s" and d: "sh_decide e c s = (p, s')"
  shows "stuck x v (decided batch p) es s'"
proof -
  have s1: "behind (ss_db s) x v" "list_all aligned batch"
      "list_all (\<lambda>(c, r). req_auction (cmd_req c) = x \<longrightarrow> \<not> is_accepted r) (ss_replies s)"
    using s by (simp_all add: stuck_def)
  have hyd: "st_version (ma_state m) = v" if "hydrate e x (ss_db s) = Inr m" for m
    using that s1(1)
    by (auto simp: hydrate_def hydrateQuery_def run_select_state behind_def Let_def
        split: fault.splits option.splits sum.splits)
  show ?thesis
  proof (cases "req_auction (cmd_req c) = x")
    case False
    have mem: "ss_auctions s' x = ss_auctions s x"
      using d False
      by (auto simp: sh_decide_def sh_state_of_def Let_def split: option.splits sum.splits prod.splits if_splits)
    from d show ?thesis
    proof (cases rule: sh_decide_cases)
      case answered
      with s s1 mem show ?thesis by (auto simp: stuck_def)
    next
      case (accepted q)
      with s s1 mem False show ?thesis by (auto simp: stuck_def aligned_def)
    qed
  next
    case True
    have mem: "(\<forall>m. ss_auctions s' x = Some m \<longrightarrow> st_version (ma_state m) = v) \<and> p = None \<or>
        (\<exists>q. p = Some q \<and> pb_seq q = v + 1 \<and> ss_auctions s' x \<noteq> None)" if "matches batch x = []"
      using d True hyd s that
      by (auto simp: stuck_def sh_decide_def sh_state_of_def Let_def
          split: option.splits sum.splits prod.splits if_splits)
    have kept: "ss_auctions s' x \<noteq> None" if "ss_auctions s x \<noteq> None"
      using d that
      by (auto simp: sh_decide_def sh_state_of_def Let_def split: option.splits sum.splits prod.splits if_splits)
    from d show ?thesis
    proof (cases rule: sh_decide_cases)
      case answered
      with s s1 mem kept show ?thesis by (cases "matches batch x") (auto simp: stuck_def)
    next
      case (accepted q)
      with s s1 mem kept True show ?thesis
        by (cases "matches batch x") (auto simp: stuck_def aligned_def)
    qed
  qed
qed

interpretation jam: shard_invariant ce "stuck x v" for ce x v
proof unfold_locales
  fix batch e c late es s p s'
  assume "stuck x v batch (Arrive e c late # es) s" "sh_decide e c s = (p, s')"
  then show "stuck x v (decided batch p) es s'" by (rule stuck_decide)
next
  fix batch es s n
  assume "stuck x v batch es s"
  then show "stuck x v [] es (sh_commit (ce n) batch s)" by (rule stuck_commit)
next
  fix batch y t es s
  assume s: "stuck x v batch (Stamp y t # es) s"
  then have "behind (stamped y t (ss_db s)) x v"
    by (auto simp: stuck_def behind_def stamped_def find_closed_row split: option.splits)
  with s show "stuck x v batch es (s\<lparr>ss_db := stamped y t (ss_db s)\<rparr>)" by (simp add: stuck_def)
next
  fix batch a es s
  assume s: "stuck x v batch (Create a # es) s"
  then have "behind (created a (ss_db s)) x v"
    by (auto simp: stuck_def behind_def created_def row_simps split: option.splits)
  with s show "stuck x v batch es (s\<lparr>ss_db := created a (ss_db s)\<rparr>)" by (simp add: stuck_def)
qed (simp_all add: stuck_def)

section \<open>Properties\<close>

text \<open>
  The single writer refines the ledger, for every schedule of commands, gaps,
  closings and creations and for any faults, when no auction is bid on twice between two moments
  of an empty inbox, or when the UPDATE takes the last of several matches: the database only takes
  steps of the abstract specification, keeps its invariants, and the memory is never ahead of it.
  Prices are at most \<open>money_cap\<close> and the clock does not advance within a decision.
\<close>

theorem shard_refines_ledger:
  assumes "db_inv d" and "capped d" and "list_all event_ok es"
    and "int (length (db_bids d) + length es) < 2 ^ 63 - 1"
    and "(\<forall>n. co_pick (ce n) = (\<lambda>x k. k - 1)) \<or> singly [] es"
  shows "evolves d (ss_db (sh_run ce es (fresh_shard d))) \<and> db_inv (ss_db (sh_run ce es (fresh_shard d))) \<and>
    coherent (ss_auctions (sh_run ce es (fresh_shard d))) (ss_db (sh_run ce es (fresh_shard d)))"
proof -
  have "settling ce [] es" using assms(5) by (auto simp: settling_def intro: exI [of _ "[]"])
  then have "sound ce d [] es (fresh_shard d)"
    using assms by (simp add: sound_def fresh_shard_def coherent_def)
  from refines.run_keeps [OF this] show ?thesis by (simp add: sound_def)
qed

theorem shard_refines_ledger_witness:
  "evolves sample_db (ss_db (sh_run sample_commit
     [Arrive (sample_decide_env 9) (sample_command 7 100) False, Gap,
      Arrive (sample_decide_env 10) (sample_command 8 200) False] (fresh_shard sample_db)))"
proof -
  have "capped sample_db" by (simp add: capped_def sample_db_def sample_row_def money_cap_def)
  with shard_refines_ledger [OF sample_inv, of "[Arrive (sample_decide_env 9) (sample_command 7 100) False, Gap,
      Arrive (sample_decide_env 10) (sample_command 8 200) False]" sample_commit] show ?thesis
    by (simp add: decide_ok_def sample_command_def sample_decide_env_def sample_request_def money_cap_def
        sample_db_def)
qed

text \<open>
  Claim C12. The batch does need to deduplicate. When a batch holds several accepted bids of
  one auction and the UPDATE takes any match but the last, the statement succeeds, every bid of
  the batch is recorded, and the row is left behind its own history: its version is smaller than
  the number of its bids, the next sequence number is taken, and the invariant is broken.
\<close>

theorem shard_batch_loses_the_top:
  assumes inv: "db_inv d" and ok: "batch_ok batch d" and a: "find_auction d x = Some a"
    and c: "commitBatch pick batch d = Inr (u, d')"
    and stale: "pick x (length (matches batch x)) mod length (matches batch x) + 1 < length (matches batch x)"
  shows "\<exists>a'. find_auction d' x = Some a' \<and> sint (a_version a') < int (length (bids_of d' x)) \<and>
    behind d' x (a_version a') \<and> \<not> history_ok d'"
proof -
  let ?ms = "matches batch x"
  let ?k = "pick x (length ?ms) mod length ?ms"
  have id: "a_id a = x" using find_auction_id [OF a] .
  have ne: "?ms \<noteq> []" using stale by auto
  let ?a = "updated pick batch a"
  have up: "?a = raised a (pb_amount (?ms ! ?k)) (pb_user (?ms ! ?k)) (pb_seq (?ms ! ?k))"
    using ne id by (simp add: updated_def Let_def)
  note seqs = batch_versions [OF ok a]
  have v: "sint (a_version ?a) = sint (a_version a) + int ?k + 1"
    using seqs stale up by auto
  have len: "length (bids_of d' x) = length (bids_of d x) + length ?ms"
    using commitBatch_InrD(1) [OF c] bids_of_batch [of x batch] by (simp add: bids_of_def)
  have less: "sint (a_version ?a) < int (length (bids_of d' x))"
    using v len version_is_length [OF inv a] stale by simp
  have row: "find_auction d' x = Some ?a" using find_updated [OF c a] .
  have next': "sint (pb_seq (?ms ! Suc ?k)) = sint (a_version ?a) + 1"
    using seqs stale v by auto
  then have "pb_seq (?ms ! Suc ?k) = a_version ?a + 1"
    using sint_range [of "pb_seq (?ms ! Suc ?k)"] sint_range [of "a_version ?a"]
    by (intro i64_eqI) (subst sint_add_in_range, auto)
  moreover have "?ms ! Suc ?k \<in> set ?ms" using stale by simp
  then have "row_of (?ms ! Suc ?k) \<in> set (db_bids d')" "b_auction (row_of (?ms ! Suc ?k)) = x"
    using commitBatch_InrD(1) [OF c] by (auto simp: matches_def)
  ultimately have "behind d' x (a_version ?a)"
    using row by (auto simp: behind_def list_ex_iff intro!: bexI [of _ "row_of (?ms ! Suc ?k)"])
  moreover have "\<not> history_ok d'"
  proof
    assume "history_ok d'"
    then have "auction_history ?a (bids_of d' (a_id ?a))"
      using find_auction_mem [OF row] by (simp add: history_ok_def list_all_iff)
    then show False using less find_auction_id [OF row] by (simp add: auction_history_def)
  qed
  ultimately show ?thesis using row less by blast
qed

definition crowded :: "event list" where
  "crowded = [Arrive (sample_decide_env 9) (sample_command 7 100) False,
     Arrive (sample_decide_env 10) (sample_command 8 200) False]"

definition crowded_batch :: "pending_bid list" where
  "crowded_batch = (let (p, s1) = sh_decide (sample_decide_env 9) (sample_command 7 100) (fresh_shard sample_db);
      (batch, es, s2) = accumulate [the p] (tl crowded) s1 in batch)"

text \<open>Two bidders on one auction, both answered with a 201 from the same batch.\<close>

theorem shard_batch_loses_the_top_witness:
  "accepted_count (map snd (ss_replies (sh_run sample_commit crowded (fresh_shard sample_db)))) = 2 \<and>
   (\<exists>d' a'. commitBatch (\<lambda>x k. 0) crowded_batch sample_db = Inr ((), d') \<and>
      ss_db (sh_run sample_commit crowded (fresh_shard sample_db)) = d' \<and>
      find_auction d' 1 = Some a' \<and> sint (a_version a') < int (length (bids_of d' 1)) \<and> \<not> history_ok d')"
proof -
  have two: "accepted_count (map snd (ss_replies (sh_run sample_commit crowded (fresh_shard sample_db)))) = 2"
    by code_simp
  have c: "commitBatch (\<lambda>x k. 0) crowded_batch sample_db
      = Inr ((), ss_db (sh_run sample_commit crowded (fresh_shard sample_db)))"
    by code_simp
  have len: "length (matches crowded_batch 1) = 2" by code_simp
  have "map (\<lambda>p. (pb_auction p, pb_seq p, pb_amount p, pb_created_at p)) crowded_batch = [(1, 1, 100, 5), (1, 2, 200, 5)]"
    by code_simp
  then obtain p q where b: "crowded_batch = [p, q]"
      "pb_auction p = 1" "pb_seq p = 1" "pb_amount p = 100" "pb_created_at p = 5"
      "pb_auction q = 1" "pb_seq q = 2" "pb_amount q = 200" "pb_created_at q = 5"
    by (auto simp: map_eq_Cons_conv)
  have ok: "batch_ok crowded_batch sample_db"
    unfolding b(1) using b(2-9) by (simp add: next_pending_ok_def find_post sample_find sample_row_def)
  from shard_batch_loses_the_top [OF sample_inv ok sample_find c] len two c show ?thesis by auto
qed



text \<open>
  Claim C30. A bid decided in time can be written after the end. The decision compares one
  reading of the corrected clock with \<^verbatim>\<open>ends_at\<close> and stamps \<^verbatim>\<open>created_at\<close> from a second one: if
  the end falls between the two, the bid is accepted, answered with a 201 and recorded after
  the end of its auction.
\<close>

theorem shard_writes_a_late_row:
  assumes ok: "shard_ok s" and room: "int (length (db_bids (en_db s))) < 2 ^ 63 - 2"
    and calm: "shard_calm e r s" and a: "find_auction (en_db s) (req_auction r) = Some a"
    and inc: "sint (a_highest a) + sint (a_min_inc a) \<le> sint (req_amount r)"
    and m: "fst (sh_state_of (se_decide e) (command_of e r)
        (shard_of s (shardFor (req_auction r) numShards))) = Some m"
    and late: "a_ends_at a < ma_now m (de_created_now (se_decide e))"
  shows "\<exists>res s'. shard_PlaceBid e r s = (Inr res, s') \<and> res_outcome res = Accepted \<and> \<not> timely_ok (en_db s')"
proof -
  obtain res s' q where p: "shard_PlaceBid e r s = (Inr res, s')" "res_outcome res = Accepted"
      "en_db s' = apply_bid a (row_of q) (en_db s)" "pb_auction q = req_auction r"
      "pb_created_at q = ma_now m (de_created_now (se_decide e))"
    using shard_PlaceBid_lands [OF ok room calm a inc] m by auto
  have "find_auction (en_db s') (req_auction r) = Some (raised a (pb_amount q) (pb_user q) (pb_seq q))"
    using a p(3,4) by (simp add: find_apply_bid)
  then have "raised a (pb_amount q) (pb_user q) (pb_seq q) \<in> set (db_auctions (en_db s'))"
    by (rule find_auction_mem)
  moreover have "row_of q \<in> set (db_bids (en_db s'))" using p(3) by simp
  ultimately have "\<not> timely_ok (en_db s')"
    using late p(4,5) find_auction_id [OF a] by (force simp: timely_ok_def list_all_iff)
  with p(1,2) show ?thesis by blast
qed

definition sample_engine :: shard_engine where
  "sample_engine = \<lparr>en_db = sample_db, en_mem = (\<lambda>_ _. None),
     en_obs = \<lparr>obs_accept = [], obs_lag = [], obs_batch = []\<rparr>\<rparr>"

definition late_env :: shard_env where
  "late_env = \<lparr>se_cancelled = False, se_started = 1,
     se_decide = \<lparr>de_fault = NoFault, de_before = 990, de_after = 992, de_db_now = 991, de_now = 999,
       de_decided_at = 1000, de_created_now = 1001, de_bid_id = 9\<rparr>,
     se_commit = sample_commit 0\<rparr>"

lemma sample_engine_ok: "shard_ok sample_engine"
  using sample_inv
  by (simp add: shard_ok_def sample_engine_def coherent_def capped_def sample_db_def sample_row_def money_cap_def)

theorem shard_writes_a_late_row_witness:
  "\<exists>res s'. shard_PlaceBid late_env (sample_request 0 100) sample_engine = (Inr res, s') \<and>
     res_outcome res = Accepted \<and> \<not> timely_ok (en_db s')"
proof -
  have calm: "shard_calm late_env (sample_request 0 100) sample_engine" by code_simp
  let ?st = "fst (sh_state_of (se_decide late_env) (command_of late_env (sample_request 0 100))
      (shard_of sample_engine (shardFor (req_auction (sample_request 0 100)) numShards)))"
  have m: "?st = Some \<lparr>ma_state = state_of_row sample_row, ma_bidder = 0, ma_skew = 0\<rparr>" by code_simp
  have a: "find_auction (en_db sample_engine) (req_auction (sample_request 0 100)) = Some sample_row"
    using sample_find by (simp add: sample_engine_def sample_request_def)
  have inc: "sint (a_highest sample_row) + sint (a_min_inc sample_row) \<le> sint (req_amount (sample_request 0 100))"
    by (simp add: sample_row_def sample_request_def)
  have late: "a_ends_at sample_row < ma_now \<lparr>ma_state = state_of_row sample_row, ma_bidder = 0, ma_skew = 0\<rparr>
      (de_created_now (se_decide late_env))"
    by (simp add: sample_row_def ma_now_def late_env_def)
  have room: "int (length (db_bids (en_db sample_engine))) < 2 ^ 63 - 2"
    by (simp add: sample_engine_def sample_db_def)
  show ?thesis
    by (rule shard_writes_a_late_row [OF sample_engine_ok room calm a inc m late])
qed

text \<open>
  What catches a second writer is the schema. If the memory has fallen behind the
  database, so that some bid of the batch carries a sequence number its auction already used, the
  statement aborts whole: nothing is written, every caller of the batch gets an error, and every
  auction of the batch is evicted, so that the next command hydrates the truth.
\<close>

theorem shard_divergence_aborts:
  assumes inv: "db_inv (ss_db s)" and a: "find_auction (ss_db s) (pb_auction p) = Some a"
    and p: "p \<in> set batch" and behind: "1 \<le> sint (pb_seq p)" "sint (pb_seq p) \<le> sint (a_version a)"
  shows "ss_db (sh_commit ce batch s) = ss_db s \<and>
    ss_auctions (sh_commit ce batch s) = (\<lambda>x. if x \<in> pb_auction ` set batch then None else ss_auctions s x) \<and>
    (\<exists>err. ss_replies (sh_commit ce batch s) = ss_replies s @ map (\<lambda>q. (pb_cmd q, Inl err)) batch)"
proof -
  let ?x = "pb_auction p"
  let ?bs = "bids_of (ss_db s) ?x"
  have "auction_history a ?bs"
    using db_invD(2) [OF inv] find_auction_mem [OF a] find_auction_id [OF a]
    by (auto simp: history_ok_def list_all_iff)
  then have dense: "map (\<lambda>b. sint (b_seq b)) ?bs = map int [1..<Suc (length ?bs)]"
    and ver: "sint (a_version a) = int (length ?bs)"
    by (auto simp: auction_history_def)
  have "sint (pb_seq p) \<in> set (map int [1..<Suc (length ?bs)])"
  proof -
    have "nat (sint (pb_seq p)) \<in> set [1..<Suc (length ?bs)]" using behind ver by auto
    then have "int (nat (sint (pb_seq p))) \<in> set (map int [1..<Suc (length ?bs)])"
      by (simp only: set_map imageI)
    then show ?thesis using behind by simp
  qed
  then obtain b where b: "b \<in> set ?bs" "b_seq b = pb_seq p"
    unfolding dense [symmetric] by (auto dest: i64_eqI)
  then obtain e where "insert_bids (map row_of batch) (ss_db s) = Inl e"
    using insert_bids_taken [OF p, of b "ss_db s"] by (auto simp: bids_of_def)
  then have "commitBatch (co_pick ce) batch (ss_db s) = Inl e" by (simp add: commitBatch_def)
  then obtain e' where "run_stmt (co_fault ce) (commitBatch (co_pick ce) batch) (ss_db s) = (Inl e', ss_db s)"
    by (cases "co_fault ce") (simp_all add: run_stmt_def)
  then show ?thesis by (auto simp: sh_commit_eq Let_def)
qed

text \<open>A goroutine that hydrated at version 0 and still believes so after another writer's bid.\<close>

definition one_bid_db :: db where
  "one_bid_db = ss_db (sh_run sample_commit [Arrive (sample_decide_env 9) (sample_command 7 100) False]
     (fresh_shard sample_db))"

definition stale_bid :: pending_bid where
  "stale_bid = the (fst (sh_decide (sample_decide_env 10) (sample_command 8 300) (fresh_shard sample_db)))"

lemma one_bid_inv: "db_inv one_bid_db"
proof -
  have "sound sample_commit sample_db [] [Arrive (sample_decide_env 9) (sample_command 7 100) False]
      (fresh_shard sample_db)"
    using sample_inv
    by (auto simp: sound_def fresh_shard_def settling_def coherent_def capped_def sample_db_def sample_row_def
        money_cap_def decide_ok_def sample_command_def sample_decide_env_def sample_request_def
        intro: exI [of _ "[]"])
  from refines.run_keeps [OF this] show ?thesis by (simp add: sound_def one_bid_db_def)
qed

theorem shard_divergence_aborts_witness:
  "ss_db (sh_commit (sample_commit 0) [stale_bid] (fresh_shard one_bid_db)) = one_bid_db \<and>
   length (db_bids one_bid_db) = 1"
proof -
  have "map_option a_version (find_auction one_bid_db (pb_auction stale_bid)) = Some 1" by code_simp
  then obtain a where a: "find_auction one_bid_db (pb_auction stale_bid) = Some a" "a_version a = 1"
    by auto
  have seq: "sint (pb_seq stale_bid) = 1" by code_simp
  have "length (db_bids one_bid_db) = 1" by code_simp
  with shard_divergence_aborts [of "fresh_shard one_bid_db" stale_bid a "[stale_bid]" "sample_commit 0"]
    one_bid_inv a seq show ?thesis by (simp add: fresh_shard_def)
qed

text \<open>
  The conformance suite passes on the three engines. For any sequence of calls in
  any good environment, on an auction opened at a non-negative price, \<open>replay\<close> accepts the history
  each engine leaves, with the auction's final version as the number of accepted bids.
\<close>

theorem engines_pass_replay:
  assumes "0 \<le> sint start"
  shows "(db_inv d \<and> opened d x start inc \<and> good_run optimistic_PlaceBid opt_good oes d \<longrightarrow>
      replays (snd (run_requests optimistic_PlaceBid oes d)) x start inc) \<and>
    (pess_ok p \<and> opened (ps_db p) x start inc \<and> good_run pessimistic_PlaceBid pess_good pes p \<longrightarrow>
      replays (ps_db (snd (run_requests pessimistic_PlaceBid pes p))) x start inc) \<and>
    (shard_ok s \<and> opened (en_db s) x start inc \<and> good_run shard_PlaceBid shard_good ses s \<longrightarrow>
      replays (en_db (snd (run_requests shard_PlaceBid ses s))) x start inc)"
  using optimistic.run_replays [of d oes x start inc] pessimistic.run_replays [of p pes x start inc]
    shard.run_replays [of s ses x start inc] assms by blast

theorem engines_pass_replay_witness:
  "replays (en_db (snd (run_requests shard_PlaceBid
      [(late_env\<lparr>se_decide := sample_decide_env 9\<rparr>, sample_request 0 100)] sample_engine))) 1 0 100 \<and>
   length (bids_of (en_db (snd (run_requests shard_PlaceBid
      [(late_env\<lparr>se_decide := sample_decide_env 9\<rparr>, sample_request 0 100)] sample_engine))) 1) = 1"
proof -
  let ?xs = "[(late_env\<lparr>se_decide := sample_decide_env 9\<rparr>, sample_request 0 100)]"
  have op: "opened (en_db sample_engine) 1 0 100"
    using opened_fresh [OF sample_find] by (simp add: sample_engine_def bids_of_def sample_db_def sample_row_def)
  have good: "good_run shard_PlaceBid shard_good ?xs sample_engine"
    by (simp add: shard_good_def decide_ok_def sample_decide_env_def sample_request_def money_cap_def
        sample_engine_def sample_db_def)
  have "length (bids_of (en_db (snd (run_requests shard_PlaceBid ?xs sample_engine))) 1) = 1" by code_simp
  moreover have "replays (en_db (snd (run_requests shard_PlaceBid ?xs sample_engine))) 1 0 100"
    using engines_pass_replay [of 0 sample_db 1 100 "[]" sample_pess "[]" sample_engine ?xs]
      op good sample_engine_ok by (simp del: run_requests.simps good_run.simps)
  ultimately show ?thesis by blast
qed

end
