(* ===== verification/Idem.thy ===== *)
theory Idem
  imports Prelude
begin

text \<open>
  Idempotency, \<^verbatim>\<open>internal/idem\<close>: the hash at \<^verbatim>\<open>idem:<key>\<close> with its expiry, the Lua script of
  the claim and the decoding of its reply, the pipeline of the finish as the commands Redis runs
  one by one, and the middleware around the bid handler. \<open>idem_step\<close> interleaves any number of
  requests at the grain of their Redis commands.

  Redis is the documented behaviour of the five commands the store uses: HGET, HSET, HDEL (which
  removes a hash left without fields), HINCRBY, PEXPIRE (which does nothing on a missing key); an
  entry past its expiry does not exist. Bodies and keys are strings of bytes. The parser of uuids
  is \<^verbatim>\<open>github.com/google/uuid\<close> and stays a parameter.
\<close>

section \<open>The store's entry (store.go)\<close>

record entry =
  e_attempts :: "int option"
  e_busy :: bool
  e_done :: "string option"
  e_expires :: "time option"

type_synonym redis = "string \<Rightarrow> entry option"

definition keyPrefix :: string where
  "keyPrefix = ''idem:''"

definition millisecond :: duration where
  "millisecond = 1000000"

definition inFlightTTL :: duration where
  "inFlightTTL = 30 * 1000 * millisecond"

definition terminalTTL :: duration where
  "terminalTTL = 5 * 60 * 1000 * millisecond"

definition no_entry :: entry where
  "no_entry = \<lparr>e_attempts = None, e_busy = False, e_done = None, e_expires = None\<rparr>"

definition fields_empty :: "entry \<Rightarrow> bool" where
  "fields_empty e \<longleftrightarrow> e_attempts e = None \<and> \<not> e_busy e \<and> e_done e = None"

definition live :: "time \<Rightarrow> entry \<Rightarrow> bool" where
  "live now e \<longleftrightarrow> (case e_expires e of None \<Rightarrow> True | Some t \<Rightarrow> now < t)"

definition get_entry :: "time \<Rightarrow> redis \<Rightarrow> string \<Rightarrow> entry option" where
  "get_entry now r k = (case r k of None \<Rightarrow> None | Some e \<Rightarrow> if live now e then Some e else None)"

definition entry_or_new :: "time \<Rightarrow> redis \<Rightarrow> string \<Rightarrow> entry" where
  "entry_or_new now r k = (case get_entry now r k of None \<Rightarrow> no_entry | Some e \<Rightarrow> e)"

datatype redis_cmd = HSetDone string | HDelBusy | PExpire int

fun run_cmd :: "time \<Rightarrow> string \<Rightarrow> redis_cmd \<Rightarrow> redis \<Rightarrow> redis" where
  "run_cmd now k (HSetDone body) r = r(k \<mapsto> (entry_or_new now r k)\<lparr>e_done := Some body\<rparr>)"
| "run_cmd now k HDelBusy r =
     (case get_entry now r k of
        None \<Rightarrow> r(k := None)
      | Some e \<Rightarrow>
          (let e' = e\<lparr>e_busy := False\<rparr> in if fields_empty e' then r(k := None) else r(k \<mapsto> e')))"
| "run_cmd now k (PExpire ms) r =
     (case get_entry now r k of
        None \<Rightarrow> r(k := None)
      | Some e \<Rightarrow> r(k \<mapsto> e\<lparr>e_expires := Some (now + ms * millisecond)\<rparr>))"

section \<open>Claiming\<close>

text \<open>The values a Lua script can hand back to the driver here.\<close>

datatype lua = Bulk string | Integer int

definition claim_script :: "time \<Rightarrow> string \<Rightarrow> int \<Rightarrow> redis \<Rightarrow> lua list \<times> redis" where
  "claim_script now k ttl_ms r =
     (let e = entry_or_new now r k in
      case e_done e of
        Some body \<Rightarrow> ([Bulk ''replay'', Bulk body], r)
      | None \<Rightarrow>
          if e_busy e then ([Bulk ''busy''], r)
          else
            (let n = (case e_attempts e of None \<Rightarrow> 1 | Some a \<Rightarrow> a + 1);
                 e' = e\<lparr>e_attempts := Some n, e_busy := True\<rparr>
             in ([Bulk ''go'', Integer n], run_cmd now k (PExpire ttl_ms) (r(k \<mapsto> e')))))"

datatype verdict = Pass int | Replay string | Busy

datatype idem_error =
    ClaimFailed
  | EmptyReply
  | ReplayWithoutBody
  | GoWithoutCount
  | UnknownVerdict string

definition second_bulk :: "lua list \<Rightarrow> string option" where
  "second_bulk raw = (if length raw < 2 then None else (case raw ! 1 of Bulk s \<Rightarrow> Some s | Integer n \<Rightarrow> None))"

definition second_integer :: "lua list \<Rightarrow> int option" where
  "second_integer raw = (if length raw < 2 then None else (case raw ! 1 of Bulk s \<Rightarrow> None | Integer n \<Rightarrow> Some n))"

definition decode_claim :: "lua list \<Rightarrow> idem_error + verdict" where
  "decode_claim raw =
     (if raw = [] then Inl EmptyReply
      else
        (let kind = (case raw ! 0 of Bulk s \<Rightarrow> s | Integer n \<Rightarrow> []) in
         if kind = ''replay'' then
           (case second_bulk raw of None \<Rightarrow> Inl ReplayWithoutBody | Some body \<Rightarrow> Inr (Replay body))
         else if kind = ''busy'' then Inr Busy
         else if kind = ''go'' then
           (case second_integer raw of None \<Rightarrow> Inl GoWithoutCount | Some n \<Rightarrow> Inr (Pass n))
         else Inl (UnknownVerdict kind)))"

definition Claim :: "fault \<Rightarrow> time \<Rightarrow> string \<Rightarrow> redis \<Rightarrow> (idem_error + verdict) \<times> redis" where
  "Claim f now key r =
     (let (raw, r') = claim_script now (keyPrefix @ key) (inFlightTTL div millisecond) r in
      case f of
        FaultBefore \<Rightarrow> (Inl ClaimFailed, r)
      | FaultAfter \<Rightarrow> (Inl ClaimFailed, r')
      | NoFault \<Rightarrow> (decode_claim raw, r'))"

section \<open>Finishing\<close>

definition finish_cmds :: "bool \<Rightarrow> string \<Rightarrow> redis_cmd list" where
  "finish_cmds accepted body =
     (if accepted then [HSetDone body, HDelBusy, PExpire (terminalTTL div millisecond)] else [HDelBusy])"

text \<open>
  A pipeline is not a transaction: if the connection dies, Redis may have run any prefix of it.
  \<open>executed\<close> is how many commands it ran; fewer than all is an error, which is only logged.
\<close>

definition Finish :: "nat \<Rightarrow> time \<Rightarrow> string \<Rightarrow> bool \<Rightarrow> string \<Rightarrow> redis \<Rightarrow> redis" where
  "Finish executed now key accepted body r =
     fold (run_cmd now (keyPrefix @ key)) (take executed (finish_cmds accepted body)) r"

section \<open>The middleware (idem.go)\<close>

text \<open>
  What the rest of the chain did with the request: each \<^verbatim>\<open>Write\<close> with the status in force at that
  moment, the status at the end, and whether it panicked.
\<close>

record handler_out =
  ho_writes :: "(nat \<times> string) list"
  ho_status :: nat
  ho_panicked :: bool

definition capture :: "(nat \<times> string) list \<Rightarrow> string" where
  "capture ws = concat (map snd (filter (\<lambda>w. fst w = 201) ws))"

record http_answer =
  rp_status :: nat
  rp_headers :: "(string \<times> string) list"
  rp_body :: string

datatype served = Answered http_answer | PassedOn handler_out

record metrics =
  m_replayed :: nat
  m_in_flight :: nat
  m_attempts :: "int list"

record 's idem_state =
  is_redis :: redis
  is_metrics :: metrics
  is_world :: 's

record idem_env =
  ie_fault :: fault
  ie_now :: time
  ie_finish_now :: time
  ie_executed :: nat

definition contentTypeJSON :: string where
  "contentTypeJSON = ''application/json; charset=utf-8''"

definition error_json :: "string \<Rightarrow> bool \<Rightarrow> string" where
  "error_json code retryable =
     ''{\"error\":\"'' @ code @ ''\",\"retryable\":'' @ (if retryable then ''true'' else ''false'') @ ''}''"

definition abort_json :: "nat \<Rightarrow> string \<Rightarrow> bool \<Rightarrow> served" where
  "abort_json status code retryable =
     Answered \<lparr>rp_status = status, rp_headers = [(''Content-Type'', contentTypeJSON)],
       rp_body = error_json code retryable\<rparr>"

text \<open>
  \<open>handler key w\<close> is the rest of the chain, with \<open>KeyFrom\<close> of its context being \<open>key\<close>; \<open>w\<close> is
  whatever it works on. The empty header is an absent one.
\<close>

definition Middleware ::
  "(string \<Rightarrow> uuid option) \<Rightarrow> idem_env \<Rightarrow> string \<Rightarrow> (string \<Rightarrow> 's \<Rightarrow> handler_out \<times> 's)
   \<Rightarrow> 's idem_state \<Rightarrow> served \<times> 's idem_state" where
  "Middleware uuid_parse env key handler s =
     (if key = [] then
        (let (out, w) = handler [] (is_world s) in (PassedOn out, s\<lparr>is_world := w\<rparr>))
      else if uuid_parse key = None then (abort_json 400 ''invalid_idempotency_key'' False, s)
      else
        (case Claim (ie_fault env) (ie_now env) key (is_redis s) of
           (Inl err, r) \<Rightarrow> (abort_json 503 ''unavailable'' True, s\<lparr>is_redis := r\<rparr>)
         | (Inr (Replay body), r) \<Rightarrow>
             (Answered \<lparr>rp_status = 201,
                rp_headers = [(''X-Idempotency-Replayed'', ''true''), (''Content-Type'', contentTypeJSON)],
                rp_body = body\<rparr>,
              s\<lparr>is_redis := r, is_metrics := (is_metrics s)\<lparr>m_replayed := m_replayed (is_metrics s) + 1\<rparr>\<rparr>)
         | (Inr Busy, r) \<Rightarrow>
             (abort_json 425 ''idempotency_in_flight'' True,
              s\<lparr>is_redis := r, is_metrics := (is_metrics s)\<lparr>m_in_flight := m_in_flight (is_metrics s) + 1\<rparr>\<rparr>)
         | (Inr (Pass n), r) \<Rightarrow>
             (let (out, w) = handler key (is_world s);
                  accepted = (ho_status out = 201);
                  m = is_metrics s;
                  m' = (if accepted then m\<lparr>m_attempts := m_attempts m @ [n]\<rparr> else m);
                  r' = Finish (ie_executed env) (ie_finish_now env) key accepted (capture (ho_writes out)) r
              in (PassedOn out, s\<lparr>is_redis := r', is_metrics := m', is_world := w\<rparr>))))"

section \<open>The claim, case by case\<close>

lemma ttl_values: "inFlightTTL div millisecond * millisecond = inFlightTTL"
  "terminalTTL div millisecond * millisecond = terminalTTL" "0 < inFlightTTL" "inFlightTTL < terminalTTL"
  by (simp_all add: inFlightTTL_def terminalTTL_def millisecond_def)

text \<open>The state of a key as its next claim sees it.\<close>

definition attempts_of :: "time \<Rightarrow> redis \<Rightarrow> string \<Rightarrow> int" where
  "attempts_of now r key = (case e_attempts (entry_or_new now r (keyPrefix @ key)) of None \<Rightarrow> 0 | Some a \<Rightarrow> a)"

definition done_of :: "time \<Rightarrow> redis \<Rightarrow> string \<Rightarrow> string option" where
  "done_of now r key = e_done (entry_or_new now r (keyPrefix @ key))"

definition busy_of :: "time \<Rightarrow> redis \<Rightarrow> string \<Rightarrow> bool" where
  "busy_of now r key = e_busy (entry_or_new now r (keyPrefix @ key))"

definition claimed :: "time \<Rightarrow> string \<Rightarrow> redis \<Rightarrow> redis" where
  "claimed now key r =
     r(keyPrefix @ key \<mapsto> (entry_or_new now r (keyPrefix @ key))\<lparr>e_attempts := Some (attempts_of now r key + 1),
       e_busy := True, e_expires := Some (now + inFlightTTL)\<rparr>)"

lemma get_entry_upd:
  "get_entry now (r(k \<mapsto> e)) k' = (if k' = k then if live now e then Some e else None else get_entry now r k')"
  "get_entry now (r(k := None)) k' = (if k' = k then None else get_entry now r k')"
  by (simp_all add: get_entry_def)

lemma live_entry_or_new: "live now (entry_or_new now r k)"
  by (auto simp: entry_or_new_def get_entry_def no_entry_def live_def split: option.splits if_splits)

lemma Claim_NoFault:
  "Claim NoFault now key r =
     (case done_of now r key of
        Some body \<Rightarrow> (Inr (Replay body), r)
      | None \<Rightarrow> if busy_of now r key then (Inr Busy, r)
          else (Inr (Pass (attempts_of now r key + 1)), claimed now key r))"
proof -
  let ?e = "entry_or_new now r (keyPrefix @ key)"
  have live: "live now (?e\<lparr>e_attempts := n, e_busy := b\<rparr>)" for n b
    using live_entry_or_new by (simp add: live_def)
  show ?thesis
    by (cases "e_done ?e"; cases "e_attempts ?e")
      (auto simp: Claim_def claim_script_def decode_claim_def second_bulk_def second_integer_def Let_def
        done_of_def busy_of_def attempts_of_def claimed_def get_entry_upd live ttl_values)
qed

lemma Claim_faults:
  "Claim FaultBefore now key r = (Inl ClaimFailed, r)"
  "Claim FaultAfter now key r = (Inl ClaimFailed, snd (Claim NoFault now key r))"
  by (simp_all add: Claim_def case_prod_beta Let_def)

section \<open>The finish, case by case\<close>

lemma entry_of_get: "get_entry now r k = Some e \<Longrightarrow> entry_or_new now r k = e"
  by (simp add: entry_or_new_def)

lemma Finish_rejected:
  assumes e: "get_entry now r (keyPrefix @ key) = Some e" "e_attempts e = Some n" and "1 \<le> executed"
  shows "Finish executed now key False body r = r(keyPrefix @ key \<mapsto> e\<lparr>e_busy := False\<rparr>)"
proof -
  have "take executed (finish_cmds False body) = [HDelBusy]"
    using assms(3) by (simp add: finish_cmds_def)
  with e show ?thesis by (simp add: Finish_def fields_empty_def Let_def)
qed

lemma Finish_accepted:
  assumes e: "get_entry now r (keyPrefix @ key) = Some e" and "3 \<le> executed"
  shows "Finish executed now key True body r =
    r(keyPrefix @ key \<mapsto> e\<lparr>e_done := Some body, e_busy := False, e_expires := Some (now + terminalTTL)\<rparr>)"
proof -
  have t: "take executed (finish_cmds True body) = finish_cmds True body"
    using assms(2) by (simp add: finish_cmds_def)
  have l: "live now e" using e by (auto simp: get_entry_def split: option.splits if_splits)
  then have l': "live now (e\<lparr>e_done := d\<rparr>)" "live now (e\<lparr>e_done := d, e_busy := b\<rparr>)" for d b
    by (simp_all add: live_def)
  show ?thesis
    using e l' unfolding Finish_def t
    by (simp add: finish_cmds_def entry_of_get get_entry_upd fields_empty_def ttl_values Let_def)
qed

lemma get_claimed:
  "now' < now + inFlightTTL \<Longrightarrow> get_entry now' (claimed now key r) (keyPrefix @ key) =
     Some ((entry_or_new now r (keyPrefix @ key))\<lparr>e_attempts := Some (attempts_of now r key + 1),
       e_busy := True, e_expires := Some (now + inFlightTTL)\<rparr>)"
  by (simp add: claimed_def get_entry_upd live_def)

text \<open>A request that goes through to the engine, in terms of the key's state.\<close>

lemma Middleware_pass:
  assumes key: "key \<noteq> []" "uuid_parse key = Some u" and env: "ie_fault env = NoFault"
    and free: "done_of (ie_now env) (is_redis s) key = None" "\<not> busy_of (ie_now env) (is_redis s) key"
    and out: "handler key (is_world s) = (out, w)"
  shows "Middleware uuid_parse env key handler s =
    (PassedOn out,
     s\<lparr>is_redis := Finish (ie_executed env) (ie_finish_now env) key (ho_status out = 201)
          (capture (ho_writes out)) (claimed (ie_now env) key (is_redis s)),
       is_metrics := (if ho_status out = 201
          then (is_metrics s)\<lparr>m_attempts := m_attempts (is_metrics s) @ [attempts_of (ie_now env) (is_redis s) key + 1]\<rparr>
          else is_metrics s),
       is_world := w\<rparr>)"
  using assms by (simp add: Middleware_def Claim_NoFault Let_def)

section \<open>One logical bid, attempt by attempt\<close>

text \<open>The requests of one key, one after the other, each with the rest of the chain it meets.\<close>

fun serve_all ::
  "(string \<Rightarrow> uuid option) \<Rightarrow> string \<Rightarrow> (idem_env \<times> (string \<Rightarrow> 's \<Rightarrow> handler_out \<times> 's)) list
   \<Rightarrow> 's idem_state \<Rightarrow> served list \<times> 's idem_state" where
  "serve_all uuid_parse key [] s = ([], s)"
| "serve_all uuid_parse key ((env, h) # xs) s =
     (let (a, s') = Middleware uuid_parse env key h s; (as, s'') = serve_all uuid_parse key xs s' in (a # as, s''))"

text \<open>
  Every round trip answered, every answer within the mark's 30 seconds, and every attempt within
  30 seconds of the claim before it; \<open>deadline\<close> is the end of that window.
\<close>

definition prompt :: "idem_env \<Rightarrow> bool" where
  "prompt env \<longleftrightarrow> ie_fault env = NoFault \<and> ie_finish_now env < ie_now env + inFlightTTL \<and> 3 \<le> ie_executed env"

fun paced :: "time \<Rightarrow> (idem_env \<times> 'h) list \<Rightarrow> bool" where
  "paced deadline [] = True"
| "paced deadline ((env, h) # xs) =
     (prompt env \<and> ie_now env < deadline \<and> paced (ie_now env + inFlightTTL) xs)"

text \<open>A key between two attempts: \<open>n\<close> counted, nobody inside, nothing stored.\<close>

definition between :: "string \<Rightarrow> int \<Rightarrow> time \<Rightarrow> redis \<Rightarrow> bool" where
  "between key n deadline r \<longleftrightarrow>
     (\<exists>e. r (keyPrefix @ key) = Some e \<and> e_attempts e = Some n \<and> \<not> e_busy e \<and> e_done e = None \<and>
        e_expires e = Some deadline)"

lemma between_state:
  "between key n deadline r \<Longrightarrow> now < deadline \<Longrightarrow>
   done_of now r key = None \<and> \<not> busy_of now r key \<and> attempts_of now r key = n"
  by (auto simp: between_def done_of_def busy_of_def attempts_of_def entry_or_new_def get_entry_def live_def)

lemma absent_state:
  "get_entry now r (keyPrefix @ key) = None \<Longrightarrow>
   done_of now r key = None \<and> \<not> busy_of now r key \<and> attempts_of now r key = 0"
  by (simp add: done_of_def busy_of_def attempts_of_def entry_or_new_def no_entry_def)

lemma rejected_between:
  assumes "prompt env" and "done_of (ie_now env) r key = None"
  shows "between key (attempts_of (ie_now env) r key + 1) (ie_now env + inFlightTTL)
    (Finish (ie_executed env) (ie_finish_now env) key False body (claimed (ie_now env) key r))"
proof -
  have "get_entry (ie_finish_now env) (claimed (ie_now env) key r) (keyPrefix @ key) =
      Some ((entry_or_new (ie_now env) r (keyPrefix @ key))\<lparr>e_attempts := Some (attempts_of (ie_now env) r key + 1),
        e_busy := True, e_expires := Some (ie_now env + inFlightTTL)\<rparr>)"
    using assms(1) by (intro get_claimed) (simp add: prompt_def)
  from Finish_rejected [OF this] assms show ?thesis
    by (simp add: between_def prompt_def done_of_def)
qed

lemma serve_rejections:
  assumes "key \<noteq> []" "uuid_parse key = Some u"
    and "between key n deadline (is_redis s)" and "paced deadline (xs @ [x])"
    and "list_all (\<lambda>(env, h). \<forall>w. ho_status (fst (h key w)) \<noteq> 201) xs"
  shows "\<exists>deadline'. between key (n + int (length xs)) deadline' (is_redis (snd (serve_all uuid_parse key xs s))) \<and>
    paced deadline' [x] \<and> is_metrics (snd (serve_all uuid_parse key xs s)) = is_metrics s"
  using assms(3-5)
proof (induction xs arbitrary: n deadline s)
  case Nil
  then show ?case by auto
next
  case (Cons y ys)
  obtain env h where y: "y = (env, h)" by fastforce
  obtain out w where out: "h key (is_world s) = (out, w)" by fastforce
  have rej: "ho_status out \<noteq> 201" using Cons.prems(3) out by (simp add: y) (metis fst_conv)
  have pr: "prompt env" "ie_now env < deadline" "paced (ie_now env + inFlightTTL) (ys @ [x])"
    using Cons.prems(2) by (simp_all add: y)
  note st = between_state [OF Cons.prems(1) pr(2)]
  have step: "Middleware uuid_parse env key h s =
      (PassedOn out, s\<lparr>is_redis := Finish (ie_executed env) (ie_finish_now env) key False
          (capture (ho_writes out)) (claimed (ie_now env) key (is_redis s)),
        is_metrics := is_metrics s, is_world := w\<rparr>)" (is "_ = (_, ?s)")
    using Middleware_pass [of key uuid_parse u env s h out w] assms(1,2) out pr(1) st rej
    by (simp add: prompt_def)
  have "between key (n + 1) (ie_now env + inFlightTTL) (is_redis ?s)"
    using rejected_between [OF pr(1), of "is_redis s" key] st by simp
  from Cons.IH [OF this pr(3)] Cons.prems(3) show ?case
    by (simp add: y step case_prod_beta Let_def algebra_simps)
qed

section \<open>Concurrent requests\<close>

text \<open>
  A request is outside, inside the engine under its key since its claim, or finishing: its answer
  is on the wire and some commands of its pipeline are still to run. With \<open>strict\<close> the clock
  never passes a mark's 30 seconds while its request is still inside or finishing.
\<close>

datatype pc = Free | Serving string time | Finishing string time "redis_cmd list"

record idem_sys =
  ig_redis :: redis
  ig_pc :: "nat \<Rightarrow> pc"
  ig_clock :: time

fun since :: "pc \<Rightarrow> time option" where
  "since Free = None"
| "since (Serving key t) = Some t"
| "since (Finishing key t cs) = Some t"

inductive idem_step :: "bool \<Rightarrow> idem_sys \<Rightarrow> idem_sys \<Rightarrow> bool" for strict where
  idem_pass: "ig_pc s i = Free \<Longrightarrow> Claim f (ig_clock s) key (ig_redis s) = (Inr (Pass n), r') \<Longrightarrow>
    idem_step strict s (s\<lparr>ig_redis := r', ig_pc := (ig_pc s)(i := Serving key (ig_clock s))\<rparr>)"
| idem_turned: "ig_pc s i = Free \<Longrightarrow> Claim f (ig_clock s) key (ig_redis s) = (v, r') \<Longrightarrow>
    (\<And>n. v \<noteq> Inr (Pass n)) \<Longrightarrow> idem_step strict s (s\<lparr>ig_redis := r'\<rparr>)"
| idem_answer: "ig_pc s i = Serving key t \<Longrightarrow>
    idem_step strict s (s\<lparr>ig_pc := (ig_pc s)(i := Finishing key t (finish_cmds accepted body))\<rparr>)"
| idem_cmd: "ig_pc s i = Finishing key t (c # cs) \<Longrightarrow>
    idem_step strict s (s\<lparr>ig_redis := run_cmd (ig_clock s) (keyPrefix @ key) c (ig_redis s),
      ig_pc := (ig_pc s)(i := Finishing key t cs)\<rparr>)"
| idem_leave: "ig_pc s i = Finishing key t cs \<Longrightarrow>
    idem_step strict s (s\<lparr>ig_pc := (ig_pc s)(i := Free)\<rparr>)"
| idem_tick: "0 \<le> dt \<Longrightarrow>
    (strict \<Longrightarrow> (\<And>i t. since (ig_pc s i) = Some t \<Longrightarrow> ig_clock s + dt < t + inFlightTTL)) \<Longrightarrow>
    idem_step strict s (s\<lparr>ig_clock := ig_clock s + dt\<rparr>)"

definition idem_start :: "redis \<Rightarrow> time \<Rightarrow> idem_sys" where
  "idem_start r t = \<lparr>ig_redis = r, ig_pc = (\<lambda>_. Free), ig_clock = t\<rparr>"

inductive idem_reachable :: "bool \<Rightarrow> idem_sys \<Rightarrow> bool" for strict where
  idem_init: "idem_reachable strict (idem_start r t)"
| idem_next: "idem_reachable strict s \<Longrightarrow> idem_step strict s s' \<Longrightarrow> idem_reachable strict s'"

text \<open>The request that owns the mark of a key: inside the engine, or yet to run its HDEL.\<close>

fun holder :: "pc \<Rightarrow> string \<Rightarrow> bool" where
  "holder Free k = False"
| "holder (Serving key t) k = (key = k)"
| "holder (Finishing key t cs) k = (key = k \<and> HDelBusy \<in> set cs)"

definition marked :: "redis \<Rightarrow> string \<Rightarrow> time \<Rightarrow> bool" where
  "marked r key t \<longleftrightarrow>
     (\<exists>e x. r (keyPrefix @ key) = Some e \<and> e_busy e \<and> e_expires e = Some x \<and> t \<le> x)"

fun pc_inv :: "redis \<Rightarrow> time \<Rightarrow> pc \<Rightarrow> bool" where
  "pc_inv r now Free = True"
| "pc_inv r now (Serving key t) = (t \<le> now \<and> now < t + inFlightTTL \<and> marked r key (t + inFlightTTL))"
| "pc_inv r now (Finishing key t cs) =
     (t \<le> now \<and> now < t + inFlightTTL \<and> (\<exists>accepted body k. cs = drop k (finish_cmds accepted body)) \<and>
      (HDelBusy \<in> set cs \<longrightarrow> marked r key (t + inFlightTTL)))"

definition one_holder :: "(nat \<Rightarrow> pc) \<Rightarrow> bool" where
  "one_holder f \<longleftrightarrow> (\<forall>i j k. holder (f i) k \<longrightarrow> holder (f j) k \<longrightarrow> i = j)"

definition pcs_inv :: "redis \<Rightarrow> time \<Rightarrow> (nat \<Rightarrow> pc) \<Rightarrow> bool" where
  "pcs_inv r now f \<longleftrightarrow> (\<forall>i. pc_inv r now (f i)) \<and> one_holder f"

definition idem_inv :: "idem_sys \<Rightarrow> bool" where
  "idem_inv s \<longleftrightarrow> pcs_inv (ig_redis s) (ig_clock s) (ig_pc s)"

lemma pcs_invD: "pcs_inv r now f \<Longrightarrow> pc_inv r now (f i)" "pcs_inv r now f \<Longrightarrow> one_holder f"
  by (simp_all add: pcs_inv_def)

lemma one_holderD: "one_holder f \<Longrightarrow> holder (f i) k \<Longrightarrow> holder (f j) k \<Longrightarrow> i = j"
  unfolding one_holder_def by blast

lemma pcs_inv_upd:
  assumes "\<And>j. j \<noteq> i \<Longrightarrow> pc_inv r now (f j)" and "pc_inv r now p" and "one_holder (f(i := p))"
  shows "pcs_inv r now (f(i := p))"
  using assms unfolding pcs_inv_def by (metis fun_upd_apply)

text \<open>A request that changes its place without taking a mark takes nobody's.\<close>

lemma one_holder_keep:
  assumes "one_holder f" and "\<And>k. holder p k \<Longrightarrow> holder (f i) k"
  shows "one_holder (f(i := p))"
  using assms unfolding one_holder_def by (metis fun_upd_apply)

lemma one_holder_take:
  assumes "one_holder f" and "\<And>j. \<not> holder (f j) key" and "\<And>k. holder p k \<longleftrightarrow> k = key"
  shows "one_holder (f(i := p))"
  using assms unfolding one_holder_def by (metis fun_upd_apply)

lemma marked_busy:
  assumes "marked r key t" and "now < t"
  shows "busy_of now r key" and "Claim f now key r \<noteq> (Inr (Pass n), r')" and "snd (Claim f now key r) = r"
proof -
  obtain e x where e: "r (keyPrefix @ key) = Some e" "e_busy e" "e_expires e = Some x" "now < x"
    using assms by (auto simp: marked_def)
  then show b: "busy_of now r key"
    by (simp add: busy_of_def entry_or_new_def get_entry_def live_def)
  then show "Claim f now key r \<noteq> (Inr (Pass n), r')" "snd (Claim f now key r) = r"
    by (cases f; simp add: Claim_faults Claim_NoFault split: option.splits)+
qed

lemma Claim_other: "k \<noteq> keyPrefix @ key \<Longrightarrow> snd (Claim f now key r) k = r k"
  by (cases f) (simp_all add: Claim_faults Claim_NoFault claimed_def split: option.splits)

lemma Claim_PassD:
  assumes "Claim f now key r = (Inr (Pass n), r')"
  shows "r' = claimed now key r"
  using assms
  by (cases f) (auto simp: Claim_faults Claim_NoFault split: option.splits if_splits)

lemma marked_claimed: "marked (claimed now key r) key (now + inFlightTTL)"
  by (simp add: marked_def claimed_def)

lemma run_cmd_other: "k' \<noteq> k \<Longrightarrow> run_cmd now k c r k' = r k'"
  by (cases c) (auto simp: Let_def split: option.splits)

text \<open>Commands other than the HDEL keep a mark that has not expired.\<close>

lemma marked_run_cmd:
  assumes "marked r key t" and "now < t" and "t \<le> now + inFlightTTL"
    and "c = HSetDone body \<or> c = PExpire (terminalTTL div millisecond)"
  shows "marked (run_cmd now (keyPrefix @ key) c r) key t"
proof -
  obtain e x where e: "r (keyPrefix @ key) = Some e" "e_busy e" "e_expires e = Some x" "t \<le> x"
    using assms(1) by (auto simp: marked_def)
  then have g: "get_entry now r (keyPrefix @ key) = Some e"
    using assms(2) by (simp add: get_entry_def live_def)
  have "t \<le> now + terminalTTL" using assms(3) ttl_values by simp
  with assms(4) e g show ?thesis
    by (auto simp: marked_def entry_of_get ttl_values)
qed

lemma pc_inv_frame:
  assumes "pc_inv r now p" and "\<And>key t. holder p key \<Longrightarrow> since p = Some t \<Longrightarrow>
      marked r key (t + inFlightTTL) \<Longrightarrow> marked r' key (t + inFlightTTL)"
  shows "pc_inv r' now p"
  using assms by (cases p) auto

lemma finish_suffix:
  assumes "c # cs = drop k (finish_cmds accepted body)"
  shows "(c = HDelBusy \<and> HDelBusy \<notin> set cs) \<or>
      (\<exists>b. c = HSetDone b \<and> HDelBusy \<in> set cs) \<or> (c = PExpire (terminalTTL div millisecond) \<and> cs = [])"
    and "cs = drop (Suc k) (finish_cmds accepted body)"
proof -
  show "cs = drop (Suc k) (finish_cmds accepted body)"
    using assms by (metis drop_Suc list.sel(3) tl_drop)
  consider "k = 0" | "k = 1" | "k = 2" | "3 \<le> k" by linarith
  then show "(c = HDelBusy \<and> HDelBusy \<notin> set cs) \<or>
      (\<exists>b. c = HSetDone b \<and> HDelBusy \<in> set cs) \<or> (c = PExpire (terminalTTL div millisecond) \<and> cs = [])"
    by cases (use assms in \<open>auto simp: finish_cmds_def numeral_2_eq_2 split: if_splits\<close>)
qed

lemma idem_step_inv:
  assumes "idem_step strict s s'" and strict: "strict" and inv: "idem_inv s"
  shows "idem_inv s'"
proof -
  let ?r = "ig_redis s" and ?now = "ig_clock s" and ?f = "ig_pc s"
  have all: "pcs_inv ?r ?now ?f" using inv by (simp add: idem_inv_def)
  note pcs = pcs_invD(1) [OF all] and uniq = pcs_invD(2) [OF all]
  show ?thesis
    using assms(1)
  proof cases
    case (idem_pass i f key n r')
    have free: "\<not> holder (?f j) key" for j
    proof
      assume h: "holder (?f j) key"
      then obtain t where "marked ?r key (t + inFlightTTL)" "?now < t + inFlightTTL"
        using pcs [of j] by (cases "?f j") auto
      from marked_busy(2) [OF this] idem_pass(3) show False by blast
    qed
    have r': "r' = claimed ?now key ?r" using Claim_PassD [OF idem_pass(3)] .
    have "pc_inv r' ?now (?f j)" for j
    proof (rule pc_inv_frame [OF pcs])
      fix k t assume "holder (?f j) k" "marked ?r k (t + inFlightTTL)"
      moreover from this free have "k \<noteq> key" by auto
      ultimately show "marked r' k (t + inFlightTTL)" by (simp add: marked_def r' claimed_def)
    qed
    moreover have "pc_inv r' ?now (Serving key ?now)"
      using marked_claimed ttl_values by (simp add: r')
    moreover have "one_holder (?f(i := Serving key ?now))"
      using free by (intro one_holder_take [OF uniq]) auto
    ultimately have "pcs_inv r' ?now (?f(i := Serving key ?now))" by (intro pcs_inv_upd)
    then show ?thesis unfolding idem_pass(1) idem_inv_def by simp
  next
    case (idem_turned i f key v r')
    have r': "r' = snd (Claim f ?now key ?r)" using idem_turned(3) by simp
    have "pc_inv r' ?now (?f j)" for j
    proof (rule pc_inv_frame [OF pcs])
      fix k t
      assume h: "holder (?f j) k" "since (?f j) = Some t" and m: "marked ?r k (t + inFlightTTL)"
      have "?now < t + inFlightTTL" using pcs [of j] h by (cases "?f j") auto
      show "marked r' k (t + inFlightTTL)"
      proof (cases "k = key")
        case True
        with marked_busy(3) [OF m \<open>?now < t + inFlightTTL\<close>] m r' show ?thesis by simp
      next
        case False
        then have "r' (keyPrefix @ k) = ?r (keyPrefix @ k)" unfolding r' by (intro Claim_other) simp
        with m show ?thesis by (simp add: marked_def)
      qed
    qed
    with uniq have "pcs_inv r' ?now ?f" by (simp add: pcs_inv_def)
    then show ?thesis unfolding idem_turned(1) idem_inv_def by simp
  next
    case (idem_answer i key t accepted body)
    have p: "pc_inv ?r ?now (Serving key t)" using pcs [of i] idem_answer(2) by simp
    have "pc_inv ?r ?now (Finishing key t (finish_cmds accepted body))"
      unfolding pc_inv.simps
    proof (intro conjI impI)
      show "\<exists>a b k. finish_cmds accepted body = drop k (finish_cmds a b)"
        by (rule exI [of _ accepted], rule exI [of _ body], rule exI [of _ 0]) simp
    qed (use p in simp_all)
    moreover have "one_holder (?f(i := Finishing key t (finish_cmds accepted body)))"
      using idem_answer(2) by (intro one_holder_keep [OF uniq]) simp
    ultimately have "pcs_inv ?r ?now (?f(i := Finishing key t (finish_cmds accepted body)))"
      using pcs by (intro pcs_inv_upd)
    then show ?thesis unfolding idem_answer(1) idem_inv_def by simp
  next
    case (idem_cmd i key t c cs)
    let ?r' = "run_cmd ?now (keyPrefix @ key) c ?r"
    have p: "pc_inv ?r ?now (Finishing key t (c # cs))" using pcs [of i] idem_cmd(2) by simp
    then have own: "t \<le> ?now" "?now < t + inFlightTTL"
      and mk: "HDelBusy \<in> set (c # cs) \<longrightarrow> marked ?r key (t + inFlightTTL)"
      unfolding pc_inv.simps by blast+
    obtain accepted body k where suf: "c # cs = drop k (finish_cmds accepted body)"
      using p unfolding pc_inv.simps by blast
    note shape = finish_suffix [OF suf]
    have frame: "marked ?r' k' (u + inFlightTTL)"
      if h: "holder (?f j) k'" "since (?f j) = Some u" "marked ?r k' (u + inFlightTTL)"
        and no: "j = i \<Longrightarrow> c \<noteq> HDelBusy" for j k' u
    proof (cases "k' = key")
      case False
      then have "?r' (keyPrefix @ k') = ?r (keyPrefix @ k')" by (intro run_cmd_other) simp
      with h(3) show ?thesis by (simp add: marked_def)
    next
      case True
      have "c \<noteq> HDelBusy"
      proof
        assume c: "c = HDelBusy"
        then have "holder (?f i) key" using idem_cmd(2) by simp
        with h(1) True have "j = i" using one_holderD [OF uniq] by blast
        with no c show False by blast
      qed
      with shape(1) have "(\<exists>b. c = HSetDone b) \<or> c = PExpire (terminalTTL div millisecond)" by blast
      moreover have "u \<le> ?now" "?now < u + inFlightTTL"
        using pcs [of j] h(1,2) by (cases "?f j"; simp)+
      ultimately show ?thesis
        using marked_run_cmd [OF h(3)] True by fastforce
    qed
    have "pc_inv ?r' ?now (?f j)" if "j \<noteq> i" for j
      by (rule pc_inv_frame [OF pcs]) (use frame that in blast)
    moreover have "pc_inv ?r' ?now (Finishing key t cs)"
      unfolding pc_inv.simps
    proof (intro conjI impI)
      assume b: "HDelBusy \<in> set cs"
      then have "c \<noteq> HDelBusy" using shape(1) by auto
      with frame [of i key t] b mk idem_cmd(2) show "marked ?r' key (t + inFlightTTL)" by auto
    next
      show "\<exists>a b k. cs = drop k (finish_cmds a b)" using shape(2) by blast
    qed (use own in auto)
    moreover have "one_holder (?f(i := Finishing key t cs))"
      using idem_cmd(2) by (intro one_holder_keep [OF uniq]) simp
    ultimately have "pcs_inv ?r' ?now (?f(i := Finishing key t cs))" by (intro pcs_inv_upd)
    then show ?thesis unfolding idem_cmd(1) idem_inv_def by simp
  next
    case (idem_leave i key t cs)
    have "one_holder (?f(i := Free))" by (intro one_holder_keep [OF uniq]) simp
    then have "pcs_inv ?r ?now (?f(i := Free))" using pcs by (intro pcs_inv_upd) simp_all
    then show ?thesis unfolding idem_leave(1) idem_inv_def by simp
  next
    case (idem_tick dt)
    have "pc_inv ?r (?now + dt) (?f i)" for i
    proof -
      have "?now + dt < t + inFlightTTL" if "since (?f i) = Some t" for t
        using idem_tick(3) strict that by blast
      with pcs [of i] idem_tick(2) show ?thesis by (cases "?f i") auto
    qed
    with uniq have "pcs_inv ?r (?now + dt) ?f" by (simp add: pcs_inv_def)
    then show ?thesis unfolding idem_tick(1) idem_inv_def by simp
  qed
qed

lemma idem_reachable_inv: "idem_reachable strict s \<Longrightarrow> strict \<Longrightarrow> idem_inv s"
proof (induction rule: idem_reachable.induct)
  case (idem_init r t)
  then show ?case by (simp add: idem_inv_def idem_start_def pcs_inv_def one_holder_def)
next
  case (idem_next s s')
  then show ?case using idem_step_inv by blast
qed

text \<open>The second request under a key whose first one was answered 201.\<close>

lemma replay_after_accept:
  assumes key: "key \<noteq> []" "uuid_parse key = Some u" and first: "prompt env1"
    and fresh: "done_of (ie_now env1) (is_redis s) key = None" "\<not> busy_of (ie_now env1) (is_redis s) key"
    and out: "h1 key (is_world s) = (out, w)" "ho_status out = 201"
    and s1: "s1 = snd (Middleware uuid_parse env1 key h1 s)"
    and second: "ie_fault env2 = NoFault" "ie_now env2 < ie_finish_now env1 + terminalTTL"
  shows "Middleware uuid_parse env2 key h2 s1 =
    (Answered \<lparr>rp_status = 201,
        rp_headers = [(''X-Idempotency-Replayed'', ''true''), (''Content-Type'', contentTypeJSON)],
        rp_body = capture (ho_writes out)\<rparr>,
     s1\<lparr>is_metrics := (is_metrics s1)\<lparr>m_replayed := m_replayed (is_metrics s1) + 1\<rparr>\<rparr>)"
proof -
  let ?r = "claimed (ie_now env1) key (is_redis s)"
  have "get_entry (ie_finish_now env1) ?r (keyPrefix @ key) =
      Some ((entry_or_new (ie_now env1) (is_redis s) (keyPrefix @ key))
        \<lparr>e_attempts := Some (attempts_of (ie_now env1) (is_redis s) key + 1), e_busy := True,
         e_expires := Some (ie_now env1 + inFlightTTL)\<rparr>)"
    using first by (intro get_claimed) (simp add: prompt_def)
  from Finish_accepted [OF this] first
  have "done_of (ie_now env2) (Finish (ie_executed env1) (ie_finish_now env1) key True
      (capture (ho_writes out)) ?r) key = Some (capture (ho_writes out))"
    using second(2) by (simp add: prompt_def done_of_def entry_or_new_def get_entry_upd live_def)
  moreover have "is_redis s1 = Finish (ie_executed env1) (ie_finish_now env1) key True (capture (ho_writes out)) ?r"
    using Middleware_pass [of key uuid_parse u env1 s h1 out w] key first fresh out s1 by (simp add: prompt_def)
  ultimately show ?thesis
    using key second(1) by (simp add: Middleware_def Claim_NoFault)
qed

section \<open>Properties\<close>

text \<open>
  Without the header the middleware is a pass-through: Redis and the counters are
  untouched, and the rest of the chain runs once, seeing no key, whatever the environment.
\<close>

theorem idem_pass_through:
  "Middleware uuid_parse env [] handler s =
     (PassedOn (fst (handler [] (is_world s))), s\<lparr>is_world := snd (handler [] (is_world s))\<rparr>)"
  by (simp add: Middleware_def case_prod_beta Let_def)

text \<open>
  It fails closed. With a well-formed key and a claim that failed in any way, the
  answer is the retryable 503, the rest of the chain never runs and no attempt is observed.
\<close>

theorem idem_fails_closed:
  assumes "key \<noteq> []" and "uuid_parse key = Some u" and "ie_fault env \<noteq> NoFault"
  shows "fst (Middleware uuid_parse env key handler s) = abort_json 503 ''unavailable'' True \<and>
    is_world (snd (Middleware uuid_parse env key handler s)) = is_world s \<and>
    is_metrics (snd (Middleware uuid_parse env key handler s)) = is_metrics s"
  using assms by (cases "ie_fault env") (simp_all add: Middleware_def Claim_faults)

definition sample_handler :: "nat \<Rightarrow> string \<Rightarrow> nat \<Rightarrow> handler_out \<times> nat" where
  "sample_handler status key w =
     (\<lparr>ho_writes = [(status, ''body'')], ho_status = status, ho_panicked = False\<rparr>, w + 1)"

definition sample_idem :: "nat idem_state" where
  "sample_idem = \<lparr>is_redis = (\<lambda>_. None), is_metrics = \<lparr>m_replayed = 0, m_in_flight = 0, m_attempts = []\<rparr>, is_world = 0\<rparr>"

definition sample_idem_env :: "time \<Rightarrow> idem_env" where
  "sample_idem_env t = \<lparr>ie_fault = NoFault, ie_now = t, ie_finish_now = t + 1, ie_executed = 3\<rparr>"

theorem idem_fails_closed_witness:
  "is_world (snd (Middleware (\<lambda>k. Some 1) ((sample_idem_env 0)\<lparr>ie_fault := FaultAfter\<rparr>) ''k''
     (sample_handler 201) sample_idem)) = 0"
  using idem_fails_closed [of "''k''" "\<lambda>k. Some 1" 1 "(sample_idem_env 0)\<lparr>ie_fault := FaultAfter\<rparr>"
      "sample_handler 201" sample_idem]
  by (simp add: sample_idem_def)

text \<open>
  Claim C10. The replay is verbatim. Once a request under a key was answered 201 within its
  mark and its pipeline ran, every request under that key for the next five minutes is answered
  201 with exactly the bytes written at status 201, flagged as replayed; the rest of the chain
  never runs for it and the entry does not change.
\<close>

theorem idem_replay_is_verbatim:
  assumes key: "key \<noteq> []" "uuid_parse key = Some u" and first: "prompt env1"
    and fresh: "done_of (ie_now env1) (is_redis s) key = None" "\<not> busy_of (ie_now env1) (is_redis s) key"
    and out: "h1 key (is_world s) = (out, w)" "ho_status out = 201"
    and s1: "s1 = snd (Middleware uuid_parse env1 key h1 s)"
    and second: "ie_fault env2 = NoFault" "ie_now env2 < ie_finish_now env1 + terminalTTL"
  shows "Middleware uuid_parse env2 key h2 s1 =
    (Answered \<lparr>rp_status = 201,
        rp_headers = [(''X-Idempotency-Replayed'', ''true''), (''Content-Type'', contentTypeJSON)],
        rp_body = capture (ho_writes out)\<rparr>,
     s1\<lparr>is_metrics := (is_metrics s1)\<lparr>m_replayed := m_replayed (is_metrics s1) + 1\<rparr>\<rparr>)"
  by (rule replay_after_accept [OF assms])

theorem idem_replay_is_verbatim_witness:
  "(let s1 = snd (Middleware (\<lambda>k. Some 1) (sample_idem_env 0) ''k'' (sample_handler 201) sample_idem) in
     is_world (snd (Middleware (\<lambda>k. Some 1) (sample_idem_env 60) ''k'' (sample_handler 201) s1)) = 1 \<and>
     (\<exists>r. fst (Middleware (\<lambda>k. Some 1) (sample_idem_env 60) ''k'' (sample_handler 201) s1) = Answered r \<and>
        rp_body r = ''body''))"
proof -
  let ?s1 = "snd (Middleware (\<lambda>k. Some 1) (sample_idem_env 0) ''k'' (sample_handler 201) sample_idem)"
  have w: "is_world ?s1 = 1" by code_simp
  have "Middleware (\<lambda>k. Some 1) (sample_idem_env 60) ''k'' (sample_handler 201) ?s1 =
    (Answered \<lparr>rp_status = 201,
        rp_headers = [(''X-Idempotency-Replayed'', ''true''), (''Content-Type'', contentTypeJSON)],
        rp_body = capture [(201, ''body'')]\<rparr>,
     ?s1\<lparr>is_metrics := (is_metrics ?s1)\<lparr>m_replayed := m_replayed (is_metrics ?s1) + 1\<rparr>\<rparr>)"
    using idem_replay_is_verbatim [of "''k''" "\<lambda>k. Some 1" 1 "sample_idem_env 0" sample_idem "sample_handler 201"
        "\<lparr>ho_writes = [(201, ''body'')], ho_status = 201, ho_panicked = False\<rparr>" 1 ?s1 "sample_idem_env 60"
        "sample_handler 201"]
    by (simp add: prompt_def sample_idem_env_def ttl_values sample_idem_def sample_handler_def
        inFlightTTL_def terminalTTL_def millisecond_def done_of_def busy_of_def entry_or_new_def get_entry_def no_entry_def)
  with w show ?thesis by (simp add: Let_def capture_def)
qed

text \<open>
  One logical bid is one sample. After any number of rejected attempts under a new
  key and then an accept, each answered within its mark and within 30 seconds of the claim
  before it, the histogram of attempts got exactly one sample: the rejections plus one.
\<close>

theorem idem_counts_attempts:
  assumes key: "key \<noteq> []" "uuid_parse key = Some u"
    and new: "get_entry (ie_now env0) (is_redis s) (keyPrefix @ key) = None" and p0: "prompt env0"
    and xs: "paced (ie_now env0 + inFlightTTL) (xs @ [(env, h)])"
    and rej: "list_all (\<lambda>(env, h). \<forall>w. ho_status (fst (h key w)) \<noteq> 201) ((env0, h0) # xs)"
    and acc: "\<And>w. ho_status (fst (h key w)) = 201"
  shows "m_attempts (is_metrics (snd (serve_all uuid_parse key ((env0, h0) # xs @ [(env, h)]) s))) =
    m_attempts (is_metrics s) @ [int (length xs) + 2]"
proof -
  have app: "serve_all uuid_parse key (as @ bs) t =
      (fst (serve_all uuid_parse key as t) @ fst (serve_all uuid_parse key bs (snd (serve_all uuid_parse key as t))),
       snd (serve_all uuid_parse key bs (snd (serve_all uuid_parse key as t))))"
    for as bs and t :: "'a idem_state"
    by (induction as arbitrary: t) (auto simp: case_prod_beta Let_def)
  obtain out0 w0 where out0: "h0 key (is_world s) = (out0, w0)" by fastforce
  have r0: "ho_status out0 \<noteq> 201" using rej out0 by simp (metis fst_conv)
  note st = absent_state [OF new]
  let ?s0 = "snd (Middleware uuid_parse env0 key h0 s)"
  have b0: "between key 1 (ie_now env0 + inFlightTTL) (is_redis ?s0)" and m0: "is_metrics ?s0 = is_metrics s"
    using Middleware_pass [of key uuid_parse u env0 s h0 out0 w0] key out0 p0 st r0
      rejected_between [OF p0, of "is_redis s" key "capture (ho_writes out0)"] by (simp_all add: prompt_def)
  let ?t = "snd (serve_all uuid_parse key xs ?s0)"
  obtain deadline where b: "between key (1 + int (length xs)) deadline (is_redis ?t)"
    and last: "paced deadline [(env, h)]" and m: "is_metrics ?t = is_metrics s"
    using serve_rejections [of key uuid_parse u 1 "ie_now env0 + inFlightTTL" ?s0 xs "(env, h)"] key b0 xs rej m0
    by auto
  obtain out w where out: "h key (is_world ?t) = (out, w)" by fastforce
  have a: "ho_status out = 201" using acc [of "is_world ?t"] out by simp
  from last have "prompt env" "ie_now env < deadline" by simp_all
  note st' = between_state [OF b this(2)]
  have "m_attempts (is_metrics (snd (Middleware uuid_parse env key h ?t))) =
      m_attempts (is_metrics s) @ [1 + int (length xs) + 1]"
    using Middleware_pass [of key uuid_parse u env ?t h out w] key out a st' m \<open>prompt env\<close>
    by (simp add: prompt_def)
  then show ?thesis by (simp add: app case_prod_beta Let_def)
qed

theorem idem_counts_attempts_witness:
  "m_attempts (is_metrics (snd (serve_all (\<lambda>k. Some 1) ''k''
     [(sample_idem_env 0, sample_handler 409), (sample_idem_env 10, sample_handler 422), (sample_idem_env 20, sample_handler 201)]
     sample_idem))) = [3]"
  using idem_counts_attempts [of "''k''" "\<lambda>k. Some 1" 1 "sample_idem_env 0" sample_idem
      "[(sample_idem_env 10, sample_handler 422)]" "sample_idem_env 20" "sample_handler 201" "sample_handler 409"]
  by (simp add: prompt_def sample_idem_env_def sample_idem_def sample_handler_def get_entry_def
      inFlightTTL_def millisecond_def)

text \<open>
  Claim C11. One request per key at a time. In every interleaving of requests, finishes and
  lost round trips in which no request outlives its own 30 seconds, no two requests under one
  key are inside the engine together.
\<close>

theorem idem_excludes_duplicates:
  assumes "idem_reachable True s" and "ig_pc s i = Serving key t" and "ig_pc s j = Serving key t'"
  shows "i = j"
  using idem_reachable_inv [OF assms(1)] assms(2,3) one_holderD [of "ig_pc s" i key j]
  by (simp add: idem_inv_def pcs_inv_def)

theorem idem_excludes_duplicates_witness:
  "\<exists>s. idem_reachable True s \<and> ig_pc s 0 = Serving ''k'' 5 \<and> (\<forall>j t. ig_pc s j = Serving ''k'' t \<longrightarrow> 0 = j)"
proof -
  let ?s = "(idem_start (\<lambda>_. None) 5)\<lparr>ig_redis := claimed 5 ''k'' (\<lambda>_. None), ig_pc := (\<lambda>_. Free)(0 := Serving ''k'' 5)\<rparr>"
  have "Claim NoFault 5 ''k'' (\<lambda>_. None) = (Inr (Pass 1), claimed 5 ''k'' (\<lambda>_. None))"
    by (simp add: Claim_NoFault done_of_def busy_of_def attempts_of_def entry_or_new_def get_entry_def no_entry_def)
  then have "idem_step True (idem_start (\<lambda>_. None) 5) ?s"
    using idem_pass [of "idem_start (\<lambda>_. None) 5" 0 NoFault "''k''" 1 "claimed 5 ''k'' (\<lambda>_. None)" True]
    by (simp add: idem_start_def)
  then have r: "idem_reachable True ?s" by (rule idem_next [OF idem_init])
  have zero: "ig_pc ?s 0 = Serving ''k'' 5" by simp
  have all: "\<forall>j t. ig_pc ?s j = Serving ''k'' t \<longrightarrow> 0 = j"
    using idem_excludes_duplicates [OF r zero] by blast
  show ?thesis by (rule exI [of _ ?s]) (intro conjI r zero all)
qed

end
