(* ===== verification/Service.thy ===== *)
theory Service
  imports Shard_Journal Idem
begin

text \<open>
  The HTTP surface: \<^verbatim>\<open>internal/store\<close> (the SQL that is not a bid), \<^verbatim>\<open>internal/httpapi\<close> (the
  handlers as mapping tables from parsed requests to status and body), the decorator of
  \<^verbatim>\<open>internal/metrics/bid.go\<close> and the carrier of \<^verbatim>\<open>internal/app/idem.go\<close>, and the chain of the
  bid route: identity, idempotency, handler.

  The parser of uuids, gin's JSON binding and the encoder of bodies are not under the
  repository: \<open>uuid_parse\<close>, \<open>bind\<close> and \<open>render\<close> are parameters. A handler's answer is its
  status with the struct it hands to the encoder.
\<close>

section \<open>The store (auctions.go)\<close>

record auction =
  au_id :: uuid
  au_title :: string
  au_state :: auction_state
  au_now :: time

record new_auction =
  na_title :: string
  na_starting_bid :: i64
  na_min_increment :: i64
  na_ends_at :: time

datatype store_error = ErrNotFound | StoreFailed go_error

definition auction_IsClosed :: "auction \<Rightarrow> bool" where
  "auction_IsClosed a = is_closed (au_state a) (au_now a)"

definition createAuction :: "uuid \<Rightarrow> string \<Rightarrow> i64 \<Rightarrow> i64 \<Rightarrow> time \<Rightarrow> time \<Rightarrow> (auction_state \<times> time) stmt" where
  "createAuction i title start inc ends now d =
     (let row = \<lparr>a_id = i, a_title = title, a_status = ColOpen, a_highest = start, a_bidder = None,
            a_min_inc = inc, a_version = 0, a_ends_at = ends, a_closed_at = None\<rparr>
      in if \<not> check_auction row then Inl CheckViolation
         else if find_auction d i \<noteq> None then Inl UniqueViolation
         else Inr ((state_of_row row, now), add_auction row d))"

definition getAuction :: "uuid \<Rightarrow> time \<Rightarrow> (string \<times> auction_state \<times> time) stmt" where
  "getAuction i now d =
     (case find_auction d i of
        None \<Rightarrow> Inl NoRows
      | Some a \<Rightarrow> Inr ((a_title a, state_of_row a, now), d))"

text \<open>What a call takes from outside: the fresh id, the database's clock, the round trip.\<close>

record store_env =
  sv_id :: uuid
  sv_now :: time
  sv_fault :: fault

definition store_Create :: "store_env \<Rightarrow> new_auction \<Rightarrow> db \<Rightarrow> (store_error + auction) \<times> db" where
  "store_Create e req d =
     (case run_stmt (sv_fault e)
             (createAuction (sv_id e) (na_title req) (na_starting_bid req) (na_min_increment req)
                (na_ends_at req) (sv_now e)) d of
        (Inl err, d') \<Rightarrow> (Inl (StoreFailed (Wrap ''create auction'' (DbError err))), d')
      | (Inr (st, now), d') \<Rightarrow>
          (Inr \<lparr>au_id = sv_id e, au_title = na_title req, au_state = st, au_now = now\<rparr>, d'))"

definition store_Get :: "store_env \<Rightarrow> uuid \<Rightarrow> db \<Rightarrow> (store_error + auction) \<times> db" where
  "store_Get e i d =
     (case run_stmt (sv_fault e) (getAuction i (sv_now e)) d of
        (Inl err, d') \<Rightarrow>
          (if err = NoRows then Inl ErrNotFound else Inl (StoreFailed (Wrap ''get auction'' (DbError err))), d')
      | (Inr (title, st, now), d') \<Rightarrow>
          (Inr \<lparr>au_id = i, au_title = title, au_state = st, au_now = now\<rparr>, d'))"

section \<open>Bodies (render.go)\<close>

record state_view =
  sw_version :: i64
  sw_highest :: i64
  sw_min_next :: i64

definition stateView :: "auction_state \<Rightarrow> state_view" where
  "stateView s = \<lparr>sw_version = st_version s, sw_highest = st_highest s, sw_min_next = min_next_bid s\<rparr>"

datatype body =
    BidAccepted state_view uuid i64
  | BidRejected state_view string bool
  | ErrorResponse string bool
  | AuctionView state_view uuid string status time
  | StatusBody string
  | Unready string string

definition auctionView :: "auction \<Rightarrow> body" where
  "auctionView a =
     AuctionView (stateView (au_state a)) (au_id a) (au_title a)
       (if auction_IsClosed a then StatusClosed else StatusOpen) (st_ends_at (au_state a))"

section \<open>Handlers (bids.go, auctions.go, identity.go, health.go)\<close>

record placeBidBody =
  pbb_amount :: i64
  pbb_expected :: "i64 option"

text \<open>
  \<open>engine ctx req s\<close> is the engine the router was built with; \<open>ctx\<close> is the idempotency key its
  request context carries. \<open>None\<close> from \<open>bind\<close> is any binding error.
\<close>

definition place_answer :: "Contract.response \<Rightarrow> nat \<times> body" where
  "place_answer r =
     (case r of
        Inl err \<Rightarrow> (503, ErrorResponse ''unavailable'' True)
      | Inr res \<Rightarrow>
          (case res_outcome res of
             Accepted \<Rightarrow> (201, BidAccepted (stateView (res_current res)) (res_bid_id res) (res_seq res))
           | Conflict \<Rightarrow> (409, BidRejected (stateView (res_current res)) ''version_conflict'' True)
           | TooLow \<Rightarrow> (422, BidRejected (stateView (res_current res)) ''too_low'' True)
           | Closed \<Rightarrow> (410, BidRejected (stateView (res_current res)) ''auction_closed'' False)
           | NotFound \<Rightarrow> (404, ErrorResponse ''auction_not_found'' False)
           | Invalid \<Rightarrow> (400, ErrorResponse ''expected_version_required'' False)
           | OtherOutcome w \<Rightarrow> (503, ErrorResponse ''unavailable'' True)))"

definition PlaceBid ::
  "(string \<Rightarrow> uuid option) \<Rightarrow> (string \<Rightarrow> placeBidBody option) \<Rightarrow>
   (string \<Rightarrow> bid_request \<Rightarrow> 's \<Rightarrow> Contract.response \<times> 's) \<Rightarrow>
   string \<Rightarrow> string \<Rightarrow> uuid \<Rightarrow> string \<Rightarrow> 's \<Rightarrow> (nat \<times> body) \<times> 's" where
  "PlaceBid uuid_parse bind engine ctx param user raw s =
     (case uuid_parse param of
        None \<Rightarrow> ((404, ErrorResponse ''auction_not_found'' False), s)
      | Some auction \<Rightarrow>
          (case bind raw of
             None \<Rightarrow> ((400, ErrorResponse ''invalid_amount'' False), s)
           | Some b \<Rightarrow>
               if pbb_amount b \<le>s 0 then ((400, ErrorResponse ''invalid_amount'' False), s)
               else
                 (let (r, s') = engine ctx \<lparr>req_auction = auction, req_user = user, req_amount = pbb_amount b,
                         req_expected = pbb_expected b, req_key = []\<rparr> s
                  in (place_answer r, s'))))"

definition RequireUserID :: "(string \<Rightarrow> uuid option) \<Rightarrow> string \<Rightarrow> (nat \<times> body) + uuid" where
  "RequireUserID uuid_parse header =
     (case uuid_parse header of
        None \<Rightarrow> Inl (400, ErrorResponse ''invalid_user_id'' False)
      | Some u \<Rightarrow> Inr u)"

record createAuctionBody =
  cab_title :: string
  cab_starting_bid :: i64
  cab_min_increment :: i64
  cab_ends_at :: "time option"

text \<open>\<open>now\<close> is the process clock; the order of the checks is the order of the answers.\<close>

definition create_validation :: "time \<Rightarrow> createAuctionBody \<Rightarrow> string option" where
  "create_validation now b =
     (if cab_title b = [] then Some ''invalid_title''
      else if (case cab_ends_at b of None \<Rightarrow> True | Some t \<Rightarrow> \<not> now < t) then Some ''invalid_ends_at''
      else if cab_min_increment b \<le>s 0 then Some ''invalid_min_increment''
      else if cab_starting_bid b <s 0 then Some ''invalid_starting_bid''
      else None)"

definition CreateAuction ::
  "(string \<Rightarrow> createAuctionBody option) \<Rightarrow> time \<Rightarrow> (new_auction \<Rightarrow> 's \<Rightarrow> (store_error + auction) \<times> 's)
   \<Rightarrow> string \<Rightarrow> 's \<Rightarrow> (nat \<times> body) \<times> 's" where
  "CreateAuction bind now create raw s =
     (case bind raw of
        None \<Rightarrow> ((400, ErrorResponse ''invalid_body'' False), s)
      | Some b \<Rightarrow>
          (case create_validation now b of
             Some code \<Rightarrow> ((400, ErrorResponse code False), s)
           | None \<Rightarrow>
               (case create \<lparr>na_title = cab_title b, na_starting_bid = cab_starting_bid b,
                       na_min_increment = cab_min_increment b, na_ends_at = the (cab_ends_at b)\<rparr> s of
                  (Inl err, s') \<Rightarrow> ((503, ErrorResponse ''unavailable'' True), s')
                | (Inr a, s') \<Rightarrow> ((201, auctionView a), s'))))"

definition GetAuction ::
  "(string \<Rightarrow> uuid option) \<Rightarrow> (uuid \<Rightarrow> 's \<Rightarrow> (store_error + auction) \<times> 's) \<Rightarrow> string \<Rightarrow> 's \<Rightarrow> (nat \<times> body) \<times> 's" where
  "GetAuction uuid_parse get param s =
     (case uuid_parse param of
        None \<Rightarrow> ((404, ErrorResponse ''auction_not_found'' False), s)
      | Some i \<Rightarrow>
          (case get i s of
             (Inl ErrNotFound, s') \<Rightarrow> ((404, ErrorResponse ''auction_not_found'' False), s')
           | (Inl (StoreFailed err), s') \<Rightarrow> ((503, ErrorResponse ''unavailable'' True), s')
           | (Inr a, s') \<Rightarrow> ((200, auctionView a), s')))"

definition Healthz :: "nat \<times> body" where
  "Healthz = (200, StatusBody ''ok'')"

text \<open>Each condition with the error its probe returned, if any.\<close>

fun Readyz :: "(string \<times> string option) list \<Rightarrow> nat \<times> body" where
  "Readyz [] = (200, StatusBody ''ready'')"
| "Readyz ((name, probe) # cs) =
     (case probe of Some err \<Rightarrow> (503, Unready name err) | None \<Rightarrow> Readyz cs)"

section \<open>The decorator and the carrier\<close>

record 's instrumented =
  in_next :: 's
  in_outcomes :: "string \<Rightarrow> nat"
  in_confirm :: "duration list"

definition instrumented_PlaceBid ::
  "(bid_request \<Rightarrow> 's \<Rightarrow> Contract.response \<times> 's) \<Rightarrow> duration \<Rightarrow> bid_request \<Rightarrow> 's instrumented
   \<Rightarrow> Contract.response \<times> 's instrumented" where
  "instrumented_PlaceBid next elapsed req s =
     (case next req (in_next s) of
        (Inl err, t) \<Rightarrow>
          (Inl err, s\<lparr>in_next := t, in_outcomes := (in_outcomes s)(''error'' := in_outcomes s ''error'' + 1)\<rparr>)
      | (Inr res, t) \<Rightarrow>
          (let label = outcome_string (res_outcome res)
           in (Inr res, s\<lparr>in_next := t, in_confirm := in_confirm s @ [elapsed],
                in_outcomes := (in_outcomes s)(label := in_outcomes s label + 1)\<rparr>)))"

definition carrier_PlaceBid ::
  "(bid_request \<Rightarrow> 's \<Rightarrow> Contract.response \<times> 's) \<Rightarrow> string \<Rightarrow> bid_request \<Rightarrow> 's \<Rightarrow> Contract.response \<times> 's" where
  "carrier_PlaceBid next ctx req s = next (req\<lparr>req_key := ctx\<rparr>) s"

section \<open>The bid route (router.go)\<close>

text \<open>
  Identity, then idempotency, then the handler, whose one write is at its final status. The
  headers and the parameter arrive as gin reads them.
\<close>

record bid_http =
  bh_param :: string
  bh_user :: string
  bh_key :: string
  bh_raw :: string

definition bid_handler ::
  "(string \<Rightarrow> uuid option) \<Rightarrow> (string \<Rightarrow> placeBidBody option) \<Rightarrow> (body \<Rightarrow> string) \<Rightarrow>
   (bid_request \<Rightarrow> 's \<Rightarrow> Contract.response \<times> 's) \<Rightarrow> bid_http \<Rightarrow> uuid \<Rightarrow> string \<Rightarrow> 's \<Rightarrow> handler_out \<times> 's" where
  "bid_handler uuid_parse bind render engine h user ctx s =
     (let ((status, b), s') = PlaceBid uuid_parse bind (carrier_PlaceBid engine) ctx (bh_param h) user (bh_raw h) s
      in (\<lparr>ho_writes = [(status, render b)], ho_status = status, ho_panicked = False\<rparr>, s'))"

definition bid_route ::
  "(string \<Rightarrow> uuid option) \<Rightarrow> (string \<Rightarrow> placeBidBody option) \<Rightarrow> (body \<Rightarrow> string) \<Rightarrow>
   (bid_request \<Rightarrow> 's \<Rightarrow> Contract.response \<times> 's) \<Rightarrow> idem_env \<Rightarrow> bid_http \<Rightarrow> 's idem_state
   \<Rightarrow> served \<times> 's idem_state" where
  "bid_route uuid_parse bind render engine env h s =
     (case RequireUserID uuid_parse (bh_user h) of
        Inl (status, b) \<Rightarrow>
          (Answered \<lparr>rp_status = status, rp_headers = [(''Content-Type'', contentTypeJSON)], rp_body = render b\<rparr>, s)
      | Inr user \<Rightarrow>
          Middleware uuid_parse env (bh_key h) (bid_handler uuid_parse bind render engine h user) s)"

section \<open>The store as an interface\<close>

text \<open>What the two routes rely on of \<^verbatim>\<open>AuctionStore\<close>; \<open>fine\<close> is an environment without faults.\<close>

locale auction_store =
  fixes create :: "'e \<Rightarrow> new_auction \<Rightarrow> db \<Rightarrow> (store_error + auction) \<times> db"
    and get :: "'e \<Rightarrow> uuid \<Rightarrow> db \<Rightarrow> (store_error + auction) \<times> db"
    and fine :: "'e \<Rightarrow> bool"
    and clock :: "'e \<Rightarrow> time"
  assumes create_evolves: "evolves d (snd (create e r d))"
    and get_reads: "snd (get e i d) = d"
    and create_get: "create e r d = (Inr a, d') \<Longrightarrow> fine e' \<Longrightarrow>
      fst (get e' (au_id a) d') = Inr (a\<lparr>au_now := clock e'\<rparr>)"
    and created_open: "create e r d = (Inr a, d') \<Longrightarrow> st_status (au_state a) = StatusOpen"
begin

lemma create_then_get:
  assumes c: "CreateAuction bind now (create e) raw d = ((201, AuctionView v i title st ends), d')"
    and p: "uuid_parse p = Some i" and f: "fine e'"
  shows "GetAuction uuid_parse (get e') p d' =
      ((200, AuctionView v i title (if clock e' < ends then StatusOpen else StatusClosed) ends), d') \<and>
    evolves d d'"
proof -
  obtain b where b: "bind raw = Some b" "create_validation now b = None"
    using c by (auto simp: CreateAuction_def split: option.splits)
  let ?r = "\<lparr>na_title = cab_title b, na_starting_bid = cab_starting_bid b,
      na_min_increment = cab_min_increment b, na_ends_at = the (cab_ends_at b)\<rparr>"
  obtain a where a: "create e ?r d = (Inr a, d')" "auctionView a = AuctionView v i title st ends"
    using c b by (auto simp: CreateAuction_def split: prod.splits sum.splits)
  have g: "get e' (au_id a) d' = (Inr (a\<lparr>au_now := clock e'\<rparr>), d')"
    using create_get [OF a(1) f] get_reads by (metis prod.collapse)
  have "evolves d d'" using create_evolves [of d e ?r] a(1) by simp
  with a(2) g p created_open [OF a(1)] show ?thesis
    by (auto simp: GetAuction_def auctionView_def auction_IsClosed_def is_closed_def)
qed

end

lemma createAuction_fresh:
  assumes "createAuction i title start inc ends now d = Inr (x, d')"
  shows "evolves d d'"
  using assms
  by (auto simp: createAuction_def Let_def fresh_row_def split: if_splits intro!: evolves_one intro: ledger_create)

lemma createAuction_find:
  assumes "createAuction i title start inc ends now d = Inr ((st, t), d')"
  shows "\<exists>a. find_auction d' i = Some a \<and> a_title a = title \<and> st = state_of_row a \<and> st_status st = StatusOpen"
  using assms by (auto simp: createAuction_def Let_def find_add_auction split: if_splits)

interpretation store: auction_store store_Create store_Get "\<lambda>e. sv_fault (e :: store_env) = NoFault" sv_now
proof unfold_locales
  fix d and e :: store_env and r
  show "evolves d (snd (store_Create e r d))"
  proof (cases "run_stmt (sv_fault e) (createAuction (sv_id e) (na_title r) (na_starting_bid r) (na_min_increment r)
      (na_ends_at r) (sv_now e)) d")
    case (Pair out d')
    then have "d' = d \<or> (\<exists>x. createAuction (sv_id e) (na_title r) (na_starting_bid r) (na_min_increment r)
        (na_ends_at r) (sv_now e) d = Inr (x, d'))"
      by (cases out) (auto dest: run_stmt_InlD run_stmt_InrD)
    then have "evolves d d'" using createAuction_fresh by auto
    with Pair show ?thesis by (simp add: store_Create_def split: sum.splits prod.splits)
  qed
next
  fix e :: store_env and i d
  have "snd (run_stmt (sv_fault e) (getAuction i (sv_now e)) d) = d"
    by (rule run_stmt_read) (auto simp: getAuction_def split: option.splits)
  then show "snd (store_Get e i d) = d"
    by (auto simp: store_Get_def split: sum.splits prod.splits)
next
  fix e e' :: store_env and r d a d'
  assume "store_Create e r d = (Inr a, d')"
  then obtain st t where c: "createAuction (sv_id e) (na_title r) (na_starting_bid r) (na_min_increment r)
      (na_ends_at r) (sv_now e) d = Inr ((st, t), d')"
    and a: "a = \<lparr>au_id = sv_id e, au_title = na_title r, au_state = st, au_now = t\<rparr>"
    by (auto simp: store_Create_def split: sum.splits prod.splits dest!: run_stmt_InrD)
  from createAuction_find [OF c] obtain row where row: "find_auction d' (sv_id e) = Some row"
      "a_title row = na_title r" "st = state_of_row row" "st_status st = StatusOpen" by blast
  then show "st_status (au_state a) = StatusOpen" by (simp add: a)
  assume "sv_fault e' = NoFault"
  with row show "fst (store_Get e' (au_id a) d') = Inr (a\<lparr>au_now := sv_now e'\<rparr>)"
    by (simp add: a store_Get_def getAuction_def run_stmt_def)
qed

section \<open>What an answer tells of the database\<close>

text \<open>
  The answer to \<open>r\<close> is truthful: a 201 names a row of the table with the request's terms and
  publishes the state of the auction's row; a rejection with a state publishes that row's.
\<close>

definition truthful :: "(bid_request \<Rightarrow> 's \<Rightarrow> Contract.response \<times> 's) \<Rightarrow> ('s \<Rightarrow> db) \<Rightarrow> bid_request \<Rightarrow> 's \<Rightarrow> bool" where
  "truthful place db_of r s \<longleftrightarrow>
     (let d' = db_of (snd (place r s)) in
      case place_answer (fst (place r s)) of
        (status, BidAccepted v i q) \<Rightarrow>
          status = 201 \<and> map_option (\<lambda>a. stateView (state_of_row a)) (find_auction d' (req_auction r)) = Some v \<and>
          list_ex (\<lambda>b. b_id b = i \<and> b_seq b = q \<and> b_auction b = req_auction r \<and> b_user b = req_user r \<and>
            b_amount b = req_amount r \<and> b_key b = nullif_empty (req_key r)) (db_bids d')
      | (status, BidRejected v code retryable) \<Rightarrow>
          status \<in> {409, 410, 422} \<and>
          map_option (\<lambda>a. stateView (state_of_row a)) (find_auction d' (req_auction r)) = Some v
      | (status, b) \<Rightarrow> status \<in> {400, 404, 503})"

context bid_engine
begin

lemma answers_truthful:
  assumes ok: "ok s" and good: "good e r s"
  shows "truthful (place e) db_of r s"
proof (cases "fst (place e r s)")
  case (Inl err)
  then show ?thesis by (simp add: truthful_def place_answer_def)
next
  case (Inr res)
  obtain s' where p: "place e r s = (Inr res, s')" using Inr by (metis prod.collapse)
  have named: "named_outcome (res_outcome res)" using place_named [OF p] .
  consider (acc) "res_outcome res = Accepted" | (rej) "res_outcome res \<in> {Conflict, TooLow, Closed}"
    | (bare) "res_outcome res \<in> {NotFound, Invalid}"
    using named by (auto simp: named_outcome_def)
  then show ?thesis
  proof cases
    case acc
    obtain a b where b: "next_bid_ok (db_of s) a b" "db_of s' = apply_bid a b (db_of s)"
        "b_auction b = req_auction r" "b_user b = req_user r" "b_amount b = req_amount r"
        "b_key b = nullif_empty (req_key r)" "b_id b = res_bid_id res" "b_seq b = res_seq res"
        "st_version (res_current res) = res_seq res" "st_highest (res_current res) = req_amount r"
        "st_min_inc (res_current res) = a_min_inc a"
      using place_accept [OF ok good p acc] by blast
    have "find_auction (db_of s') (req_auction r) = Some (raised a (b_amount b) (b_user b) (b_seq b))"
      using b by (simp add: next_bid_ok_def find_apply_bid)
    moreover have "b \<in> set (db_bids (db_of s'))" using b(2) by simp
    ultimately show ?thesis
      using p acc b(3-11)
      by (auto simp: truthful_def place_answer_def stateView_def min_next_bid_def list_ex_iff Let_def intro!: bexI [of _ b])
  next
    case rej
    from place_reject_state [OF ok good p rej] p rej show ?thesis
      by (auto simp: truthful_def place_answer_def stateView_def min_next_bid_def Let_def)
  next
    case bare
    with p show ?thesis by (auto simp: truthful_def place_answer_def Let_def)
  qed
qed

end

text \<open>The next bid of a client that knows nothing but the body of its rejection.\<close>

definition reaimed :: "state_view \<Rightarrow> bid_request \<Rightarrow> bid_request \<Rightarrow> bool" where
  "reaimed v r r' \<longleftrightarrow> req_auction r' = req_auction r \<and> req_expected r' = Some (sw_version v) \<and>
     req_amount r' = sw_min_next v \<and> sw_highest v <s sw_min_next v"

context responsive_engine
begin

lemma retry_lands:
  assumes ok: "ok s" and good: "good e r s" and p: "place e r s = (x, s')"
    and ans: "place_answer x = (status, BidRejected v code True)"
    and next': "good e' r' s'" "calm e' r' s'" and re: "reaimed v r r'"
  shows "fst (place_answer (fst (place e' r' s'))) = 201"
proof -
  obtain res where x: "x = Inr res" and rej: "res_outcome res \<in> {Conflict, TooLow}"
      and v: "v = stateView (res_current res)"
    using ans by (auto simp: place_answer_def split: sum.splits outcome.splits)
  have "sint (st_highest (res_current res)) + sint (st_min_inc (res_current res)) < 2 ^ 63"
  proof (rule ccontr)
    assume "\<not> ?thesis"
    then have "sint (min_next_bid (res_current res)) =
        sint (st_highest (res_current res)) + sint (st_min_inc (res_current res)) - 2 ^ 64"
      unfolding min_next_bid_def by (intro sint_add_wraps) simp
    with re v sint_range [of "st_min_inc (res_current res)"] show False
      by (simp add: reaimed_def stateView_def sless_iff_sint)
  qed
  then obtain res' s'' where "place e' r' s' = (Inr res', s'')" "res_outcome res' = Accepted"
    using reaim_lands [OF ok good p [unfolded x] rej next'] re v
    by (auto simp: reaimed_def stateView_def)
  then show ?thesis by (simp add: place_answer_def)
qed

end

section \<open>Properties\<close>

text \<open>
  Claim C32. The two auction routes agree. When \<open>POST /auctions\<close> answers 201, the auction is a
  fresh row of the ledger, and \<open>GET\<close> on the published id answers 200 with the same version,
  price, minimum, title and end; its status is derived from the end and the clock of the read,
  never from the column alone.
\<close>

theorem create_then_get_agree:
  assumes "CreateAuction bind now (store_Create e) raw d = ((201, AuctionView v i title st ends), d')"
    and "uuid_parse p = Some i" and "sv_fault e' = NoFault"
  shows "GetAuction uuid_parse (store_Get e') p d' =
      ((200, AuctionView v i title (if sv_now e' < ends then StatusOpen else StatusClosed) ends), d') \<and>
    evolves d d'"
  using assms by (rule store.create_then_get)

definition sample_body :: createAuctionBody where
  "sample_body = \<lparr>cab_title = ''lot'', cab_starting_bid = 0, cab_min_increment = 100, cab_ends_at = Some 1000\<rparr>"

definition sample_store_env :: store_env where
  "sample_store_env = \<lparr>sv_id = 5, sv_now = 20, sv_fault = NoFault\<rparr>"

theorem create_then_get_agree_witness:
  "fst (GetAuction (\<lambda>p. Some 5) (store_Get (sample_store_env\<lparr>sv_now := 1000\<rparr>)) ''x''
     (snd (CreateAuction (\<lambda>r. Some sample_body) 10 (store_Create sample_store_env) ''raw'' sample_db))) =
   (200, AuctionView \<lparr>sw_version = 0, sw_highest = 0, sw_min_next = 100\<rparr> 5 ''lot'' StatusClosed 1000)"
proof -
  let ?d' = "snd (CreateAuction (\<lambda>r. Some sample_body) 10 (store_Create sample_store_env) ''raw'' sample_db)"
  have "fst (CreateAuction (\<lambda>r. Some sample_body) 10 (store_Create sample_store_env) ''raw'' sample_db) =
      (201, AuctionView \<lparr>sw_version = 0, sw_highest = 0, sw_min_next = 100\<rparr> 5 ''lot'' StatusOpen 1000)"
    by code_simp
  then have "CreateAuction (\<lambda>r. Some sample_body) 10 (store_Create sample_store_env) ''raw'' sample_db =
      ((201, AuctionView \<lparr>sw_version = 0, sw_highest = 0, sw_min_next = 100\<rparr> 5 ''lot'' StatusOpen 1000), ?d')"
    by (metis prod.collapse)
  from create_then_get_agree [OF this, of "\<lambda>p. Some 5" "''x''" "sample_store_env\<lparr>sv_now := 1000\<rparr>"] show ?thesis
    by (simp add: sample_store_env_def)
qed

text \<open>
  Client errors never reach the CHECK constraints as a 503. An auction body that
  passes the handler's validation cannot violate them, and a bid whose amount the handler lets
  through cannot violate them in the statement of the optimistic engine, whatever the row.
\<close>

theorem validation_implies_checks:
  assumes "schema_ok d"
  shows "(create_validation now b = None \<longrightarrow>
      createAuction i (cab_title b) (cab_starting_bid b) (cab_min_increment b) (the (cab_ends_at b)) dbNow d \<noteq> Inl CheckViolation) \<and>
    (\<not> amount \<le>s 0 \<longrightarrow> opt_place_bid amount user x version bid_id key dbNow d \<noteq> Inl CheckViolation)"
proof (intro conjI impI)
  assume "create_validation now b = None"
  then show "createAuction i (cab_title b) (cab_starting_bid b) (cab_min_increment b) (the (cab_ends_at b)) dbNow d \<noteq> Inl CheckViolation"
    by (auto simp: create_validation_def createAuction_def check_auction_def Let_def sless_iff_sint sle_iff_sint
        split: if_splits)
next
  assume pos: "\<not> amount \<le>s 0"
  then have amount: "0 <s amount" by (simp add: sless_iff_sint sle_iff_sint)
  show "opt_place_bid amount user x version bid_id key dbNow d \<noteq> Inl CheckViolation"
  proof (cases "find_auction d x")
    case (Some a)
    have "update_auction (raised a amount user v) d = Inr (set_auction (raised a amount user v) d)" for v
      using check_auction_raised [OF schema_check [OF assms Some] amount] by (simp add: update_auction_def)
    moreover have "insert_bid \<lparr>b_id = bid_id, b_auction = x, b_user = user, b_amount = amount, b_seq = v,
        b_key = nullif_empty key, b_created_at = dbNow\<rparr> d1 \<noteq> Inl CheckViolation" for v d1
      using amount by (auto simp: insert_bid_def bid_violation_def)
    ultimately show ?thesis
      using Some by (auto simp: opt_place_bid_def split: option.splits sum.splits if_splits)
  qed (simp add: opt_place_bid_def)
qed

theorem validation_implies_checks_witness:
  "createAuction 5 ''lot'' 0 100 1000 20 sample_db \<noteq> Inl CheckViolation"
  using validation_implies_checks [OF db_invD(1) [OF sample_inv], of 10 sample_body 5 20 0 0 0 0 0 "[]"]
  by (simp add: sample_body_def create_validation_def sless_iff_sint sle_iff_sint)



text \<open>
  Claim C29. The retry after a rejection is a single POST. On the three engines: a retryable
  rejection is enough to bid again; the version and the minimum of its body, sent back while
  nothing changed and nothing failed, are answered 201.
\<close>

theorem reaimed_retry_is_accepted:
  assumes "reaimed v r r'"
  shows "(db_inv d \<and> opt_good oe r d \<and> optimistic_PlaceBid oe r d = (x, d') \<and>
      place_answer x = (status, BidRejected v code True) \<and> opt_good oe' r' d' \<and> opt_calm oe' r' d' \<longrightarrow>
      fst (place_answer (fst (optimistic_PlaceBid oe' r' d'))) = 201) \<and>
    (pess_ok p \<and> pess_good pe r p \<and> pessimistic_PlaceBid pe r p = (x, p') \<and>
      place_answer x = (status, BidRejected v code True) \<and> pess_good pe' r' p' \<and> pess_calm pe' r' p' \<longrightarrow>
      fst (place_answer (fst (pessimistic_PlaceBid pe' r' p'))) = 201) \<and>
    (shard_ok s \<and> shard_good se r s \<and> shard_PlaceBid se r s = (x, s') \<and>
      place_answer x = (status, BidRejected v code True) \<and> shard_good se' r' s' \<and> shard_calm se' r' s' \<longrightarrow>
      fst (place_answer (fst (shard_PlaceBid se' r' s'))) = 201)"
proof (intro conjI impI; elim conjE)
qed (rule optimistic.retry_lands [OF _ _ _ _ _ _ assms] pessimistic.retry_lands [OF _ _ _ _ _ _ assms]
    shard.retry_lands [OF _ _ _ _ _ _ assms]; assumption)+

theorem reaimed_retry_is_accepted_witness:
  "fst (place_answer (fst (optimistic_PlaceBid sample_opt_env (sample_request 3 50) sample_db))) = 409 \<and>
   fst (place_answer (fst (optimistic_PlaceBid sample_opt_env (sample_request 0 100) sample_db))) = 201"
proof -
  let ?v = "\<lparr>sw_version = 0, sw_highest = 0, sw_min_next = 100\<rparr>"
  let ?x = "fst (optimistic_PlaceBid sample_opt_env (sample_request 3 50) sample_db)"
  have a: "place_answer ?x = (409, BidRejected ?v ''version_conflict'' True)" by code_simp
  have d: "snd (optimistic_PlaceBid sample_opt_env (sample_request 3 50) sample_db) = sample_db" by code_simp
  then have p: "optimistic_PlaceBid sample_opt_env (sample_request 3 50) sample_db = (?x, sample_db)"
    by (metis prod.collapse)
  have re: "reaimed ?v (sample_request 3 50) (sample_request 0 100)"
    by (simp add: reaimed_def sample_request_def sless_iff_sint)
  have good: "opt_good sample_opt_env r sample_db" for r
    by (simp add: opt_good_def sample_opt_env_def)
  have calm: "opt_calm sample_opt_env (sample_request 0 100) sample_db" by code_simp
  have "fst (place_answer (fst (optimistic_PlaceBid sample_opt_env (sample_request 0 100) sample_db))) = 201"
    using reaimed_retry_is_accepted [OF re] sample_inv good p a calm by blast
  with a show ?thesis by simp
qed


definition sample_route :: "idem_env \<Rightarrow> pess_state idem_state \<Rightarrow> served \<times> pess_state idem_state" where
  "sample_route env = bid_route (\<lambda>k. Some 1) (\<lambda>r. Some \<lparr>pbb_amount = 100, pbb_expected = None\<rparr>) (\<lambda>b. ''{}'')
     (pessimistic_PlaceBid sample_pess_env) env \<lparr>bh_param = ''a'', bh_user = ''u'', bh_key = ''k'', bh_raw = []\<rparr>"

definition sample_route_state :: "pess_state idem_state" where
  "sample_route_state = \<lparr>is_redis = (\<lambda>_. None), is_metrics = \<lparr>m_replayed = 0, m_in_flight = 0, m_attempts = []\<rparr>,
     is_world = sample_pess\<rparr>"


section \<open>The types of the answers\<close>

text \<open>
  The table of \<^verbatim>\<open>docs/projeto/api.md\<close>: which status a body may travel with. A retryable
  body is a 409, a 422 or a 503, and nothing else is retryable.
\<close>

fun well_typed :: "nat \<times> body \<Rightarrow> bool" where
  "well_typed (status, BidAccepted v i n) = (status = 201)"
| "well_typed (status, BidRejected v code retryable) =
     ((status, code, retryable) \<in> {(409, ''version_conflict'', True), (422, ''too_low'', True), (410, ''auction_closed'', False)})"
| "well_typed (status, ErrorResponse code retryable) =
     (if retryable then status = 503 \<and> code = ''unavailable''
      else (status, code) \<in> {400} \<times> {''invalid_user_id'', ''invalid_amount'', ''expected_version_required'', ''invalid_body'',
          ''invalid_title'', ''invalid_ends_at'', ''invalid_min_increment'', ''invalid_starting_bid''} \<union> {(404, ''auction_not_found'')})"
| "well_typed (status, AuctionView v i title st ends) = (status = 200 \<or> status = 201)"
| "well_typed (status, StatusBody m) = (status = 200)"
| "well_typed (status, Unready name err) = (status = 503)"

lemma place_answer_typed: "well_typed (place_answer r)"
  by (auto simp: place_answer_def split: sum.splits outcome.splits)

lemma Readyz_typed: "well_typed (Readyz cs)"
  by (induction cs rule: Readyz.induct) (auto split: option.splits)



end
