(* ===== verification/Router.thy ===== *)
theory Router
  imports Service
begin

text \<open>
  \<^verbatim>\<open>auctiond\<close> as a server: the route table of \<^verbatim>\<open>internal/httpapi/router.go\<close>, one request served by the
  chain its route mounts, and any sequence of requests, with the worker closing auctions in between.
  Which registered pattern a request matches, and the parameter it binds, is gin's doing: the request
  carries both, and a request gin matches with nothing never reaches the program. Panics, and with
  them \<^verbatim>\<open>gin.Recovery\<close>, do not occur in the handlers modelled.

  The contract of an engine is extended by what the other routes do to its database
  (\<open>http_engine\<close>), and interpreted on the three engines.
\<close>

section \<open>The table (router.go)\<close>

datatype http_method = GET | POST

text \<open>What a route mounts; \<open>ToBids\<close> says whether the idempotency middleware is in the chain.\<close>

datatype chain = ToHealthz | ToReadyz | ToMetrics | ToCreate | ToGet | ToBids bool

definition router_New :: "bool \<Rightarrow> ((http_method \<times> string) \<times> chain) list" where
  "router_New idempotency =
     [((GET, ''/healthz''), ToHealthz),
      ((GET, ''/readyz''), ToReadyz),
      ((GET, ''/metrics''), ToMetrics),
      ((POST, ''/auctions''), ToCreate),
      ((GET, ''/auctions/:id''), ToGet),
      ((POST, ''/auctions/:id/bids''), ToBids idempotency)]"

section \<open>One request\<close>

text \<open>The parsers and the encoder the handlers are given.\<close>

record parsers =
  pa_uuid :: "string \<Rightarrow> uuid option"
  pa_bid :: "string \<Rightarrow> placeBidBody option"
  pa_auction :: "string \<Rightarrow> createAuctionBody option"
  pa_render :: "body \<Rightarrow> string"

text \<open>A request as gin hands it over, with what serving it takes from outside.\<close>

record 'e exchange =
  hx_route :: "(http_method \<times> string) option"
  hx_bid :: bid_http
  hx_now :: time
  hx_ready :: "(string \<times> string option) list"
  hx_metrics :: string
  hx_store :: store_env
  hx_idem :: idem_env
  hx_engine :: 'e

datatype http_reply = Unrouted | Plain "nat \<times> body" | Exposition string | Bid served

text \<open>The store works on the engine's database.\<close>

definition on_db ::
  "('s \<Rightarrow> db) \<Rightarrow> (db \<Rightarrow> 's \<Rightarrow> 's) \<Rightarrow> (db \<Rightarrow> (nat \<times> body) \<times> db) \<Rightarrow> 's idem_state \<Rightarrow> http_reply \<times> 's idem_state" where
  "on_db db_of put f s =
     (let (a, d) = f (db_of (is_world s)) in (Plain a, s\<lparr>is_world := put d (is_world s)\<rparr>))"

text \<open>The bid chain of a router built without the middleware.\<close>

definition bare_bid_route ::
  "parsers \<Rightarrow> (bid_request \<Rightarrow> 's \<Rightarrow> Contract.response \<times> 's) \<Rightarrow> bid_http \<Rightarrow> 's idem_state \<Rightarrow> http_reply \<times> 's idem_state" where
  "bare_bid_route P engine h s =
     (case RequireUserID (pa_uuid P) (bh_user h) of
        Inl answer \<Rightarrow> (Plain answer, s)
      | Inr user \<Rightarrow>
          (let (out, w) = bid_handler (pa_uuid P) (pa_bid P) (pa_render P) engine h user [] (is_world s)
           in (Bid (PassedOn out), s\<lparr>is_world := w\<rparr>)))"

fun serve_chain ::
  "parsers \<Rightarrow> ('e \<Rightarrow> bid_request \<Rightarrow> 's \<Rightarrow> Contract.response \<times> 's) \<Rightarrow> ('s \<Rightarrow> db) \<Rightarrow> (db \<Rightarrow> 's \<Rightarrow> 's)
   \<Rightarrow> 'e exchange \<Rightarrow> chain \<Rightarrow> 's idem_state \<Rightarrow> http_reply \<times> 's idem_state" where
  "serve_chain P place db_of put x ToHealthz s = (Plain Healthz, s)"
| "serve_chain P place db_of put x ToReadyz s = (Plain (Readyz (hx_ready x)), s)"
| "serve_chain P place db_of put x ToMetrics s = (Exposition (hx_metrics x), s)"
| "serve_chain P place db_of put x ToCreate s =
     on_db db_of put (CreateAuction (pa_auction P) (hx_now x) (store_Create (hx_store x)) (bh_raw (hx_bid x))) s"
| "serve_chain P place db_of put x ToGet s =
     on_db db_of put (GetAuction (pa_uuid P) (store_Get (hx_store x)) (bh_param (hx_bid x))) s"
| "serve_chain P place db_of put x (ToBids True) s =
     (let (a, s') = bid_route (pa_uuid P) (pa_bid P) (pa_render P) (place (hx_engine x)) (hx_idem x) (hx_bid x) s
      in (Bid a, s'))"
| "serve_chain P place db_of put x (ToBids False) s = bare_bid_route P (place (hx_engine x)) (hx_bid x) s"

definition serve ::
  "parsers \<Rightarrow> ('e \<Rightarrow> bid_request \<Rightarrow> 's \<Rightarrow> Contract.response \<times> 's) \<Rightarrow> ('s \<Rightarrow> db) \<Rightarrow> (db \<Rightarrow> 's \<Rightarrow> 's)
   \<Rightarrow> bool \<Rightarrow> 'e exchange \<Rightarrow> 's idem_state \<Rightarrow> http_reply \<times> 's idem_state" where
  "serve P place db_of put idempotency x s =
     (case hx_route x of
        None \<Rightarrow> (Unrouted, s)
      | Some r \<Rightarrow>
          (case map_of (router_New idempotency) r of
             None \<Rightarrow> (Unrouted, s)
           | Some c \<Rightarrow> serve_chain P place db_of put x c s))"

section \<open>Any sequence of requests\<close>

text \<open>Requests one after the other, and between them the worker's stamps on the same database.\<close>

datatype 'e happening = Request "'e exchange" | Closes uuid time

fun serve_run ::
  "parsers \<Rightarrow> ('e \<Rightarrow> bid_request \<Rightarrow> 's \<Rightarrow> Contract.response \<times> 's) \<Rightarrow> ('s \<Rightarrow> db) \<Rightarrow> (db \<Rightarrow> 's \<Rightarrow> 's)
   \<Rightarrow> bool \<Rightarrow> 'e happening list \<Rightarrow> 's idem_state \<Rightarrow> http_reply list \<times> 's idem_state" where
  "serve_run P place db_of put b [] s = ([], s)"
| "serve_run P place db_of put b (Request x # hs) s =
     (let (a, s') = serve P place db_of put b x s; (as, s'') = serve_run P place db_of put b hs s' in (a # as, s''))"
| "serve_run P place db_of put b (Closes i t # hs) s =
     serve_run P place db_of put b hs (s\<lparr>is_world := put (stamped i t (db_of (is_world s))) (is_world s)\<rparr>)"

text \<open>
  What the requests of a run must respect: amounts at most \<open>money_cap\<close>, and an environment the
  engine relies on at the state each request meets.
\<close>

definition fair_exchange :: "parsers \<Rightarrow> ('e \<Rightarrow> bid_request \<Rightarrow> 's \<Rightarrow> bool) \<Rightarrow> 'e exchange \<Rightarrow> 's \<Rightarrow> bool" where
  "fair_exchange P good x w \<longleftrightarrow>
     (\<forall>r. sint (req_amount r) \<le> money_cap \<longrightarrow> good (hx_engine x) r w) \<and>
     (\<forall>b. pa_bid P (bh_raw (hx_bid x)) = Some b \<longrightarrow> sint (pbb_amount b) \<le> money_cap) \<and>
     (\<forall>b. pa_auction P (bh_raw (hx_bid x)) = Some b \<longrightarrow>
        sint (cab_starting_bid b) \<le> money_cap \<and> sint (cab_min_increment b) < money_cap)"

fun fair_run ::
  "parsers \<Rightarrow> ('e \<Rightarrow> bid_request \<Rightarrow> 's \<Rightarrow> Contract.response \<times> 's) \<Rightarrow> ('s \<Rightarrow> db) \<Rightarrow> (db \<Rightarrow> 's \<Rightarrow> 's)
   \<Rightarrow> ('e \<Rightarrow> bid_request \<Rightarrow> 's \<Rightarrow> bool) \<Rightarrow> bool \<Rightarrow> 'e happening list \<Rightarrow> 's idem_state \<Rightarrow> bool" where
  "fair_run P place db_of put good b [] s = True"
| "fair_run P place db_of put good b (Request x # hs) s =
     (fair_exchange P good x (is_world s) \<and>
      fair_run P place db_of put good b hs (snd (serve P place db_of put b x s)))"
| "fair_run P place db_of put good b (Closes i t # hs) s =
     fair_run P place db_of put good b hs (s\<lparr>is_world := put (stamped i t (db_of (is_world s))) (is_world s)\<rparr>)"

text \<open>A 201 the handler itself wrote for a bid; a replayed one answers from Redis.\<close>

fun confirms :: "http_reply \<Rightarrow> bool" where
  "confirms (Bid (PassedOn out)) = (ho_status out = 201)"
| "confirms a = False"

text \<open>What serving left, against what it found.\<close>

definition books_kept :: "db \<Rightarrow> http_reply list \<Rightarrow> db \<Rightarrow> bool" where
  "books_kept d as d' \<longleftrightarrow>
     evolves d d' \<and> db_inv d' \<and> length (db_bids d) + length (filter confirms as) \<le> length (db_bids d')"

lemma books_kept_trans: "books_kept d as d' \<Longrightarrow> books_kept d' bs d'' \<Longrightarrow> books_kept d (as @ bs) d''"
  by (auto simp: books_kept_def intro: evolves_trans)

section \<open>The chain of a bid\<close>

lemma place_answer_201: "fst (place_answer r) = 201 \<longleftrightarrow> is_accepted r"
  by (cases r) (auto simp: place_answer_def split: outcome.splits)

lemma PlaceBid_cases:
  assumes p: "PlaceBid uuid_parse bind engine ctx param user raw s = (a, s')"
  obtains (refused) "s' = s" "fst a \<noteq> 201"
  | (placed) b r where "bind raw = Some b" "req_amount r = pbb_amount b" "s' = snd (engine ctx r s)"
      "a = place_answer (fst (engine ctx r s))"
proof (cases "uuid_parse param = None \<or> bind raw = None \<or> pbb_amount (the (bind raw)) \<le>s 0")
  case True
  with p show thesis by (intro refused) (auto simp: PlaceBid_def split: option.splits if_splits)
next
  case False
  then obtain x b where xb: "uuid_parse param = Some x" "bind raw = Some b" "\<not> pbb_amount b \<le>s 0" by auto
  with p show thesis
    by (intro placed [of b "\<lparr>req_auction = x, req_user = user, req_amount = pbb_amount b,
        req_expected = pbb_expected b, req_key = []\<rparr>"]) (auto simp: PlaceBid_def Let_def split: prod.splits)
qed

lemma bid_handler_cases:
  assumes "bid_handler uuid_parse bind render engine h user ctx s = (out, s')"
  obtains (refused) "s' = s" "ho_status out \<noteq> 201"
  | (placed) b r where "bind (bh_raw h) = Some b" "req_amount r = pbb_amount b" "s' = snd (engine r s)"
      "ho_status out = 201 \<longleftrightarrow> is_accepted (fst (engine r s))"
proof -
  obtain a w where p: "PlaceBid uuid_parse bind (carrier_PlaceBid engine) ctx (bh_param h) user (bh_raw h) s = (a, w)"
    by fastforce
  have h: "s' = w" "ho_status out = fst a"
    using assms p by (auto simp: bid_handler_def Let_def split: prod.splits)
  from p show thesis
  proof (cases rule: PlaceBid_cases)
    case refused
    with h show thesis by (intro that(1)) simp_all
  next
    case (placed b r)
    with h show thesis
      by (intro that(2) [of b "r\<lparr>req_key := ctx\<rparr>"]) (simp_all add: carrier_PlaceBid_def place_answer_201)
  qed
qed

text \<open>The middleware runs the handler once on the world, or leaves the world alone.\<close>

lemma Middleware_cases:
  assumes "Middleware uuid_parse env key handler s = (a, s')"
  obtains (ran) ctx out where "a = PassedOn out" "handler ctx (is_world s) = (out, is_world s')"
  | (kept) r where "a = Answered r" "is_world s' = is_world s"
  using assms
  by (auto simp: Middleware_def Let_def abort_json_def split: if_splits sum.splits prod.splits verdict.splits)


lemma on_db_simps:
  "on_db db_of put f s = (Plain (fst (f (db_of (is_world s)))), s\<lparr>is_world := put (snd (f (db_of (is_world s)))) (is_world s)\<rparr>)"
  by (simp add: on_db_def case_prod_beta Let_def)

section \<open>The engine and the other writers of its database\<close>

definition world_step :: "db \<Rightarrow> db \<Rightarrow> bool" where
  "world_step d d' \<longleftrightarrow> d' = d \<or> (\<exists>x t. d' = stamped x t d) \<or>
     (\<exists>a. sint (a_highest a) \<le> money_cap \<and> sint (a_min_inc a) < money_cap \<and> d' = created a d)"

lemma world_step_evolves: "world_step d d' \<Longrightarrow> evolves d d'"
  by (auto simp: world_step_def intro: stamp_evolves create_evolves)

lemma world_step_bids: "world_step d d' \<Longrightarrow> db_bids d' = db_bids d"
  by (auto simp: world_step_def)

lemma world_step_capped: "world_step d d' \<Longrightarrow> capped d \<Longrightarrow> capped d'"
  by (auto simp: world_step_def stamped_def created_def intro: capped_close split: option.splits)
    (simp add: capped_def)

lemma world_step_covers: "world_step d d' \<Longrightarrow> covers_on X d d'"
  by (auto simp: world_step_def covers_stamp covers_create)

lemma world_step_create:
  "fresh_row d a \<Longrightarrow> sint (a_highest a) \<le> money_cap \<Longrightarrow> sint (a_min_inc a) < money_cap \<Longrightarrow>
   world_step d (add_auction a d)"
  unfolding world_step_def by (intro disjI2 exI [of _ a]) (simp add: created_def)

lemma createAuction_step:
  assumes "createAuction i title start inc ends now d = Inr (x, d')"
    and "sint start \<le> money_cap" and "sint inc < money_cap"
  shows "world_step d d'"
proof -
  let ?a = "\<lparr>a_id = i, a_title = title, a_status = ColOpen, a_highest = start, a_bidder = None,
            a_min_inc = inc, a_version = 0, a_ends_at = ends, a_closed_at = None\<rparr>"
  have "fresh_row d ?a" "d' = add_auction ?a d"
    using assms(1) by (auto simp: createAuction_def Let_def fresh_row_def split: if_splits)
  with world_step_create [of d ?a] assms(2,3) show ?thesis by simp
qed

lemma store_Create_step:
  assumes "sint (na_starting_bid r) \<le> money_cap" and "sint (na_min_increment r) < money_cap"
  shows "world_step d (snd (store_Create e r d))"
proof -
  let ?st = "createAuction (sv_id e) (na_title r) (na_starting_bid r) (na_min_increment r) (na_ends_at r) (sv_now e)"
  obtain x d' where run: "run_stmt (sv_fault e) ?st d = (x, d')" by fastforce
  then have "d' = d \<or> (\<exists>y. ?st d = Inr (y, d'))"
    by (cases x) (auto dest: run_stmt_InlD run_stmt_InrD)
  moreover have "world_step d d" by (simp add: world_step_def)
  ultimately have "world_step d d'" using createAuction_step [OF _ assms] by blast
  with run show ?thesis by (simp add: store_Create_def split: sum.splits prod.splits)
qed

lemma CreateAuction_step:
  assumes "\<And>b. bind raw = Some b \<Longrightarrow> sint (cab_starting_bid b) \<le> money_cap \<and> sint (cab_min_increment b) < money_cap"
  shows "world_step d (snd (CreateAuction bind now (store_Create e) raw d))"
proof (cases "\<exists>b. bind raw = Some b \<and> create_validation now b = None")
  case True
  then obtain b where b: "bind raw = Some b" "create_validation now b = None" by blast
  let ?r = "\<lparr>na_title = cab_title b, na_starting_bid = cab_starting_bid b,
      na_min_increment = cab_min_increment b, na_ends_at = the (cab_ends_at b)\<rparr>"
  have "snd (CreateAuction bind now (store_Create e) raw d) = snd (store_Create e ?r d)"
    by (simp add: CreateAuction_def b split: prod.split sum.split)
  with store_Create_step [of ?r d e] assms [OF b(1)] show ?thesis by simp
next
  case False
  then have "snd (CreateAuction bind now (store_Create e) raw d) = d"
    by (auto simp: CreateAuction_def split: option.splits)
  then show ?thesis by (simp add: world_step_def)
qed

lemma GetAuction_reads: "snd (GetAuction uuid_parse (store_Get e) param d) = d"
  using store.get_reads [of e _ d]
  by (auto simp: GetAuction_def split: option.splits sum.splits prod.splits store_error.splits) (metis snd_conv)+

locale http_engine = bid_engine place db_of ok good world
  for place :: "'env \<Rightarrow> bid_request \<Rightarrow> 's \<Rightarrow> Contract.response \<times> 's"
    and db_of ok good world +
  fixes put :: "db \<Rightarrow> 's \<Rightarrow> 's"
  assumes db_put: "db_of (put d s) = d"
    and put_ok: "ok s \<Longrightarrow> world_step (db_of s) d \<Longrightarrow> ok (put d s)"
begin

lemma put_books:
  assumes "ok s" and "world_step (db_of s) d" and "\<not> confirms a"
  shows "ok (put d s) \<and> books_kept (db_of s) [a] (db_of (put d s))"
  using put_ok [OF assms(1,2)] world_step_evolves [OF assms(2)] world_step_bids [OF assms(2)] assms(3)
    ok_inv [OF put_ok [OF assms(1,2)]]
  by (simp add: books_kept_def db_put)

lemma handler_books:
  assumes "ok w" and fair: "fair_exchange P good x w"
    and h: "bid_handler (pa_uuid P) (pa_bid P) (pa_render P) (place (hx_engine x)) (hx_bid x) user ctx w = (out, w')"
  shows "ok w' \<and> books_kept (db_of w) [Bid (PassedOn out)] (db_of w')"
  using h
proof (cases rule: bid_handler_cases)
  case refused
  with assms(1) show ?thesis by (simp add: books_kept_def ok_inv)
next
  case (placed b r)
  have good: "good (hx_engine x) r w" using fair placed(1,2) by (simp add: fair_exchange_def)
  have "ok w'" using ok_place [OF assms(1) good] placed(3) by simp
  with place_evolves [OF assms(1) good] place_grows [OF assms(1) good] ok_inv placed(3,4) show ?thesis
    by (auto simp: books_kept_def)
qed

lemma serve_books:
  assumes ok: "ok (is_world s)" and fair: "fair_exchange P good x (is_world s)"
    and run: "serve P place db_of put b x s = (a, s')"
  shows "ok (is_world s') \<and> books_kept (db_of (is_world s)) [a] (db_of (is_world s'))"
proof -
  have quiet: "ok (is_world s) \<and> books_kept (db_of (is_world s)) [c] (db_of (is_world s))" if "\<not> confirms c" for c
    using ok that by (simp add: books_kept_def ok_inv)
  have "serve P place db_of put b x s = (Unrouted, s) \<or>
      (\<exists>c. serve P place db_of put b x s = serve_chain P place db_of put x c s)"
    by (cases "Option.bind (hx_route x) (map_of (router_New b))")
      (auto simp: serve_def split: option.splits)
  then consider (none) "a = Unrouted" "s' = s" | (chain) c where "serve_chain P place db_of put x c s = (a, s')"
    unfolding run by (metis prod.inject)
  then show ?thesis
  proof cases
    case (chain c)
    show ?thesis
    proof (cases c)
      case ToCreate
      have "world_step (db_of (is_world s)) (snd (CreateAuction (pa_auction P) (hx_now x) (store_Create (hx_store x))
          (bh_raw (hx_bid x)) (db_of (is_world s))))"
        by (rule CreateAuction_step) (use fair in \<open>simp add: fair_exchange_def\<close>)
      note books = put_books [OF ok this]
      have "\<not> confirms a" "is_world s' = put (snd (CreateAuction (pa_auction P) (hx_now x) (store_Create (hx_store x))
          (bh_raw (hx_bid x)) (db_of (is_world s)))) (is_world s)"
        using chain unfolding ToCreate serve_chain.simps on_db_simps by auto
      with books show ?thesis by simp
    next
      case ToGet
      have "world_step (db_of (is_world s)) (db_of (is_world s))" by (simp add: world_step_def)
      note books = put_books [OF ok this]
      have "\<not> confirms a" "is_world s' = put (db_of (is_world s)) (is_world s)"
        using chain unfolding ToGet serve_chain.simps on_db_simps GetAuction_reads by auto
      with books show ?thesis by simp
    next
      case (ToBids idem)
      show ?thesis
      proof (cases "RequireUserID (pa_uuid P) (bh_user (hx_bid x))")
        case (Inl e)
        with chain ToBids quiet [of a] show ?thesis
          by (cases idem) (auto simp: bid_route_def bare_bid_route_def split: prod.splits)
      next
        case user: (Inr u)
        let ?h = "bid_handler (pa_uuid P) (pa_bid P) (pa_render P) (place (hx_engine x)) (hx_bid x) u"
        show ?thesis
        proof (cases idem)
          case True
          then obtain r where r: "Middleware (pa_uuid P) (hx_idem x) (bh_key (hx_bid x)) ?h s = (r, s')" "a = Bid r"
            using chain ToBids user by (auto simp: bid_route_def split: prod.splits)
          from r(1) show ?thesis
          proof (cases rule: Middleware_cases)
            case (ran ctx out)
            from handler_books [OF ok fair ran(2)] ran(1) r(2) show ?thesis by simp
          next
            case (kept q)
            with quiet [of a] r(2) show ?thesis by simp
          qed
        next
          case False
          then obtain out where "?h [] (is_world s) = (out, is_world s')" "a = Bid (PassedOn out)"
            using chain ToBids user by (auto simp: bare_bid_route_def Let_def split: prod.splits)
          with handler_books [OF ok fair] show ?thesis by simp
        qed
      qed
    qed (use chain quiet [of a] in auto)
  qed (use quiet [of a] in simp)
qed

lemma run_books:
  "ok (is_world s) \<Longrightarrow> fair_run P place db_of put good b hs s \<Longrightarrow> serve_run P place db_of put b hs s = (as, s') \<Longrightarrow>
   ok (is_world s') \<and> books_kept (db_of (is_world s)) as (db_of (is_world s'))"
proof (induction hs arbitrary: s as)
  case Nil
  then show ?case by (simp add: books_kept_def ok_inv)
next
  case (Cons ev hs)
  show ?case
  proof (cases ev)
    case (Request x)
    obtain a s1 where one: "serve P place db_of put b x s = (a, s1)" by fastforce
    obtain as1 s2 where rest: "serve_run P place db_of put b hs s1 = (as1, s2)" by fastforce
    have fair: "fair_exchange P good x (is_world s)" "fair_run P place db_of put good b hs s1"
      using Cons.prems(2) one by (simp_all add: Request)
    note step = serve_books [OF Cons.prems(1) fair(1) one]
    have as: "as = [a] @ as1" and s': "s' = s2" using Cons.prems(3) one rest by (simp_all add: Request)
    from Cons.IH [OF conjunct1 [OF step] fair(2) rest [folded s']] books_kept_trans [OF conjunct2 [OF step]]
    show ?thesis unfolding as by blast
  next
    case (Closes i t)
    let ?s = "s\<lparr>is_world := put (stamped i t (db_of (is_world s))) (is_world s)\<rparr>"
    have "world_step (db_of (is_world s)) (stamped i t (db_of (is_world s)))" by (auto simp: world_step_def)
    note step = put_books [OF Cons.prems(1) this, of Unrouted]
    have step: "ok (is_world ?s)" "books_kept (db_of (is_world s)) [] (db_of (is_world ?s))"
      using step by (simp_all add: books_kept_def)
    from Cons.IH [OF step(1)] Cons.prems(2,3) books_kept_trans [OF step(2)] show ?thesis by (auto simp: Closes)
  qed
qed

end

interpretation opt_http: http_engine optimistic_PlaceBid "\<lambda>d. d" db_inv opt_good oe_world "\<lambda>d s. d"
  by unfold_locales (auto dest: world_step_evolves intro: db_inv_evolves)

interpretation pess_http: http_engine pessimistic_PlaceBid ps_db pess_ok pess_good "\<lambda>e d. d" "\<lambda>d s. s\<lparr>ps_db := d\<rparr>"
  by unfold_locales (auto simp: pess_ok_def dest: world_step_evolves intro: db_inv_evolves world_step_capped)

interpretation shard_http: http_engine shard_PlaceBid en_db shard_ok shard_good "\<lambda>e d. d" "\<lambda>d s. s\<lparr>en_db := d\<rparr>"
proof unfold_locales
  fix s d
  assume s: "shard_ok s" and w: "world_step (en_db s) d"
  have "coherent (en_mem s i) d" for i
    using s coherent_covers_on [OF _ world_step_covers [OF w, of UNIV]] by (auto simp: shard_ok_def)
  with s w show "shard_ok (s\<lparr>en_db := d\<rparr>)"
    by (auto simp: shard_ok_def dest: world_step_evolves intro: db_inv_evolves world_step_capped)
qed simp

section \<open>Properties\<close>

text \<open>
  Only the bid route reaches Redis or the bids, and only behind an identity: on every other route
  the idempotency state and the recorded bids are as before, and a bid without a readable user is
  refused before either is looked at.
\<close>

lemma only_bids_reach_redis:
  assumes "map_of (router_New b) r = Some c" and "\<And>i. c \<noteq> ToBids i" and "hx_route x = Some r"
  shows "is_redis (snd (serve P place db_of put b x s)) = is_redis s"
  using assms by (cases c) (auto simp: serve_def on_db_simps)

lemma bids_need_an_identity:
  assumes "hx_route x = Some (POST, ''/auctions/:id/bids'')" and "pa_uuid P (bh_user (hx_bid x)) = None"
  shows "snd (serve P place db_of put b x s) = s \<and> \<not> confirms (fst (serve P place db_of put b x s))"
  using assms by (cases b) (simp_all add: serve_def router_New_def bid_route_def bare_bid_route_def RequireUserID_def)


definition sample_parsers :: parsers where
  "sample_parsers = \<lparr>pa_uuid = (\<lambda>k. if k = [] then None else Some 1),
     pa_bid = (\<lambda>r. Some \<lparr>pbb_amount = 100, pbb_expected = None\<rparr>), pa_auction = (\<lambda>r. Some sample_body), pa_render = (\<lambda>b. ''{}'')\<rparr>"

definition sample_exchange :: "http_method \<Rightarrow> string \<Rightarrow> pess_env exchange" where
  "sample_exchange m path = \<lparr>hx_route = Some (m, path),
     hx_bid = \<lparr>bh_param = ''a'', bh_user = ''u'', bh_key = ''k'', bh_raw = []\<rparr>, hx_now = 10, hx_ready = [], hx_metrics = [],
     hx_store = sample_store_env, hx_idem = sample_idem_env 0, hx_engine = sample_pess_env\<rparr>"

text \<open>A bid, its retry under the same key, a created auction, the worker, and a probe.\<close>

definition sample_day :: "pess_env happening list" where
  "sample_day =
     [Request (sample_exchange POST ''/auctions/:id/bids''), Request (sample_exchange POST ''/auctions/:id/bids''),
      Request (sample_exchange POST ''/auctions''), Closes 5 2000, Request (sample_exchange GET ''/healthz'')]"

definition sample_served_day :: "http_reply list \<times> pess_state idem_state" where
  "sample_served_day = serve_run sample_parsers pessimistic_PlaceBid ps_db (\<lambda>d s. s\<lparr>ps_db := d\<rparr>) True sample_day sample_route_state"

lemma sample_day_fair: "fair_run sample_parsers pessimistic_PlaceBid ps_db (\<lambda>d s. s\<lparr>ps_db := d\<rparr>) pess_good True sample_day sample_route_state"
  by (simp add: sample_day_def fair_exchange_def sample_exchange_def pess_good_def sample_pess_env_def sample_parsers_def
      sample_body_def money_cap_def)


end
