(* ===== verification/Transport.thy ===== *)
theory Transport
  imports Prelude
begin

text \<open>
  The transport of the closing path, \<^verbatim>\<open>internal/stream\<close>: the Redis Stream with its one group,
  the producer (\<open>EnsureGroup\<close>, \<open>Publish\<close>, \<open>GroupInfo\<close>) and the consumer (\<open>parse\<close>, \<open>handle\<close>,
  \<open>bury\<close>, \<open>process\<close>, one turn of \<^verbatim>\<open>Run\<close>); then what becomes of a delivered entry, proved
  once for any handler in the locale \<open>expiry_handler\<close>, and how a backlog drains, in
  \<open>answering_handler\<close>. \<^theory_text>\<open>Closing\<close> interprets both on the worker's own handler.

  Redis is the documented behaviour of the commands used: XADD appends under an increasing id and
  MAXLEN \<^verbatim>\<open>~\<close> may drop the oldest entries beyond the cap; XGROUP CREATE at \<^verbatim>\<open>$\<close> sees only what
  comes later; XREADGROUP delivers the next entries and makes all of them pending; XAUTOCLAIM hands
  over pending entries idle for long enough, and forgets those that were trimmed; XACK ends one.
  \<open>tr_faults\<close> says what happens to the round trips to come, in order (none left: all answered),
  and \<open>tr_trims\<close> how far each trim goes. The parser of uuids stays a parameter.
\<close>

section \<open>Streams\<close>

datatype xvalue = Text string | EntryId nat

record xentry =
  xe_id :: nat
  xe_values :: "string \<Rightarrow> xvalue option"

record xpending =
  xp_id :: nat
  xp_consumer :: string
  xp_since :: time

record xgroup =
  xg_delivered :: nat
  xg_pending :: "xpending list"

record xstream =
  sm_entries :: "xentry list"
  sm_last :: nat
  sm_group :: "xgroup option"
  sm_dead :: "(string \<Rightarrow> xvalue option) list"

datatype stream_error = NoGroup | BusyGroup | Unreachable

record stream_metrics =
  sx_published :: nat
  sx_claimed :: nat
  sx_dead :: nat

record transport =
  tr_stream :: xstream
  tr_metrics :: stream_metrics
  tr_faults :: "fault list"
  tr_trims :: "nat list"

type_synonym 'a xcmd = "xstream \<Rightarrow> (stream_error + 'a) \<times> xstream"

definition run_xcmd :: "'a xcmd \<Rightarrow> transport \<Rightarrow> (stream_error + 'a) \<times> transport" where
  "run_xcmd c t =
     (let f = (case tr_faults t of [] \<Rightarrow> NoFault | f # fs \<Rightarrow> f);
          t' = t\<lparr>tr_faults := tl (tr_faults t)\<rparr>;
          (r, s') = c (tr_stream t)
      in case f of
           FaultBefore \<Rightarrow> (Inl Unreachable, t')
         | FaultAfter \<Rightarrow> ((case r of Inl e \<Rightarrow> Inl e | Inr a \<Rightarrow> Inl Unreachable), t'\<lparr>tr_stream := s'\<rparr>)
         | NoFault \<Rightarrow> (r, t'\<lparr>tr_stream := s'\<rparr>))"

definition maxLen :: nat where
  "maxLen = 100000"

definition xgroup_create :: "unit xcmd" where
  "xgroup_create s =
     (case sm_group s of
        Some g \<Rightarrow> (Inl BusyGroup, s)
      | None \<Rightarrow> (Inr (), s\<lparr>sm_group := Some \<lparr>xg_delivered = sm_last s, xg_pending = []\<rparr>\<rparr>))"

text \<open>\<open>trim\<close> is how many entries beyond the cap are dropped, never eating into the cap.\<close>

definition xadd :: "nat \<Rightarrow> (string \<Rightarrow> xvalue option) \<Rightarrow> nat xcmd" where
  "xadd trim vals s =
     (let i = sm_last s + 1;
          es = sm_entries s @ [\<lparr>xe_id = i, xe_values = vals\<rparr>]
      in (Inr i, s\<lparr>sm_last := i, sm_entries := drop (min trim (length es - maxLen)) es\<rparr>))"

text \<open>\<open>sm_dead\<close> is all that was ever written to the dead letter stream; its cap is left out.\<close>

definition xadd_dead :: "(string \<Rightarrow> xvalue option) \<Rightarrow> unit xcmd" where
  "xadd_dead vals s = (Inr (), s\<lparr>sm_dead := sm_dead s @ [vals]\<rparr>)"

definition xreadgroup :: "string \<Rightarrow> nat \<Rightarrow> time \<Rightarrow> xentry list xcmd" where
  "xreadgroup consumer count now s =
     (case sm_group s of
        None \<Rightarrow> (Inl NoGroup, s)
      | Some g \<Rightarrow>
          (let es = take count (filter (\<lambda>e. xg_delivered g < xe_id e) (sm_entries s)) in
           if es = [] then (Inr [], s)
           else (Inr es, s\<lparr>sm_group := Some (g\<lparr>xg_delivered := xe_id (last es),
             xg_pending := xg_pending g @ map (\<lambda>e. \<lparr>xp_id = xe_id e, xp_consumer = consumer, xp_since = now\<rparr>) es\<rparr>)\<rparr>)))"

text \<open>
  XAUTOCLAIM from \<open>start\<close>: of the pending entries at or after it that have been idle long enough,
  the first \<open>count\<close>; the ones no longer in the stream leave the list, the others change hands.
  The cursor it answers is where the scan stopped, or 0 at the end.
\<close>

definition xautoclaim :: "string \<Rightarrow> duration \<Rightarrow> nat \<Rightarrow> nat \<Rightarrow> time \<Rightarrow> (xentry list \<times> nat) xcmd" where
  "xautoclaim consumer min_idle start count now s =
     (case sm_group s of
        None \<Rightarrow> (Inl NoGroup, s)
      | Some g \<Rightarrow>
          (let idle = filter (\<lambda>p. start \<le> xp_id p \<and> min_idle \<le> now - xp_since p) (xg_pending g);
               ids = map xp_id (take count idle);
               live = map xe_id (sm_entries s);
               pend = List.map_filter (\<lambda>p. if xp_id p \<in> set ids
                   then (if xp_id p \<in> set live then Some (p\<lparr>xp_consumer := consumer, xp_since := now\<rparr>) else None)
                   else Some p) (xg_pending g)
           in (Inr (filter (\<lambda>e. xe_id e \<in> set ids) (sm_entries s),
                    (case drop count idle of [] \<Rightarrow> 0 | p # ps \<Rightarrow> xp_id p)),
               s\<lparr>sm_group := Some (g\<lparr>xg_pending := pend\<rparr>)\<rparr>)))"

definition xack :: "nat \<Rightarrow> nat xcmd" where
  "xack i s =
     (case sm_group s of
        None \<Rightarrow> (Inr 0, s)
      | Some g \<Rightarrow> (Inr (length (filter (\<lambda>p. xp_id p = i) (xg_pending g))),
          s\<lparr>sm_group := Some (g\<lparr>xg_pending := filter (\<lambda>p. xp_id p \<noteq> i) (xg_pending g)\<rparr>)\<rparr>))"

section \<open>The producer (stream.go)\<close>

definition field :: string where
  "field = ''auction_id''"

definition EnsureGroup :: "transport \<Rightarrow> bool \<times> transport" where
  "EnsureGroup t =
     (case run_xcmd xgroup_create t of
        (Inr _, t') \<Rightarrow> (True, t')
      | (Inl BusyGroup, t') \<Rightarrow> (True, t')
      | (Inl _, t') \<Rightarrow> (False, t'))"

text \<open>\<open>uuid_string\<close> is \<^verbatim>\<open>uuid.String\<close>.\<close>

definition Publish :: "(uuid \<Rightarrow> string) \<Rightarrow> uuid \<Rightarrow> transport \<Rightarrow> bool \<times> transport" where
  "Publish uuid_string x t =
     (let t0 = t\<lparr>tr_trims := tl (tr_trims t)\<rparr>;
          trim = (case tr_trims t of [] \<Rightarrow> 0 | n # ns \<Rightarrow> n)
      in case run_xcmd (xadd trim [field \<mapsto> Text (uuid_string x)]) t0 of
           (Inl _, t') \<Rightarrow> (False, t')
         | (Inr _, t') \<Rightarrow>
             (True, t'\<lparr>tr_metrics := (tr_metrics t')\<lparr>sx_published := sx_published (tr_metrics t') + 1\<rparr>\<rparr>))"

text \<open>
  \<open>computable\<close>: whether Redis can still compute the lag; \<open>None\<close> is an error, never a zero.
\<close>

definition GroupInfo :: "bool \<Rightarrow> bool \<Rightarrow> xstream \<Rightarrow> (nat \<times> nat) option" where
  "GroupInfo answered computable s =
     (if \<not> answered then None
      else (case sm_group s of
              None \<Rightarrow> None
            | Some g \<Rightarrow>
                if \<not> computable then None
                else Some (length (xg_pending g),
                  length (filter (\<lambda>e. xg_delivered g < xe_id e) (sm_entries s)))))"

section \<open>The consumer (consumer.go)\<close>

definition claimMinIdle :: duration where
  "claimMinIdle = 30 * 1000000000"

definition readCount :: nat where
  "readCount = 64"

text \<open>A handler takes an id and answers whether it returned nil; \<open>'w\<close> is what it works on.\<close>

record 'w consumer =
  cn_transport :: transport
  cn_world :: 'w
  cn_cursor :: nat

definition parse :: "(string \<Rightarrow> uuid option) \<Rightarrow> xentry \<Rightarrow> uuid option" where
  "parse uuid_parse msg =
     (case xe_values msg field of
        Some (Text raw) \<Rightarrow> uuid_parse raw
      | _ \<Rightarrow> None)"

definition ack :: "nat \<Rightarrow> transport \<Rightarrow> bool \<times> transport" where
  "ack i t = (case run_xcmd (xack i) t of (Inl _, t') \<Rightarrow> (False, t') | (Inr _, t') \<Rightarrow> (True, t'))"

text \<open>The dead letter carries the entry's id under \<^verbatim>\<open>entry\<close>, then the message's own fields over it.\<close>

definition buried_values :: "xentry \<Rightarrow> string \<Rightarrow> xvalue option" where
  "buried_values msg = [''entry'' \<mapsto> EntryId (xe_id msg)] ++ xe_values msg"

definition bury :: "xentry \<Rightarrow> transport \<Rightarrow> transport" where
  "bury msg t =
     (case run_xcmd (xadd_dead (buried_values msg)) t of
        (Inl _, t1) \<Rightarrow> t1
      | (Inr _, t1) \<Rightarrow>
          (case ack (xe_id msg) t1 of
             (False, t2) \<Rightarrow> t2
           | (True, t2) \<Rightarrow> t2\<lparr>tr_metrics := (tr_metrics t2)\<lparr>sx_dead := sx_dead (tr_metrics t2) + 1\<rparr>\<rparr>))"

definition handle ::
  "(string \<Rightarrow> uuid option) \<Rightarrow> (uuid \<Rightarrow> 'w \<Rightarrow> bool \<times> 'w) \<Rightarrow> xentry \<Rightarrow> 'w consumer \<Rightarrow> 'w consumer" where
  "handle uuid_parse h msg c =
     (case parse uuid_parse msg of
        None \<Rightarrow> c\<lparr>cn_transport := bury msg (cn_transport c)\<rparr>
      | Some x \<Rightarrow>
          (case h x (cn_world c) of
             (False, w) \<Rightarrow> c\<lparr>cn_world := w\<rparr>
           | (True, w) \<Rightarrow> c\<lparr>cn_world := w, cn_transport := snd (ack (xe_id msg) (cn_transport c))\<rparr>))"

text \<open>\<open>left\<close>: how many messages are handled before the context ends; \<open>None\<close> is never.\<close>

fun process ::
  "(string \<Rightarrow> uuid option) \<Rightarrow> (uuid \<Rightarrow> 'w \<Rightarrow> bool \<times> 'w) \<Rightarrow> nat option \<Rightarrow> xentry list \<Rightarrow> 'w consumer \<Rightarrow> 'w consumer" where
  "process uuid_parse h left [] c = c"
| "process uuid_parse h left (m # ms) c =
     (let c' = handle uuid_parse h m c in
      case left of
        None \<Rightarrow> process uuid_parse h None ms c'
      | Some n \<Rightarrow> if n \<le> 1 then c' else process uuid_parse h (Some (n - 1)) ms c')"

text \<open>
  One turn of \<^verbatim>\<open>Run\<close> while the context lives: the claim, and if it found nothing the read. The
  context may end during the claim, during the read, or after some messages.
\<close>

record turn =
  tu_name :: string
  tu_now :: time
  tu_end_claim :: bool
  tu_end_read :: bool
  tu_left :: "nat option"

definition consumer_turn ::
  "(string \<Rightarrow> uuid option) \<Rightarrow> (uuid \<Rightarrow> 'w \<Rightarrow> bool \<times> 'w) \<Rightarrow> turn \<Rightarrow> 'w consumer \<Rightarrow> 'w consumer" where
  "consumer_turn uuid_parse h tu c =
     (case run_xcmd (xautoclaim (tu_name tu) claimMinIdle (cn_cursor c) readCount (tu_now tu)) (cn_transport c) of
        (r, t1) \<Rightarrow>
          (let c1 = c\<lparr>cn_transport := t1\<rparr> in
           if tu_end_claim tu then c1
           else (case r of
                   Inl _ \<Rightarrow> c1
                 | Inr (claimed, next) \<Rightarrow>
                     (let c2 = c1\<lparr>cn_cursor := next\<rparr> in
                      if claimed \<noteq> [] then
                        process uuid_parse h (tu_left tu) claimed
                          (c2\<lparr>cn_transport := t1\<lparr>tr_metrics := (tr_metrics t1)
                             \<lparr>sx_claimed := sx_claimed (tr_metrics t1) + length claimed\<rparr>\<rparr>\<rparr>)
                      else
                        (case run_xcmd (xreadgroup (tu_name tu) readCount (tu_now tu)) t1 of
                           (r', t2) \<Rightarrow>
                             (let c3 = c2\<lparr>cn_transport := t2\<rparr> in
                              if tu_end_read tu then c3
                              else (case r' of
                                      Inl _ \<Rightarrow> c3
                                    | Inr msgs \<Rightarrow> process uuid_parse h (tu_left tu) msgs c3)))))))"

section \<open>What becomes of a delivered entry\<close>

text \<open>
  An entry is accounted for when it is pending, or nobody can read it and the dead letter stream
  has it, or its auction is settled. \<open>due\<close> is what the producer knew when it published an id,
  \<open>settled\<close> what a handler that answered nil achieved.
\<close>

definition ended ::
  "(string \<Rightarrow> uuid option) \<Rightarrow> (uuid \<Rightarrow> 'w \<Rightarrow> bool) \<Rightarrow> (string \<Rightarrow> xvalue option) list \<Rightarrow> 'w \<Rightarrow> xentry \<Rightarrow> bool" where
  "ended uuid_parse settled dead w e \<longleftrightarrow>
     (case parse uuid_parse e of None \<Rightarrow> buried_values e \<in> set dead | Some x \<Rightarrow> settled x w)"

definition pending_ids :: "xstream \<Rightarrow> nat set" where
  "pending_ids s = (case sm_group s of None \<Rightarrow> {} | Some g \<Rightarrow> xp_id ` set (xg_pending g))"

definition accounted ::
  "(string \<Rightarrow> uuid option) \<Rightarrow> (uuid \<Rightarrow> 'w \<Rightarrow> bool) \<Rightarrow> xstream \<Rightarrow> 'w \<Rightarrow> xentry \<Rightarrow> bool" where
  "accounted uuid_parse settled s w e \<longleftrightarrow>
     xe_id e \<in> pending_ids s \<or> ended uuid_parse settled (sm_dead s) w e"

definition stream_ok ::
  "(string \<Rightarrow> uuid option) \<Rightarrow> (uuid \<Rightarrow> 'w \<Rightarrow> bool) \<Rightarrow> (uuid \<Rightarrow> 'w \<Rightarrow> bool) \<Rightarrow> xstream \<Rightarrow> 'w \<Rightarrow> bool" where
  "stream_ok uuid_parse due settled s w \<longleftrightarrow>
     sorted_wrt (<) (map xe_id (sm_entries s)) \<and>
     (\<forall>e \<in> set (sm_entries s). xe_id e \<le> sm_last s) \<and>
     (\<forall>e \<in> set (sm_entries s). \<forall>x. parse uuid_parse e = Some x \<longrightarrow> due x w) \<and>
     (case sm_group s of
        None \<Rightarrow> sm_entries s = []
      | Some g \<Rightarrow> xg_delivered g \<le> sm_last s \<and>
          (\<forall>e \<in> set (sm_entries s). xe_id e \<le> xg_delivered g \<longrightarrow> accounted uuid_parse settled s w e))"

definition empty_stream :: xstream where
  "empty_stream = \<lparr>sm_entries = [], sm_last = 0, sm_group = None, sm_dead = []\<rparr>"

lemma stream_ok_empty [simp]: "stream_ok p due settled empty_stream w"
  by (simp add: stream_ok_def empty_stream_def)

lemma stream_okD:
  assumes "stream_ok p due settled s w"
  shows "sorted_wrt (<) (map xe_id (sm_entries s))"
    and "e \<in> set (sm_entries s) \<Longrightarrow> xe_id e \<le> sm_last s"
    and "e \<in> set (sm_entries s) \<Longrightarrow> parse p e = Some x \<Longrightarrow> due x w"
    and "sm_group s = Some g \<Longrightarrow> e \<in> set (sm_entries s) \<Longrightarrow> xe_id e \<le> xg_delivered g \<Longrightarrow>
      accounted p settled s w e"
    and "sm_group s = Some g \<Longrightarrow> xg_delivered g \<le> sm_last s"
    and "sm_group s = None \<Longrightarrow> sm_entries s = []"
  using assms by (auto simp: stream_ok_def)

lemma run_xcmdD:
  assumes "run_xcmd c t = (r, t')"
  shows "tr_metrics t' = tr_metrics t"
    and "tr_stream t' = tr_stream t \<or> tr_stream t' = snd (c (tr_stream t))"
    and "r = Inr a \<Longrightarrow> c (tr_stream t) = (Inr a, tr_stream t')"
    and "r = Inl e \<Longrightarrow> e \<noteq> Unreachable \<Longrightarrow> c (tr_stream t) = (Inl e, tr_stream t')"
  using assms by (auto simp: run_xcmd_def Let_def split: fault.splits sum.splits prod.splits)

lemma run_xcmd_stream:
  assumes "run_xcmd c t = (r, t')" and "P (tr_stream t)" and "P (snd (c (tr_stream t)))"
  shows "P (tr_stream t')"
  using run_xcmdD(2) [OF assms(1)] assms(2,3) by auto

lemma run_xcmd_answered:
  assumes "tr_faults t = []"
  shows "run_xcmd c t = (fst (c (tr_stream t)), t\<lparr>tr_stream := snd (c (tr_stream t))\<rparr>)"
  using assms by (auto simp: run_xcmd_def Let_def split: prod.splits)

text \<open>The commands of the stream keep its bookkeeping.\<close>

lemma sorted_same_id:
  assumes "sorted_wrt (<) (map xe_id es)" and "e \<in> set es" and "e' \<in> set es" and "xe_id e = xe_id e'"
  shows "e = e'"
proof -
  have "distinct (map xe_id es)" using assms(1) by (simp add: strict_sorted_iff)
  then show ?thesis using assms(2-) by (auto simp: distinct_map dest: inj_onD)
qed

lemma stream_ok_group_create:
  "stream_ok p due settled s w \<Longrightarrow> stream_ok p due settled (snd (xgroup_create s)) w"
  by (auto simp: xgroup_create_def stream_ok_def split: option.splits)

lemma stream_ok_add:
  assumes ok: "stream_ok p due settled s w" and g: "sm_group s \<noteq> None"
    and due: "\<And>x. parse p \<lparr>xe_id = sm_last s + 1, xe_values = vals\<rparr> = Some x \<Longrightarrow> due x w"
  shows "stream_ok p due settled (snd (xadd trim vals s)) w"
proof -
  let ?new = "\<lparr>xe_id = sm_last s + 1, xe_values = vals\<rparr>"
  let ?es = "sm_entries s @ [?new]"
  define n where "n = min trim (length ?es - maxLen)"
  note d = stream_okD [OF ok]
  obtain gr where gr: "sm_group s = Some gr" using g by auto
  have "sorted_wrt (<) (map xe_id ?es)"
    using d(1,2) by (auto simp: sorted_wrt_append intro: le_imp_less_Suc)
  then have sorted: "sorted_wrt (<) (map xe_id (drop n ?es))"
    unfolding drop_map [symmetric] by (rule sorted_wrt_drop)
  have sub: "set (drop n ?es) \<subseteq> insert ?new (set (sm_entries s))"
    using set_drop_subset [of n ?es] by auto
  have acc: "accounted p settled (s\<lparr>sm_last := l, sm_entries := es\<rparr>) w e = accounted p settled s w e" for l es e
    by (simp add: accounted_def pending_ids_def)
  have "xg_delivered gr \<le> sm_last s" using d(5) [OF gr] .
  then show ?thesis
    using sorted sub d(2,3) d(4) [OF gr] due gr
    unfolding stream_ok_def xadd_def Let_def n_def [symmetric]
    by (fastforce simp: acc)
qed

lemma stream_ok_dead:
  "stream_ok p due settled s w \<Longrightarrow> stream_ok p due settled (snd (xadd_dead vals s)) w"
  by (auto simp: stream_ok_def xadd_dead_def accounted_def ended_def pending_ids_def split: option.splits)

lemma take_upto_last:
  assumes "sorted_wrt (<) (map f xs)" and "x \<in> set xs" and "take n xs \<noteq> []"
    and "f x \<le> (f (last (take n xs)) :: nat)"
  shows "x \<in> set (take n xs)"
proof (rule ccontr)
  assume "x \<notin> set (take n xs)"
  moreover have split: "xs = take n xs @ drop n xs" by simp
  ultimately have x: "x \<in> set (drop n xs)" using assms(2) by (metis Un_iff set_append)
  have "sorted_wrt (<) (map f (take n xs) @ map f (drop n xs))"
    using assms(1) split by (metis map_append)
  with x assms(3) have "f (last (take n xs)) < f x"
    by (auto simp: sorted_wrt_append)
  with assms(4) show False by simp
qed

lemma stream_ok_readgroup:
  assumes ok: "stream_ok p due settled s w"
  shows "stream_ok p due settled (snd (xreadgroup consumer count now s)) w"
proof (cases "sm_group s")
  case None
  with ok show ?thesis by (simp add: xreadgroup_def)
next
  case (Some g)
  let ?undelivered = "filter (\<lambda>e. xg_delivered g < xe_id e) (sm_entries s)"
  let ?es = "take count ?undelivered"
  note d = stream_okD [OF ok]
  show ?thesis
  proof (cases "?es = []")
    case True
    with Some ok show ?thesis by (simp add: xreadgroup_def)
  next
    case False
    then have "last ?es \<in> set ?undelivered" by (meson last_in_set in_set_takeD)
    then have last: "last ?es \<in> set (sm_entries s)" by simp
    have sorted: "sorted_wrt (<) (map xe_id ?undelivered)"
      using d(1) by (simp add: sorted_wrt_map sorted_wrt_filter)
    let ?s' = "snd (xreadgroup consumer count now s)"
    have s': "?s' = s\<lparr>sm_group := Some (g\<lparr>xg_delivered := xe_id (last ?es), xg_pending := xg_pending g @
        map (\<lambda>e. \<lparr>xp_id = xe_id e, xp_consumer = consumer, xp_since = now\<rparr>) ?es\<rparr>)\<rparr>"
      using Some False by (simp add: xreadgroup_def Let_def)
    have "accounted p settled ?s' w e" if e: "e \<in> set (sm_entries s)" and le: "xe_id e \<le> xe_id (last ?es)" for e
    proof (cases "xe_id e \<le> xg_delivered g")
      case True
      then show ?thesis using d(4) [OF Some e] Some unfolding s' by (auto simp: accounted_def pending_ids_def)
    next
      case nd: False
      then have "e \<in> set ?es" using take_upto_last [OF sorted _ False le] e by simp
      then show ?thesis unfolding s' by (force simp: accounted_def pending_ids_def)
    qed
    then show ?thesis
      using d(1-3) last unfolding stream_ok_def by (simp add: s')
  qed
qed

lemma stream_ok_autoclaim:
  assumes ok: "stream_ok p due settled s w"
  shows "stream_ok p due settled (snd (xautoclaim consumer idle start count now s)) w"
proof (cases "sm_group s")
  case None
  with ok show ?thesis by (simp add: xautoclaim_def)
next
  case (Some g)
  let ?s' = "snd (xautoclaim consumer idle start count now s)"
  obtain pend where s': "?s' = s\<lparr>sm_group := Some (g\<lparr>xg_pending := pend\<rparr>)\<rparr>"
    and keep: "\<And>q. q \<in> set (xg_pending g) \<Longrightarrow> xp_id q \<in> xe_id ` set (sm_entries s) \<Longrightarrow> xp_id q \<in> xp_id ` set pend"
  proof -
    have "\<exists>pend. ?s' = s\<lparr>sm_group := Some (g\<lparr>xg_pending := pend\<rparr>)\<rparr> \<and>
      (\<forall>q \<in> set (xg_pending g). xp_id q \<in> xe_id ` set (sm_entries s) \<longrightarrow> xp_id q \<in> xp_id ` set pend)"
      using Some
      by (force simp: xautoclaim_def Let_def List.map_filter_def image_iff intro!: exI split: if_splits)
    then show ?thesis using that by blast
  qed
  have "accounted p settled ?s' w e"
    if e: "e \<in> set (sm_entries s)" and acc: "accounted p settled s w e" for e
  proof (cases "xe_id e \<in> pending_ids s")
    case True
    then obtain q where q: "q \<in> set (xg_pending g)" "xp_id q = xe_id e"
      using Some by (auto simp: pending_ids_def)
    then have "xe_id e \<in> xp_id ` set pend" using keep [of q] e by simp
    then show ?thesis by (simp add: s' accounted_def pending_ids_def)
  next
    case False
    then show ?thesis using acc by (simp add: s' accounted_def)
  qed
  then show ?thesis
    using ok Some s' by (auto simp: stream_ok_def)
qed

lemma stream_ok_ack:
  assumes ok: "stream_ok p due settled s w"
    and m: "m \<in> set (sm_entries s)" "xe_id m = i"
    and fin: "ended p settled (sm_dead s) w m"
  shows "stream_ok p due settled (snd (xack i s)) w"
proof (cases "sm_group s")
  case None
  with ok show ?thesis by (simp add: xack_def)
next
  case (Some g)
  have "accounted p settled (snd (xack i s)) w e"
    if e: "e \<in> set (sm_entries s)" and acc: "accounted p settled s w e" for e
  proof (cases "xe_id e = i")
    case True
    then have "e = m" using sorted_same_id [OF stream_okD(1) [OF ok] e m(1)] m(2) by simp
    then show ?thesis using fin Some by (simp add: accounted_def xack_def)
  next
    case False
    then show ?thesis using acc Some by (auto simp: accounted_def pending_ids_def xack_def)
  qed
  then show ?thesis
    using ok Some by (auto simp: stream_ok_def xack_def)
qed

section \<open>The consumer and its handler\<close>

text \<open>
  What the consumer asks of the handler it is given: it keeps an invariant of its own, an id
  that was \<open>due\<close> stays due, and when it answers nil for a due id the matter is settled for good.
\<close>

locale expiry_handler =
  fixes h :: "uuid \<Rightarrow> 'w \<Rightarrow> bool \<times> 'w"
    and ok :: "'w \<Rightarrow> bool"
    and due :: "uuid \<Rightarrow> 'w \<Rightarrow> bool"
    and settled :: "uuid \<Rightarrow> 'w \<Rightarrow> bool"
  assumes keeps: "ok w \<Longrightarrow> ok (snd (h x w))"
    and stays_due: "ok w \<Longrightarrow> due y w \<Longrightarrow> due y (snd (h x w))"
    and stays_settled: "ok w \<Longrightarrow> settled y w \<Longrightarrow> settled y (snd (h x w))"
    and settles: "ok w \<Longrightarrow> due x w \<Longrightarrow> fst (h x w) \<Longrightarrow> settled x (snd (h x w))"

definition consumer_ok ::
  "(string \<Rightarrow> uuid option) \<Rightarrow> ('w \<Rightarrow> bool) \<Rightarrow> (uuid \<Rightarrow> 'w \<Rightarrow> bool) \<Rightarrow> (uuid \<Rightarrow> 'w \<Rightarrow> bool) \<Rightarrow> 'w consumer \<Rightarrow> bool" where
  "consumer_ok uuid_parse ok due settled c \<longleftrightarrow>
     ok (cn_world c) \<and> stream_ok uuid_parse due settled (tr_stream (cn_transport c)) (cn_world c)"

lemma stream_ok_world:
  assumes "stream_ok p due settled s w"
    and "\<And>x. due x w \<Longrightarrow> due x w'" and "\<And>x. settled x w \<Longrightarrow> settled x w'"
  shows "stream_ok p due settled s w'"
proof -
  have "accounted p settled s w' e" if "accounted p settled s w e" for e
    using that assms(3) by (auto simp: accounted_def ended_def split: option.splits)
  then show ?thesis using assms(1,2) by (auto simp: stream_ok_def split: option.splits)
qed

lemma bury_stream:
  assumes ok: "stream_ok p due settled (tr_stream t) w"
    and m: "m \<in> set (sm_entries (tr_stream t))" "parse p m = None"
  shows "stream_ok p due settled (tr_stream (bury m t)) w"
proof -
  obtain r1 t1 where d: "run_xcmd (xadd_dead (buried_values m)) t = (r1, t1)" by fastforce
  have ok1: "stream_ok p due settled (tr_stream t1) w"
    using run_xcmd_stream [OF d, where P = "\<lambda>s. stream_ok p due settled s w"] ok stream_ok_dead [OF ok]
    by simp
  obtain r2 t2 where a: "run_xcmd (xack (xe_id m)) t1 = (r2, t2)" by fastforce
  have ok2: "stream_ok p due settled (tr_stream t2) w" if "r1 = Inr u" for u
  proof -
    have s1: "tr_stream t1 = snd (xadd_dead (buried_values m) (tr_stream t))"
      using run_xcmdD(3) [OF d] that by simp
    have "m \<in> set (sm_entries (tr_stream t1))" "ended p settled (sm_dead (tr_stream t1)) w m"
      using m by (simp_all add: s1 xadd_dead_def ended_def)
    then show ?thesis
      using run_xcmd_stream [OF a, where P = "\<lambda>s. stream_ok p due settled s w"] ok1
        stream_ok_ack [OF ok1 _ refl] by simp
  qed
  show ?thesis
    using ok1 ok2 by (simp add: bury_def ack_def d a split: sum.split)
qed

lemma ack_stream:
  assumes "stream_ok p due settled (tr_stream t) w"
    and "m \<in> set (sm_entries (tr_stream t))" "ended p settled (sm_dead (tr_stream t)) w m"
  shows "stream_ok p due settled (tr_stream (snd (ack (xe_id m) t))) w"
proof -
  obtain r t' where a: "run_xcmd (xack (xe_id m)) t = (r, t')" by fastforce
  then show ?thesis
    using run_xcmd_stream [OF a, where P = "\<lambda>s. stream_ok p due settled s w"] assms(1)
      stream_ok_ack [OF assms(1,2) refl assms(3)] by (simp add: ack_def split: sum.split)
qed

text \<open>Only the producer changes the entries of the stream.\<close>

lemma run_xcmd_entries:
  assumes "run_xcmd c t = (r, t')" and "\<And>s. sm_entries (snd (c s)) = sm_entries s"
  shows "sm_entries (tr_stream t') = sm_entries (tr_stream t)"
  using run_xcmdD(2) [OF assms(1)] assms(2) by auto

lemma xcmd_entries [simp]:
  "sm_entries (snd (xadd_dead v s)) = sm_entries s"
  "sm_entries (snd (xack i s)) = sm_entries s"
  "sm_entries (snd (xreadgroup n k now s)) = sm_entries s"
  "sm_entries (snd (xautoclaim n d i k now s)) = sm_entries s"
  by (auto simp: xadd_dead_def xack_def xreadgroup_def xautoclaim_def Let_def split: option.splits)

lemma ack_entries [simp]: "sm_entries (tr_stream (snd (ack i t))) = sm_entries (tr_stream t)"
  using run_xcmd_entries [of "xack i" t "fst (run_xcmd (xack i) t)" "snd (run_xcmd (xack i) t)"]
  by (auto simp: ack_def split: prod.split sum.split)

lemma bury_entries [simp]: "sm_entries (tr_stream (bury m t)) = sm_entries (tr_stream t)"
proof -
  obtain r1 t1 where d: "run_xcmd (xadd_dead (buried_values m)) t = (r1, t1)" by fastforce
  obtain b t2 where a: "ack (xe_id m) t1 = (b, t2)" by fastforce
  have "sm_entries (tr_stream t1) = sm_entries (tr_stream t)"
    using run_xcmd_entries [OF d] by simp
  moreover have "sm_entries (tr_stream t2) = sm_entries (tr_stream t1)"
    using ack_entries [of "xe_id m" t1] by (simp add: a)
  ultimately show ?thesis by (simp add: bury_def d a split: sum.split bool.split)
qed

lemma handle_entries [simp]:
  "sm_entries (tr_stream (cn_transport (handle p h m c))) = sm_entries (tr_stream (cn_transport c))"
  by (simp add: handle_def split: option.split prod.split bool.split)

text \<open>The messages a read or a claim hands over are entries of the stream.\<close>

lemma readgroup_msgs:
  "xreadgroup n k now s = (Inr ms, s') \<Longrightarrow> set ms \<subseteq> set (sm_entries s)"
  by (auto simp: xreadgroup_def Let_def split: option.splits if_splits dest: in_set_takeD)

lemma autoclaim_msgs:
  "xautoclaim n d i k now s = (Inr (ms, nx), s') \<Longrightarrow> set ms \<subseteq> set (sm_entries s)"
  by (auto simp: xautoclaim_def Let_def split: option.splits if_splits)

context expiry_handler
begin

abbreviation consumer_inv where
  "consumer_inv p \<equiv> consumer_ok p ok due settled"

lemma handler_world:
  assumes "ok w" and "stream_ok p due settled s w"
  shows "stream_ok p due settled s (snd (h x w))"
  using assms stays_due stays_settled by (blast intro: stream_ok_world)

lemma handle_ok:
  assumes inv: "consumer_inv p c" and m: "m \<in> set (sm_entries (tr_stream (cn_transport c)))"
  shows "consumer_inv p (handle p h m c)"
proof (cases "parse p m")
  case None
  then show ?thesis
    using inv m by (simp add: handle_def consumer_ok_def bury_stream)
next
  case (Some x)
  have w: "ok (cn_world c)" and s: "stream_ok p due settled (tr_stream (cn_transport c)) (cn_world c)"
    using inv by (simp_all add: consumer_ok_def)
  obtain b w' where h: "h x (cn_world c) = (b, w')" by fastforce
  have w': "ok w'" "stream_ok p due settled (tr_stream (cn_transport c)) w'"
    using keeps [OF w, of x] handler_world [OF w s, of x] by (simp_all add: h)
  have "ended p settled (sm_dead (tr_stream (cn_transport c))) w' m" if b
    using settles [OF w stream_okD(3) [OF s m Some]] that by (simp add: h ended_def Some)
  then show ?thesis
    using w' ack_stream [OF w'(2) m] by (cases b) (simp_all add: handle_def Some h consumer_ok_def)
qed

lemma process_ok:
  assumes "consumer_inv p c" and "set ms \<subseteq> set (sm_entries (tr_stream (cn_transport c)))"
  shows "consumer_inv p (process p h left ms c)"
  using assms
proof (induction ms arbitrary: left c)
  case (Cons m ms)
  have ok: "consumer_inv p (handle p h m c)"
    using Cons.prems by (intro handle_ok) auto
  have "set ms \<subseteq> set (sm_entries (tr_stream (cn_transport (handle p h m c))))"
    using Cons.prems(2) by simp
  with ok show ?case
    using Cons.IH by (simp add: Let_def split: option.split)
qed simp

lemma turn_ok:
  assumes inv: "consumer_inv p c"
  shows "consumer_inv p (consumer_turn p h tu c)"
proof -
  let ?claim = "xautoclaim (tu_name tu) claimMinIdle (cn_cursor c) readCount (tu_now tu)"
  let ?read = "xreadgroup (tu_name tu) readCount (tu_now tu)"
  have w: "ok (cn_world c)" and s: "stream_ok p due settled (tr_stream (cn_transport c)) (cn_world c)"
    using inv by (simp_all add: consumer_ok_def)
  obtain r t1 where a: "run_xcmd ?claim (cn_transport c) = (r, t1)" by fastforce
  obtain r' t2 where b: "run_xcmd ?read t1 = (r', t2)" by fastforce
  have s1: "stream_ok p due settled (tr_stream t1) (cn_world c)"
    using run_xcmd_stream [OF a, where P = "\<lambda>s. stream_ok p due settled s (cn_world c)"] s
      stream_ok_autoclaim [OF s] by simp
  have s2: "stream_ok p due settled (tr_stream t2) (cn_world c)"
    using run_xcmd_stream [OF b, where P = "\<lambda>s. stream_ok p due settled s (cn_world c)"] s1
      stream_ok_readgroup [OF s1] by simp
  have e1: "set ms \<subseteq> set (sm_entries (tr_stream t1))" if "r = Inr (ms, nx)" for ms nx
    using autoclaim_msgs [OF run_xcmdD(3) [OF a that]] run_xcmd_entries [OF a] by simp
  have e2: "set ms \<subseteq> set (sm_entries (tr_stream t2))" if "r' = Inr ms" for ms
    using readgroup_msgs [OF run_xcmdD(3) [OF b that]] run_xcmd_entries [OF b] by simp
  have i1: "consumer_inv p c'" if "cn_world c' = cn_world c" "tr_stream (cn_transport c') = tr_stream t1" for c'
    using w s1 that by (simp add: consumer_ok_def)
  have i2: "consumer_inv p c'" if "cn_world c' = cn_world c" "tr_stream (cn_transport c') = tr_stream t2" for c'
    using w s2 that by (simp add: consumer_ok_def)
  show ?thesis
    by (simp add: consumer_turn_def a b Let_def i1 i2 e1 e2 process_ok split: sum.split)
qed

lemma post_ok:
  assumes inv: "consumer_inv p c" and x: "due x (cn_world c)"
    and "sm_group (tr_stream (cn_transport c)) \<noteq> None" and "p (us x) = Some x"
  shows "consumer_inv p (c\<lparr>cn_transport := snd (Publish us x (cn_transport c))\<rparr>)"
proof -
  let ?t = "cn_transport c"
  let ?trim = "case tr_trims ?t of [] \<Rightarrow> 0 | n # ns \<Rightarrow> n"
  let ?t0 = "?t\<lparr>tr_trims := tl (tr_trims ?t)\<rparr>"
  have s: "stream_ok p due settled (tr_stream ?t0) (cn_world c)"
    using inv by (simp add: consumer_ok_def)
  obtain r t1 where a: "run_xcmd (xadd ?trim [field \<mapsto> Text (us x)]) ?t0 = (r, t1)" by fastforce
  have "stream_ok p due settled (snd (xadd ?trim [field \<mapsto> Text (us x)] (tr_stream ?t0))) (cn_world c)"
    using assms by (intro stream_ok_add [OF s]) (auto simp: parse_def)
  then have "stream_ok p due settled (tr_stream t1) (cn_world c)"
    using run_xcmd_stream [OF a, where P = "\<lambda>s. stream_ok p due settled s (cn_world c)"] s by simp
  then show ?thesis
    using inv by (simp add: consumer_ok_def Publish_def a Let_def split: sum.split)
qed

lemma group_ok:
  assumes inv: "consumer_inv p c"
  shows "consumer_inv p (c\<lparr>cn_transport := snd (EnsureGroup (cn_transport c))\<rparr>)"
proof -
  have s: "stream_ok p due settled (tr_stream (cn_transport c)) (cn_world c)"
    using inv by (simp add: consumer_ok_def)
  obtain r t1 where a: "run_xcmd xgroup_create (cn_transport c) = (r, t1)" by fastforce
  have "stream_ok p due settled (tr_stream t1) (cn_world c)"
    using run_xcmd_stream [OF a, where P = "\<lambda>s. stream_ok p due settled s (cn_world c)"] s
      stream_ok_group_create [OF s] by simp
  then show ?thesis
    using inv by (auto simp: consumer_ok_def EnsureGroup_def a split: sum.split stream_error.split)
qed

end

section \<open>A turn on a quiet transport\<close>

definition undelivered :: "xstream \<Rightarrow> xentry list" where
  "undelivered s =
     (case sm_group s of None \<Rightarrow> [] | Some g \<Rightarrow> filter (\<lambda>e. xg_delivered g < xe_id e) (sm_entries s))"

lemma GroupInfo_Some_iff:
  "GroupInfo True True s = Some (m, n) \<longleftrightarrow>
   (\<exists>g. sm_group s = Some g \<and> length (xg_pending g) = m \<and> length (undelivered s) = n)"
  by (auto simp: GroupInfo_def undelivered_def split: option.splits)

definition without :: "nat set \<Rightarrow> xgroup \<Rightarrow> xgroup" where
  "without I g = g\<lparr>xg_pending := filter (\<lambda>q. xp_id q \<notin> I) (xg_pending g)\<rparr>"

lemma without_simps [simp]:
  "without {} g = g" "without I (without J g) = without (I \<union> J) g"
  "xg_delivered (without I g) = xg_delivered g"
  "xg_pending (without I g) = filter (\<lambda>q. xp_id q \<notin> I) (xg_pending g)"
  by (simp_all add: without_def conj_commute)

lemma ack_quiet:
  assumes "tr_faults t = []" and "sm_group (tr_stream t) = Some g"
  shows "fst (ack i t)" and "tr_faults (snd (ack i t)) = []"
    and "sm_group (tr_stream (snd (ack i t))) = Some (without {i} g)"
  using assms by (simp_all add: ack_def run_xcmd_answered xack_def without_def)

lemma bury_quiet:
  assumes "tr_faults t = []" and "sm_group (tr_stream t) = Some g"
  shows "tr_faults (bury m t) = []" and "sm_group (tr_stream (bury m t)) = Some (without {xe_id m} g)"
proof -
  let ?t1 = "t\<lparr>tr_stream := snd (xadd_dead (buried_values m) (tr_stream t))\<rparr>"
  have d: "run_xcmd (xadd_dead (buried_values m)) t = (Inr (), ?t1)"
    using assms(1) by (simp add: run_xcmd_answered xadd_dead_def)
  have "tr_faults ?t1 = []" and "sm_group (tr_stream ?t1) = Some g"
    using assms by (simp_all add: xadd_dead_def)
  note q = ack_quiet [OF this, of "xe_id m"]
  obtain t2 where a: "ack (xe_id m) ?t1 = (True, t2)"
    using q(1) by (metis prod.collapse)
  show "tr_faults (bury m t) = []" and "sm_group (tr_stream (bury m t)) = Some (without {xe_id m} g)"
    using q(2,3) by (simp_all add: bury_def d a)
qed

text \<open>Whatever the handler answers, one message ends at most its own pending entry.\<close>

lemma handle_pending:
  assumes "tr_faults (cn_transport c) = []" and "sm_group (tr_stream (cn_transport c)) = Some g"
  shows "tr_faults (cn_transport (handle p h m c)) = []"
    and "sm_group (tr_stream (cn_transport (handle p h m c))) \<in> {Some g, Some (without {xe_id m} g)}"
  using assms ack_quiet [OF assms] bury_quiet [OF assms]
  by (auto simp: handle_def split: option.split prod.split bool.split)

lemma handle_answered:
  assumes "tr_faults (cn_transport c) = []" and "sm_group (tr_stream (cn_transport c)) = Some g"
    and "\<And>x. parse p m = Some x \<Longrightarrow> fst (h x (cn_world c))"
  shows "sm_group (tr_stream (cn_transport (handle p h m c))) = Some (without {xe_id m} g)"
  using ack_quiet [OF assms(1,2)] bury_quiet [OF assms(1,2)] assms(3)
  by (auto simp: handle_def split: option.split prod.split bool.split)

text \<open>With nothing pending, the claim finds nothing and the read takes the next 64.\<close>

definition delivered_to :: "string \<Rightarrow> time \<Rightarrow> xstream \<Rightarrow> xgroup \<Rightarrow> xgroup" where
  "delivered_to n now s g =
     (let es = take readCount (undelivered s)
      in if es = [] then g
         else g\<lparr>xg_delivered := xe_id (last es),
           xg_pending := map (\<lambda>e. \<lparr>xp_id = xe_id e, xp_consumer = n, xp_since = now\<rparr>) es\<rparr>)"

lemma turn_quiet:
  assumes q: "tr_faults (cn_transport c) = []" and g: "sm_group (tr_stream (cn_transport c)) = Some g"
    and none: "xg_pending g = []" and live: "\<not> tu_end_claim tu" "\<not> tu_end_read tu"
  shows "\<exists>c'. consumer_turn p h tu c =
      process p h (tu_left tu) (take readCount (undelivered (tr_stream (cn_transport c)))) c' \<and>
    tr_faults (cn_transport c') = [] \<and> cn_world c' = cn_world c \<and>
    tr_stream (cn_transport c') = (tr_stream (cn_transport c))
      \<lparr>sm_group := Some (delivered_to (tu_name tu) (tu_now tu) (tr_stream (cn_transport c)) g)\<rparr> \<and>
    sm_group (tr_stream (cn_transport c')) =
      Some (delivered_to (tu_name tu) (tu_now tu) (tr_stream (cn_transport c)) g)"
proof -
  let ?t = "cn_transport c" and ?s = "tr_stream (cn_transport c)"
  let ?es = "take readCount (undelivered ?s)"
  have claim: "run_xcmd (xautoclaim (tu_name tu) claimMinIdle (cn_cursor c) readCount (tu_now tu)) ?t
      = (Inr ([], 0), ?t)"
    using q g none by (simp add: run_xcmd_answered xautoclaim_def Let_def List.map_filter_def)
  have read: "xreadgroup (tu_name tu) readCount (tu_now tu) ?s =
      (Inr ?es, ?s\<lparr>sm_group := Some (delivered_to (tu_name tu) (tu_now tu) ?s g)\<rparr>)"
    using g none by (simp add: xreadgroup_def Let_def delivered_to_def undelivered_def)
  show ?thesis
    using live q
    by (intro exI [of _ "c\<lparr>cn_cursor := 0, cn_transport := ?t\<lparr>tr_stream := ?s\<lparr>sm_group :=
          Some (delivered_to (tu_name tu) (tu_now tu) ?s g)\<rparr>\<rparr>\<rparr>"])
      (simp add: consumer_turn_def claim Let_def run_xcmd_answered read)
qed

lemma length_filter_other:
  assumes "distinct (map f xs)"
  shows "length xs - 1 \<le> length (filter (\<lambda>x. f x \<noteq> i) xs)"
  using assms
proof (induction xs)
  case (Cons x xs)
  then show ?case
    by (cases "f x = i") (auto simp: filter_id_conv image_iff intro!: eq_refl arg_cong [where f = length] filter_True [symmetric])
qed simp

lemma sorted_last_max:
  "sorted_wrt (<) (map f xs) \<Longrightarrow> x \<in> set xs \<Longrightarrow> f x \<le> (f (last xs) :: nat)"
  by (induction xs rule: rev_induct) (auto simp: sorted_wrt_append intro: less_imp_le)

lemma delivered_pending:
  assumes "xg_pending g = []"
  shows "map xp_id (xg_pending (delivered_to n now s g)) = map xe_id (take readCount (undelivered s))"
  using assms by (simp add: delivered_to_def Let_def)

lemma undelivered_sorted:
  "sorted_wrt (<) (map xe_id (sm_entries s)) \<Longrightarrow> sorted_wrt (<) (map xe_id (undelivered s))"
  by (auto simp: undelivered_def sorted_wrt_map sorted_wrt_filter split: option.split)

lemma undelivered_after:
  assumes "sorted_wrt (<) (map xe_id (sm_entries s))" and g: "sm_group s = Some g"
    and g': "sm_group s' = Some (without I (delivered_to n now s g))" and "sm_entries s' = sm_entries s"
  shows "undelivered s' = drop readCount (undelivered s)"
proof -
  let ?u = "undelivered s"
  have u: "?u = filter (\<lambda>e. xg_delivered g < xe_id e) (sm_entries s)"
    using g by (simp add: undelivered_def)
  have sorted: "sorted_wrt (<) (map xe_id ?u)" using undelivered_sorted [OF assms(1)] .
  show ?thesis
  proof (cases "take readCount ?u = []")
    case True
    then have "?u = []" by (simp add: readCount_def)
    then show ?thesis
      using u g' assms(4) by (simp add: undelivered_def delivered_to_def)
  next
    case False
    let ?k = "xe_id (last (take readCount ?u))"
    have "last (take readCount ?u) \<in> set ?u" using False by (meson last_in_set in_set_takeD)
    then have "xg_delivered g < ?k" by (simp add: u)
    then have "filter (\<lambda>e. ?k < xe_id e) (sm_entries s) = filter (\<lambda>e. ?k < xe_id e) ?u"
      by (auto simp: u intro!: filter_cong)
    also have "\<dots> = filter (\<lambda>e. ?k < xe_id e) (take readCount ?u @ drop readCount ?u)"
      by simp
    also have "\<dots> = drop readCount ?u"
    proof -
      have s2: "sorted_wrt (<) (map xe_id (take readCount ?u) @ map xe_id (drop readCount ?u))"
        using sorted by (simp flip: map_append)
      have "filter (\<lambda>e. ?k < xe_id e) (take readCount ?u) = []"
        using sorted_last_max [of xe_id "take readCount ?u"] s2
        by (auto simp: filter_empty_conv not_less sorted_wrt_append)
      moreover have "filter (\<lambda>e. ?k < xe_id e) (drop readCount ?u) = drop readCount ?u"
        using s2 False by (auto simp: sorted_wrt_append filter_id_conv)
      ultimately show ?thesis by (simp del: append_take_drop_id)
    qed
    finally show ?thesis
      using False g' assms(4) by (simp add: undelivered_def delivered_to_def Let_def)
  qed
qed

text \<open>A turn whose context outlives it.\<close>

definition calm_turn :: "turn \<Rightarrow> bool" where
  "calm_turn tu \<longleftrightarrow> \<not> tu_end_claim tu \<and> \<not> tu_end_read tu \<and> tu_left tu = None"

locale answering_handler = expiry_handler +
  assumes answers: "ok w \<Longrightarrow> due x w \<Longrightarrow> fst (h x w)"

context answering_handler
begin

lemma process_quiet:
  assumes "consumer_inv p c" and "set ms \<subseteq> set (sm_entries (tr_stream (cn_transport c)))"
    and "tr_faults (cn_transport c) = []" and "sm_group (tr_stream (cn_transport c)) = Some g"
  shows "tr_faults (cn_transport (process p h None ms c)) = [] \<and>
    sm_entries (tr_stream (cn_transport (process p h None ms c))) = sm_entries (tr_stream (cn_transport c)) \<and>
    sm_group (tr_stream (cn_transport (process p h None ms c))) = Some (without (xe_id ` set ms) g)"
  using assms
proof (induction ms arbitrary: c g)
  case (Cons m ms)
  let ?c' = "handle p h m c"
  have inv: "ok (cn_world c)" "stream_ok p due settled (tr_stream (cn_transport c)) (cn_world c)"
    using Cons.prems(1) by (simp_all add: consumer_ok_def)
  have m: "m \<in> set (sm_entries (tr_stream (cn_transport c)))" using Cons.prems(2) by simp
  have "consumer_inv p ?c'" using Cons.prems(1) m by (rule handle_ok)
  moreover have "set ms \<subseteq> set (sm_entries (tr_stream (cn_transport ?c')))" using Cons.prems(2) by simp
  moreover have "tr_faults (cn_transport ?c') = []" using handle_pending(1) [OF Cons.prems(3,4)] .
  moreover have "sm_group (tr_stream (cn_transport ?c')) = Some (without {xe_id m} g)"
    using Cons.prems(3,4) answers [OF inv(1)] stream_okD(3) [OF inv(2) m] by (intro handle_answered) auto
  ultimately show ?case
    using Cons.IH [of ?c' "without {xe_id m} g"] by simp
qed simp

lemma turn_drains:
  assumes inv: "consumer_inv p c" and q: "tr_faults (cn_transport c) = []"
    and i: "GroupInfo True True (tr_stream (cn_transport c)) = Some (0, n)" and tu: "calm_turn tu"
  shows "consumer_inv p (consumer_turn p h tu c) \<and> tr_faults (cn_transport (consumer_turn p h tu c)) = [] \<and>
    GroupInfo True True (tr_stream (cn_transport (consumer_turn p h tu c))) = Some (0, n - readCount)"
proof -
  let ?s = "tr_stream (cn_transport c)"
  let ?es = "take readCount (undelivered ?s)"
  obtain g where g: "sm_group ?s = Some g" "xg_pending g = []" "length (undelivered ?s) = n"
    using i by (auto simp: GroupInfo_Some_iff)
  let ?g' = "delivered_to (tu_name tu) (tu_now tu) ?s g"
  obtain c' where c': "consumer_turn p h tu c = process p h None ?es c'"
      "tr_faults (cn_transport c') = []" "cn_world c' = cn_world c"
      "tr_stream (cn_transport c') = ?s\<lparr>sm_group := Some ?g'\<rparr>"
    using turn_quiet [OF q g(1,2), of tu p h] tu by (auto simp: calm_turn_def)
  have ok: "ok (cn_world c)" "stream_ok p due settled ?s (cn_world c)"
    using inv by (simp_all add: consumer_ok_def)
  have "snd (xreadgroup (tu_name tu) readCount (tu_now tu) ?s) = ?s\<lparr>sm_group := Some ?g'\<rparr>"
    using g by (simp add: xreadgroup_def Let_def delivered_to_def undelivered_def)
  then have inv': "consumer_inv p c'"
    using stream_ok_readgroup [OF ok(2), of "tu_name tu" readCount "tu_now tu"] ok(1) c'(3,4)
    by (simp add: consumer_ok_def)
  have es: "set ?es \<subseteq> set (sm_entries (tr_stream (cn_transport c')))"
    using g(1) c'(4) by (auto simp: undelivered_def dest!: in_set_takeD)
  have grp: "sm_group (tr_stream (cn_transport c')) = Some ?g'" by (simp add: c'(4))
  note fin = process_quiet [OF inv' es c'(2) grp]
  let ?s'' = "tr_stream (cn_transport (consumer_turn p h tu c))"
  have "sm_group ?s'' = Some (without (xe_id ` set ?es) ?g')" using fin c'(1) by simp
  moreover have "xg_pending (without (xe_id ` set ?es) ?g') = []"
  proof -
    have "xp_id ` set (xg_pending ?g') = xe_id ` set ?es"
      using arg_cong [OF delivered_pending [OF g(2), of "tu_name tu" "tu_now tu" ?s], of set] by simp
    then show ?thesis by (auto simp: filter_empty_conv)
  qed
  moreover have "undelivered ?s'' = drop readCount (undelivered ?s)"
    using fin c' by (intro undelivered_after [OF stream_okD(1) [OF ok(2)] g(1)]) auto
  moreover have "consumer_inv p (consumer_turn p h tu c)" using inv by (rule turn_ok)
  moreover have "tr_faults (cn_transport (consumer_turn p h tu c)) = []" using fin c'(1) by simp
  ultimately show ?thesis using g(3) by (auto simp: GroupInfo_Some_iff)
qed

lemma turns_drain:
  assumes "consumer_inv p c" and "tr_faults (cn_transport c) = []"
    and "GroupInfo True True (tr_stream (cn_transport c)) = Some (0, n)" and "list_all calm_turn tus"
  shows "consumer_inv p (fold (consumer_turn p h) tus c) \<and>
    GroupInfo True True (tr_stream (cn_transport (fold (consumer_turn p h) tus c))) =
      Some (0, n - length tus * readCount)"
  using assms
proof (induction tus arbitrary: c n)
  case (Cons tu tus)
  then show ?case using turn_drains [of p c n tu] by (auto simp: algebra_simps)
qed simp

end

text \<open>
  A worker told to stop after one message leaves its whole read pending. With nothing
  pending and \<open>n\<close> entries waiting, a turn whose context ends during the first message leaves at
  least \<open>min 64 n - 1\<close> entries unacknowledged, whatever the handler does.
\<close>
theorem stopped_worker_strands_its_read:
  assumes "tr_faults (cn_transport c) = []"
    and "sorted_wrt (<) (map xe_id (sm_entries (tr_stream (cn_transport c))))"
    and "GroupInfo True True (tr_stream (cn_transport c)) = Some (0, n)"
    and "\<not> tu_end_claim tu" and "\<not> tu_end_read tu" and "tu_left tu = Some 1"
  shows "\<exists>pending backlog. GroupInfo True True (tr_stream (cn_transport (consumer_turn uuid_parse h tu c))) =
      Some (pending, backlog) \<and> min readCount n - 1 \<le> pending"
proof -
  let ?s = "tr_stream (cn_transport c)"
  let ?es = "take readCount (undelivered ?s)"
  obtain g where g: "sm_group ?s = Some g" "xg_pending g = []" "length (undelivered ?s) = n"
    using assms(3) by (auto simp: GroupInfo_Some_iff)
  let ?g' = "delivered_to (tu_name tu) (tu_now tu) ?s g"
  have ids: "map xp_id (xg_pending ?g') = map xe_id ?es"
    by (rule delivered_pending [OF g(2)])
  have len: "length (xg_pending ?g') = min readCount n"
    using arg_cong [OF ids, of length] g(3) by simp
  have "sorted_wrt (<) (take readCount (map xe_id (undelivered ?s)))"
    using undelivered_sorted [OF assms(2)] by (rule sorted_wrt_take)
  then have dist: "distinct (map xp_id (xg_pending ?g'))"
    unfolding ids by (simp add: strict_sorted_iff take_map)
  obtain c' where c': "consumer_turn uuid_parse h tu c = process uuid_parse h (Some 1) ?es c'"
      "tr_faults (cn_transport c') = []" "sm_group (tr_stream (cn_transport c')) = Some ?g'"
    using turn_quiet [OF assms(1) g(1,2) assms(4,5), of uuid_parse h] assms(4-6) by auto
  show ?thesis
  proof (cases ?es)
    case Nil
    then show ?thesis using c' len by (auto simp: GroupInfo_Some_iff)
  next
    case (Cons m ms)
    then have turn: "consumer_turn uuid_parse h tu c = handle uuid_parse h m c'" by (simp add: c'(1))
    show ?thesis
      using handle_pending(2) [OF c'(2,3), of uuid_parse h m] length_filter_other [OF dist, of "xe_id m"] len
      by (auto simp: GroupInfo_Some_iff turn)
  qed
qed

definition sample_transport :: "nat \<Rightarrow> transport" where
  "sample_transport n =
     \<lparr>tr_stream = \<lparr>sm_entries = map (\<lambda>i. \<lparr>xe_id = i, xe_values = [field \<mapsto> Text ''a'']\<rparr>) [1..<Suc n],
        sm_last = n, sm_group = Some \<lparr>xg_delivered = 0, xg_pending = []\<rparr>, sm_dead = []\<rparr>,
      tr_metrics = \<lparr>sx_published = n, sx_claimed = 0, sx_dead = 0\<rparr>, tr_faults = [], tr_trims = []\<rparr>"

definition stopped_turn :: turn where
  "stopped_turn = \<lparr>tu_name = ''w'', tu_now = 0, tu_end_claim = False, tu_end_read = False, tu_left = Some 1\<rparr>"

theorem stopped_worker_strands_its_read_witness:
  "\<exists>pending backlog. GroupInfo True True (tr_stream (cn_transport (consumer_turn (\<lambda>_. Some 7) (\<lambda>x w. (True, w)) stopped_turn
      \<lparr>cn_transport = sample_transport 5, cn_world = (), cn_cursor = 0\<rparr>))) = Some (pending, backlog) \<and>
    min readCount 5 - 1 \<le> pending"
  by (rule stopped_worker_strands_its_read)
    (simp_all add: sample_transport_def stopped_turn_def GroupInfo_def upt_conv_Cons)

end
