(* ===== verification/Closing.thy ===== *)
theory Closing
  imports Transport Ledger
begin

text \<open>
  The closing path, \<^verbatim>\<open>internal/closing\<close>: the materialiser (\<open>closeSQL\<close>, \<open>classifySQL\<close>,
  \<open>mat_Close\<close>) and the sweep (\<open>expiredSQL\<close>, \<open>scan\<close>), their wiring in \<^verbatim>\<open>cmd/closerd\<close>, and
  the whole path as a step relation: sweeps, turns of the consumer, other sessions, a flushed Redis,
  restarts. The publisher is the locale \<open>publisher\<close>, interpreted on the Redis producer; the handler
  is the locale \<open>expiry_handler\<close> of \<^theory_text>\<open>Transport\<close>, interpreted on the materialiser.
\<close>

section \<open>The materialiser (materializer.go)\<close>

datatype close_result = Applied | AlreadyClosed | Gone | Early

fun close_result_string :: "close_result \<Rightarrow> string" where
  "close_result_string Applied = ''applied''"
| "close_result_string AlreadyClosed = ''already_closed''"
| "close_result_string Gone = ''gone''"
| "close_result_string Early = ''early''"

text \<open>
  \<^verbatim>\<open>clock_timestamp()\<close> is read once in the WHERE (\<open>t_where\<close>) and again in the SET
  (\<open>t_set\<close>). The lag is the difference of two columns, in nanoseconds here.
\<close>

definition closeSQL :: "uuid \<Rightarrow> time \<Rightarrow> time \<Rightarrow> (time \<times> duration) stmt" where
  "closeSQL x t_where t_set d =
     (case find_auction d x of
        None \<Rightarrow> Inl NoRows
      | Some a \<Rightarrow>
          if a_status a = ColOpen \<and> a_ends_at a \<le> t_where
          then (case update_auction (closed_row a t_set) d of
                  Inl e \<Rightarrow> Inl e
                | Inr d' \<Rightarrow> Inr ((t_set, t_set - a_ends_at a), d'))
          else Inl NoRows)"

definition classifySQL :: "uuid \<Rightarrow> time \<Rightarrow> (bool \<times> bool) stmt" where
  "classifySQL x now d =
     (case find_auction d x of
        None \<Rightarrow> Inl NoRows
      | Some a \<Rightarrow> Inr ((a_status a = ColClosed, now < a_ends_at a), d))"

record mat_metrics =
  mm_applied :: nat
  mm_already :: nat
  mm_gone :: nat
  mm_early :: nat
  mm_lag :: "duration list"

record materializer =
  mt_db :: db
  mt_metrics :: mat_metrics

text \<open>
  The environment of one call: the fate of its two statements, the clock readings inside them,
  and what the other sessions commit in between.
\<close>

record close_env =
  ce_fault :: fault
  ce_where :: time
  ce_set :: time
  ce_world :: "db \<Rightarrow> db"
  ce_classify_fault :: fault
  ce_now :: time

text \<open>\<open>StillOpen\<close> is the last error of \<^verbatim>\<open>Close\<close>, which wraps nothing.\<close>

datatype close_error = CloseFailed go_error | StillOpen uuid

definition mat_classify :: "close_env \<Rightarrow> uuid \<Rightarrow> materializer \<Rightarrow> (close_error + close_result) \<times> materializer" where
  "mat_classify e x m =
     (let mm = mt_metrics m in
      case run_stmt (ce_classify_fault e) (classifySQL x (ce_now e)) (mt_db m) of
        (Inl er, d) \<Rightarrow>
          if errors_is_no_rows (DbError er)
          then (Inr Gone, \<lparr>mt_db = d, mt_metrics = mm\<lparr>mm_gone := mm_gone mm + 1\<rparr>\<rparr>)
          else (Inl (CloseFailed (Wrap ''classify auction'' (DbError er))), \<lparr>mt_db = d, mt_metrics = mm\<rparr>)
      | (Inr (closed, early), d) \<Rightarrow>
          if closed then (Inr AlreadyClosed, \<lparr>mt_db = d, mt_metrics = mm\<lparr>mm_already := mm_already mm + 1\<rparr>\<rparr>)
          else if early then (Inr Early, \<lparr>mt_db = d, mt_metrics = mm\<lparr>mm_early := mm_early mm + 1\<rparr>\<rparr>)
          else (Inl (StillOpen x), \<lparr>mt_db = d, mt_metrics = mm\<rparr>))"

definition mat_Close :: "close_env \<Rightarrow> uuid \<Rightarrow> materializer \<Rightarrow> (close_error + close_result) \<times> materializer" where
  "mat_Close e x m =
     (let mm = mt_metrics m in
      case run_stmt (ce_fault e) (closeSQL x (ce_where e) (ce_set e)) (mt_db m) of
        (Inr (closed_at, lag), d) \<Rightarrow>
          (Inr Applied, \<lparr>mt_db = d, mt_metrics = mm\<lparr>mm_lag := mm_lag mm @ [lag], mm_applied := mm_applied mm + 1\<rparr>\<rparr>)
      | (Inl er, d) \<Rightarrow>
          if errors_is_no_rows (DbError er) then mat_classify e x \<lparr>mt_db = ce_world e d, mt_metrics = mm\<rparr>
          else (Inl (CloseFailed (Wrap ''close auction'' (DbError er))), \<lparr>mt_db = d, mt_metrics = mm\<rparr>))"

section \<open>What one call does to the database\<close>

definition calm_close :: "close_env \<Rightarrow> bool" where
  "calm_close e \<longleftrightarrow> ce_where e \<le> ce_set e \<and> (\<forall>d. evolves d (ce_world e d))"

definition closed_in :: "uuid \<Rightarrow> db \<Rightarrow> bool" where
  "closed_in x d \<longleftrightarrow> (\<exists>a. find_auction d x = Some a \<and> a_status a = ColClosed)"

lemma closeSQL_InrD:
  "closeSQL x w s d = Inr (r, d') \<Longrightarrow>
   \<exists>a. find_auction d x = Some a \<and> a_status a = ColOpen \<and> a_ends_at a \<le> w \<and>
     d' = set_auction (closed_row a s) d \<and> r = (s, s - a_ends_at a)"
  by (auto simp: closeSQL_def update_auction_def split: option.splits if_splits)

lemma closeSQL_evolves:
  "closeSQL x w s d = Inr (r, d') \<Longrightarrow> w \<le> s \<Longrightarrow> evolves d d'"
  by (auto dest!: closeSQL_InrD intro!: evolves_one ledger_close)

lemma classifySQL_InrD:
  "classifySQL x now d = Inr ((c, e), d') \<Longrightarrow>
   d' = d \<and> (\<exists>a. find_auction d x = Some a \<and> c = (a_status a = ColClosed) \<and> e = (now < a_ends_at a))"
  by (auto simp: classifySQL_def split: option.splits)

lemma run_classify_db [simp]: "snd (run_stmt f (classifySQL x now) d) = d"
  by (rule run_stmt_read) (auto dest: classifySQL_InrD)

lemma mat_classify_db [simp]: "mt_db (snd (mat_classify e x m)) = mt_db m"
proof -
  obtain q d where run: "run_stmt (ce_classify_fault e) (classifySQL x (ce_now e)) (mt_db m) = (q, d)"
    by fastforce
  then have "d = mt_db m" using run_classify_db [of "ce_classify_fault e" x "ce_now e" "mt_db m"] by simp
  then show ?thesis by (simp add: mat_classify_def Let_def run split: sum.split)
qed

text \<open>The database after a call: closed, or left to the others.\<close>

lemma mat_Close_db:
  assumes "mat_Close e x m = (r, m')"
  obtains (closed) rr where "closeSQL x (ce_where e) (ce_set e) (mt_db m) = Inr (rr, mt_db m')"
      "r = Inr Applied \<or> r = Inl (CloseFailed (Wrap ''close auction'' (DbError ConnectionError)))"
  | (untouched) "mt_db m' = mt_db m" "\<exists>er. r = Inl er"
  | (classified) "mt_db m' = ce_world e (mt_db m)"
      "mat_classify e x \<lparr>mt_db = ce_world e (mt_db m), mt_metrics = mt_metrics m\<rparr> = (r, m')"
      "closeSQL x (ce_where e) (ce_set e) (mt_db m) = Inl NoRows"
proof -
  let ?run = "run_stmt (ce_fault e) (closeSQL x (ce_where e) (ce_set e)) (mt_db m)"
  obtain q d where run: "?run = (q, d)" by fastforce
  show thesis
  proof (cases q)
    case (Inr rr)
    then have "closeSQL x (ce_where e) (ce_set e) (mt_db m) = Inr (rr, d)"
      using run_stmt_InrD [of _ _ _ rr d] run by auto
    then show thesis using assms run Inr closed by (auto simp: mat_Close_def Let_def split: prod.splits)
  next
    case (Inl er)
    show thesis
    proof (cases "er = NoRows")
      case True
      then have d: "d = mt_db m" using run_stmt_NoRowsD run Inl by blast
      have "closeSQL x (ce_where e) (ce_set e) (mt_db m) = Inl NoRows"
        using run Inl True by (auto simp: run_stmt_def split: fault.splits sum.splits prod.splits)
      moreover have "mat_classify e x \<lparr>mt_db = ce_world e (mt_db m), mt_metrics = mt_metrics m\<rparr> = (r, m')"
        using assms run Inl True d by (simp add: mat_Close_def Let_def)
      moreover from this have "mt_db m' = ce_world e (mt_db m)"
        using mat_classify_db [of e x "\<lparr>mt_db = ce_world e (mt_db m), mt_metrics = mt_metrics m\<rparr>"] by simp
      ultimately show thesis using classified by blast
    next
      case False
      then have r: "r = Inl (CloseFailed (Wrap ''close auction'' (DbError er)))" "mt_db m' = d"
        using assms run Inl by (auto simp: mat_Close_def Let_def)
      consider "d = mt_db m" | rr where "closeSQL x (ce_where e) (ce_set e) (mt_db m) = Inr (rr, d)" "er = ConnectionError"
        using run Inl by (auto simp: run_stmt_def split: fault.splits sum.splits prod.splits)
      then show thesis using closed untouched r by cases auto
    qed
  qed
qed

lemma evolves_closed_in:
  assumes "evolves d d'" and "db_inv d" and "closed_in x d"
  shows "closed_in x d'"
  using assms evolves_row [OF assms(1,2)] by (fastforce simp: closed_in_def row_follows_def)

lemma mat_Close_evolves:
  assumes "mat_Close e x m = (r, m')" and "calm_close e"
  shows "evolves (mt_db m) (mt_db m')"
  using assms(1)
proof (cases rule: mat_Close_db)
  case closed
  then show ?thesis using closeSQL_evolves assms(2) unfolding calm_close_def by blast
next
  case untouched
  then show ?thesis by simp
next
  case classified
  then show ?thesis using assms(2) by (simp add: calm_close_def)
qed

lemma mat_classify_Inr:
  assumes "mat_classify e x m = (Inr res, m')"
  shows "(res = Gone \<and> find_auction (mt_db m) x = None) \<or>
    (res = AlreadyClosed \<and> closed_in x (mt_db m)) \<or>
    (res = Early \<and> (\<exists>a. find_auction (mt_db m) x = Some a \<and> a_status a = ColOpen \<and> ce_now e < a_ends_at a))"
proof -
  obtain q d where run: "run_stmt (ce_classify_fault e) (classifySQL x (ce_now e)) (mt_db m) = (q, d)"
    by fastforce
  show ?thesis
  proof (cases q)
    case (Inl er)
    then have "er = NoRows" and "res = Gone"
      using assms run by (auto simp: mat_classify_def Let_def split: if_splits)
    then show ?thesis
      using run Inl by (auto simp: run_stmt_def classifySQL_def split: fault.splits option.splits)
  next
    case (Inr ce)
    obtain c er where ce: "ce = (c, er)" by fastforce
    have "classifySQL x (ce_now e) (mt_db m) = Inr ((c, er), d)"
      using run_stmt_InrD run Inr ce by metis
    then obtain a where a: "find_auction (mt_db m) x = Some a" "c = (a_status a = ColClosed)" "er = (ce_now e < a_ends_at a)"
      using classifySQL_InrD by blast
    then show ?thesis
      using assms run Inr ce
      by (cases "a_status a") (auto simp: mat_classify_def Let_def closed_in_def split: if_splits)
  qed
qed

lemma closeSQL_closes:
  assumes "closeSQL x w s d = Inr (r, d')"
  shows "closed_in x d'"
  using closeSQL_InrD [OF assms] by (auto simp: closed_in_def find_closed_row)

lemma mat_Close_Inr:
  assumes "mat_Close e x m = (Inr res, m')" and "calm_close e" and "db_inv (mt_db m)"
  shows "(res = Applied \<and> closed_in x (mt_db m')) \<or> (res = AlreadyClosed \<and> closed_in x (mt_db m')) \<or>
    (res = Gone \<and> find_auction (mt_db m) x = None) \<or>
    (res = Early \<and> (\<exists>a. find_auction (mt_db m') x = Some a \<and> a_status a = ColOpen \<and> ce_now e < a_ends_at a))"
  using assms(1)
proof (cases rule: mat_Close_db)
  case (closed rr)
  then show ?thesis using closeSQL_closes by auto
next
  case untouched
  then show ?thesis by simp
next
  case classified
  have gone: "find_auction (mt_db m) x = None" if "find_auction (mt_db m') x = None"
    using evolves_row [of "mt_db m" "mt_db m'" x] mat_Close_evolves [OF assms(1,2)] assms(3) that
    by (cases "find_auction (mt_db m) x") auto
  show ?thesis
    using mat_classify_Inr [OF classified(2)] gone classified(1) by auto
qed

text \<open>
  Claim C16. The worker cannot close early and cannot break an invariant. Whatever the id, the
  faults and the sessions beside it, one \<open>Close\<close> takes the database only through steps of the
  ledger, and \<open>Applied\<close> means: the row is closed, at an instant no earlier than its end, and the
  one lag sample taken is that difference, never negative.
\<close>
theorem close_is_guarded:
  assumes "db_inv (mt_db m)" and "calm_close e" and "mat_Close e x m = (r, m')"
  shows "evolves (mt_db m) (mt_db m') \<and> db_inv (mt_db m') \<and>
    (r = Inr Applied \<longrightarrow>
       (\<exists>a. find_auction (mt_db m') x = Some a \<and> a_status a = ColClosed \<and> a_closed_at a = Some (ce_set e) \<and>
          0 \<le> ce_set e - a_ends_at a \<and>
          mm_lag (mt_metrics m') = mm_lag (mt_metrics m) @ [ce_set e - a_ends_at a]))"
proof -
  have ev: "evolves (mt_db m) (mt_db m')" by (rule mat_Close_evolves [OF assms(3,2)])
  have "\<exists>a. find_auction (mt_db m') x = Some a \<and> a_status a = ColClosed \<and> a_closed_at a = Some (ce_set e) \<and>
      0 \<le> ce_set e - a_ends_at a \<and> mm_lag (mt_metrics m') = mm_lag (mt_metrics m) @ [ce_set e - a_ends_at a]"
    if r: "r = Inr Applied"
    using assms(3)
  proof (cases rule: mat_Close_db)
    case (closed rr)
    then obtain a where a: "find_auction (mt_db m) x = Some a" "a_ends_at a \<le> ce_where e"
        "mt_db m' = set_auction (closed_row a (ce_set e)) (mt_db m)" "rr = (ce_set e, ce_set e - a_ends_at a)"
      using closeSQL_InrD by blast
    have nofault: "run_stmt (ce_fault e) (closeSQL x (ce_where e) (ce_set e)) (mt_db m) = (Inr rr, mt_db m')"
    proof -
      have "ce_fault e = NoFault"
        using assms(3) r closed(1) by (cases "ce_fault e") (auto simp: mat_Close_def run_stmt_def)
      then show ?thesis using closed(1) by (simp add: run_stmt_def)
    qed
    have "mm_lag (mt_metrics (snd (mat_Close e x m))) = mm_lag (mt_metrics m) @ [ce_set e - a_ends_at a]"
      by (simp add: mat_Close_def Let_def nofault a(4))
    with a assms(2,3) show ?thesis
      by (intro exI [of _ "closed_row a (ce_set e)"]) (simp add: find_closed_row calm_close_def)
  next
    case untouched
    with r show ?thesis by simp
  next
    case classified
    with r mat_classify_Inr show ?thesis by blast
  qed
  with ev db_inv_evolves [OF ev assms(1)] show ?thesis by blast
qed

text \<open>\<open>sample_db\<close> at its end: the worker reads the clock at 1500 and again at 1501.\<close>

definition sample_close :: close_env where
  "sample_close = \<lparr>ce_fault = NoFault, ce_where = 1500, ce_set = 1501, ce_world = id,
     ce_classify_fault = NoFault, ce_now = 1502\<rparr>"

definition sample_mat :: "db \<Rightarrow> materializer" where
  "sample_mat d = \<lparr>mt_db = d, mt_metrics = \<lparr>mm_applied = 0, mm_already = 0, mm_gone = 0, mm_early = 0, mm_lag = []\<rparr>\<rparr>"

lemma sample_close_calm [simp]: "calm_close sample_close"
  by (simp add: calm_close_def sample_close_def)

lemma sample_close_run:
  "fst (mat_Close sample_close 1 (sample_mat sample_db)) = Inr Applied"
  by (simp add: mat_Close_def sample_close_def sample_mat_def run_stmt_def closeSQL_def sample_find
      sample_row_def update_auction_def check_auction_def closed_row_def sless_iff_sint sle_iff_sint)

theorem close_is_guarded_witness:
  "\<exists>a. find_auction (mt_db (snd (mat_Close sample_close 1 (sample_mat sample_db)))) 1 = Some a \<and>
     a_status a = ColClosed \<and> a_closed_at a = Some 1501"
  using close_is_guarded [of "sample_mat sample_db" sample_close 1 "fst (mat_Close sample_close 1 (sample_mat sample_db))"
      "snd (mat_Close sample_close 1 (sample_mat sample_db))"] sample_inv sample_close_run
  by (simp add: sample_mat_def) (auto simp: sample_close_def)

text \<open>
  Closing is idempotent. On an auction already closed, a second \<open>Close\<close> is never
  \<open>Applied\<close>, whatever its message, its clocks and the sessions beside it, and \<open>closed_at\<close> does
  not move; with its round trips answered the result is \<open>AlreadyClosed\<close>.
\<close>

lemma close_is_idempotent:
  assumes "db_inv (mt_db m)" and "calm_close e"
    and "find_auction (mt_db m) x = Some a" and "a_status a = ColClosed"
    and "mat_Close e x m = (r, m')"
  shows "r \<noteq> Inr Applied \<and>
    (\<exists>a'. find_auction (mt_db m') x = Some a' \<and> a_status a' = ColClosed \<and> a_closed_at a' = a_closed_at a) \<and>
    (ce_fault e = NoFault \<longrightarrow> ce_classify_fault e = NoFault \<longrightarrow> r = Inr AlreadyClosed)"
proof -
  have miss: "closeSQL x (ce_where e) (ce_set e) (mt_db m) = Inl NoRows"
    using assms(3,4) by (simp add: closeSQL_def)
  have "r \<noteq> Inr Applied"
    using assms(5)
  proof (cases rule: mat_Close_db)
    case classified
    then show ?thesis using mat_classify_Inr by fastforce
  qed (use miss in auto)
  moreover obtain a' where a': "find_auction (mt_db m') x = Some a'" "row_follows a a'"
    using evolves_row [OF mat_Close_evolves [OF assms(5,2)] assms(1,3)] by blast
  moreover have "r = Inr AlreadyClosed" if nf: "ce_fault e = NoFault" "ce_classify_fault e = NoFault"
  proof -
    obtain b where b: "find_auction (ce_world e (mt_db m)) x = Some b" "row_follows a b"
      using assms(2) evolves_row [OF _ assms(1,3), of "ce_world e (mt_db m)"] by (auto simp: calm_close_def)
    then have "a_status b = ColClosed" using assms(4) by (simp add: row_follows_def)
    with b(1) nf have "fst (mat_Close e x m) = Inr AlreadyClosed"
      by (simp add: mat_Close_def mat_classify_def Let_def run_stmt_def miss classifySQL_def)
    then show ?thesis using assms(5) by simp
  qed
  ultimately show ?thesis using assms(4) by (auto simp: row_follows_def)
qed

text \<open>
  What came back, told apart. With both round trips answered and nothing committed
  in between, the result is decided by the row and the clock alone; the arm that counts nothing
  and redelivers is reached when the end of the auction falls between the two clock readings,
  with no other transaction involved.
\<close>
theorem close_decision_table:
  assumes "schema_ok (mt_db m)" and "ce_fault e = NoFault" and "ce_classify_fault e = NoFault"
    and "ce_world e (mt_db m) = mt_db m"
  shows "fst (mat_Close e x m) =
    (case find_auction (mt_db m) x of
       None \<Rightarrow> Inr Gone
     | Some a \<Rightarrow>
         if a_status a = ColClosed then Inr AlreadyClosed
         else if a_ends_at a \<le> ce_where e then Inr Applied
         else if ce_now e < a_ends_at a then Inr Early
         else Inl (StillOpen x))"
proof (cases "find_auction (mt_db m) x")
  case None
  then show ?thesis
    using assms by (simp add: mat_Close_def mat_classify_def Let_def run_stmt_def closeSQL_def classifySQL_def)
next
  case (Some a)
  have chk: "check_auction (closed_row a (ce_set e))"
    using schema_check [OF assms(1) Some] by (simp add: check_auction_def)
  show ?thesis
    using assms chk
    by (cases "a_status a") (simp_all add: Some mat_Close_def mat_classify_def Let_def run_stmt_def closeSQL_def
        classifySQL_def update_auction_def)
qed

definition crossing_close :: close_env where
  "crossing_close = sample_close\<lparr>ce_where := 999, ce_set := 999, ce_now := 1000\<rparr>"

theorem close_decision_table_witness:
  "fst (mat_Close crossing_close 1 (sample_mat sample_db)) = Inl (StillOpen 1)"
  by (subst close_decision_table)
    (use sample_inv in \<open>simp_all add: db_inv_def crossing_close_def sample_close_def sample_mat_def sample_find sample_row_def\<close>)

text \<open>
  The four counters and the lag histogram agree with the answers: a result bumps its
  own counter by one and no other, an error bumps none, and there is one lag sample per
  \<open>Applied\<close>.
\<close>
theorem close_counts_its_results:
  "case mat_Close e x m of (r, m') \<Rightarrow>
     mm_applied (mt_metrics m') = mm_applied (mt_metrics m) + (if r = Inr Applied then 1 else 0) \<and>
     mm_already (mt_metrics m') = mm_already (mt_metrics m) + (if r = Inr AlreadyClosed then 1 else 0) \<and>
     mm_gone (mt_metrics m') = mm_gone (mt_metrics m) + (if r = Inr Gone then 1 else 0) \<and>
     mm_early (mt_metrics m') = mm_early (mt_metrics m) + (if r = Inr Early then 1 else 0) \<and>
     length (mm_lag (mt_metrics m')) = length (mm_lag (mt_metrics m)) + (if r = Inr Applied then 1 else 0)"
  by (auto simp: mat_Close_def mat_classify_def Let_def split: prod.split sum.split)

section \<open>The worker's handler (cmd/closerd/main.go)\<close>

text \<open>
  The closure \<^verbatim>\<open>run\<close> hands the consumer: \<open>Close\<close>, its result dropped, its error kept. A cell is
  what it works on: the materialiser, the database's clock, and for each call to come what the
  network, the clock and the other sessions will do.
\<close>

record close_delays =
  cd_before :: "db \<Rightarrow> db"
  cd_fault :: fault
  cd_wait :: nat
  cd_set :: nat
  cd_world :: "db \<Rightarrow> db"
  cd_classify_fault :: fault
  cd_now :: nat

record cell =
  cl_mat :: materializer
  cl_clock :: time
  cl_calls :: nat
  cl_delays :: "nat \<Rightarrow> close_delays"

abbreviation cl_db :: "cell \<Rightarrow> db" where
  "cl_db w \<equiv> mt_db (cl_mat w)"

definition close_env_of :: "close_delays \<Rightarrow> time \<Rightarrow> close_env" where
  "close_env_of dl t =
     \<lparr>ce_fault = cd_fault dl, ce_where = t + int (cd_wait dl), ce_set = t + int (cd_wait dl) + int (cd_set dl),
      ce_world = cd_world dl, ce_classify_fault = cd_classify_fault dl,
      ce_now = t + int (cd_wait dl) + int (cd_set dl) + int (cd_now dl)\<rparr>"

definition close_handler :: "uuid \<Rightarrow> cell \<Rightarrow> bool \<times> cell" where
  "close_handler x w =
     (let dl = cl_delays w (cl_calls w);
          e = close_env_of dl (cl_clock w);
          m = cl_mat w;
          (r, m') = mat_Close e x (m\<lparr>mt_db := cd_before dl (mt_db m)\<rparr>)
      in (case r of Inl _ \<Rightarrow> False | Inr _ \<Rightarrow> True,
          w\<lparr>cl_mat := m', cl_clock := ce_now e, cl_calls := cl_calls w + 1\<rparr>))"

definition cell_ok :: "cell \<Rightarrow> bool" where
  "cell_ok w \<longleftrightarrow> db_inv (cl_db w) \<and>
     (\<forall>n d. evolves d (cd_before (cl_delays w n) d) \<and> evolves d (cd_world (cl_delays w n) d))"

definition cell_calm :: "cell \<Rightarrow> bool" where
  "cell_calm w \<longleftrightarrow> cell_ok w \<and>
     (\<forall>n. cd_fault (cl_delays w n) = NoFault \<and> cd_classify_fault (cl_delays w n) = NoFault)"

definition overdue :: "uuid \<Rightarrow> cell \<Rightarrow> bool" where
  "overdue x w \<longleftrightarrow> (\<exists>a. find_auction (cl_db w) x = Some a \<and> a_ends_at a \<le> cl_clock w)"

definition is_settled :: "uuid \<Rightarrow> cell \<Rightarrow> bool" where
  "is_settled x w \<longleftrightarrow> closed_in x (cl_db w)"

text \<open>One call, unfolded once for all the lemmas below.\<close>

lemma close_handlerE:
  assumes "cell_ok w" and "close_handler x w = (b, w')"
  obtains d e r m' where "evolves (cl_db w) d" "db_inv d" "calm_close e" "cl_clock w \<le> ce_where e" "ce_where e \<le> ce_now e"
    "mat_Close e x ((cl_mat w)\<lparr>mt_db := d\<rparr>) = (r, m')" "b \<longleftrightarrow> (\<exists>v. r = Inr v)"
    "cl_mat w' = m'" "cl_clock w' = ce_now e" "cl_delays w' = cl_delays w"
    "e = close_env_of (cl_delays w (cl_calls w)) (cl_clock w)"
proof -
  let ?dl = "cl_delays w (cl_calls w)"
  let ?e = "close_env_of ?dl (cl_clock w)"
  let ?d = "cd_before ?dl (cl_db w)"
  obtain r m' where run: "mat_Close ?e x ((cl_mat w)\<lparr>mt_db := ?d\<rparr>) = (r, m')" by fastforce
  have ev: "evolves (cl_db w) ?d" using assms(1) by (simp add: cell_ok_def)
  moreover have "db_inv ?d" using db_inv_evolves [OF ev] assms(1) by (simp add: cell_ok_def)
  moreover have "calm_close ?e" using assms(1) by (simp add: calm_close_def close_env_of_def cell_ok_def)
  ultimately show thesis
    using assms(2) run by (intro that [of ?d ?e r m']) (auto simp: close_handler_def Let_def close_env_of_def split: sum.splits)
qed

lemma close_handler_evolves:
  assumes "cell_ok w" and "close_handler x w = (b, w')"
  shows "evolves (cl_db w) (cl_db w')" and "cl_clock w \<le> cl_clock w'" and "cl_delays w' = cl_delays w"
  using close_handlerE [OF assms] mat_Close_evolves evolves_trans
  by (metis (no_types, lifting) materializer.select_convs(1) materializer.surjective materializer.update_convs(1),
      metis order_trans, metis)

lemma cell_ok_keeps:
  assumes "cell_ok w" and "close_handler x w = (b, w')"
  shows "cell_ok w'"
  using close_handler_evolves [OF assms] assms(1) db_inv_evolves by (simp add: cell_ok_def)

lemma overdue_evolves:
  assumes "db_inv (cl_db w)" and "evolves (cl_db w) (cl_db w')" and "cl_clock w \<le> cl_clock w'" and "overdue x w"
  shows "overdue x w'"
  using assms(3,4) evolves_row [OF assms(2,1)] by (fastforce simp: overdue_def row_follows_def)

lemma close_handler_settles:
  assumes ok: "cell_ok w" and due: "overdue x w" and run: "close_handler x w = (True, w')"
  shows "is_settled x w'"
proof -
  obtain d e r m' where s: "evolves (cl_db w) d" "db_inv d" "calm_close e" "cl_clock w \<le> ce_where e" "ce_where e \<le> ce_now e"
    "mat_Close e x ((cl_mat w)\<lparr>mt_db := d\<rparr>) = (r, m')" "\<exists>v. r = Inr v" "cl_mat w' = m'" "cl_clock w' = ce_now e"
    using close_handlerE [OF ok run] by metis
  then obtain res where r: "r = Inr res" by blast
  have inv: "db_inv (cl_db w)" using ok by (simp add: cell_ok_def)
  obtain a where a: "find_auction (cl_db w) x = Some a" "a_ends_at a \<le> cl_clock w"
    using due by (auto simp: overdue_def)
  obtain b where b: "find_auction d x = Some b" "row_follows a b"
    using evolves_row [OF s(1) inv a(1)] by blast
  have "evolves d (mt_db m')" using mat_Close_evolves [OF s(6,3)] by simp
  then obtain c where c: "find_auction (mt_db m') x = Some c" "row_follows b c"
    using evolves_row [OF _ s(2) b(1)] by blast
  have "a_ends_at c \<le> ce_now e" using a(2) b(2) c(2) s(4,5) by (simp add: row_follows_def)
  then show ?thesis
    using mat_Close_Inr [OF s(6) [unfolded r] s(3)] s(2,8) b(1) c(1) by (auto simp: is_settled_def)
qed

interpretation closerd: expiry_handler close_handler cell_ok overdue is_settled
proof
  fix w x y
  obtain b w' where run: "close_handler x w = (b, w')" by fastforce
  assume ok: "cell_ok w"
  then have inv: "db_inv (cl_db w)" by (simp add: cell_ok_def)
  note ev = close_handler_evolves [OF ok run]
  show "cell_ok (snd (close_handler x w))" using cell_ok_keeps [OF ok run] run by simp
  show "overdue y w \<Longrightarrow> overdue y (snd (close_handler x w))"
    using overdue_evolves [OF inv ev(1,2)] run by simp
  show "is_settled y w \<Longrightarrow> is_settled y (snd (close_handler x w))"
    using evolves_closed_in [OF ev(1) inv] run by (simp add: is_settled_def)
  show "overdue x w \<Longrightarrow> fst (close_handler x w) \<Longrightarrow> is_settled x (snd (close_handler x w))"
    using close_handler_settles [OF ok] run by (cases b) auto
qed

text \<open>With its round trips answered, the handler never refuses an id that is overdue.\<close>

lemma close_handler_answers:
  assumes calm: "cell_calm w" and due: "overdue x w"
  shows "fst (close_handler x w)"
proof -
  have ok: "cell_ok w" using calm by (simp add: cell_calm_def)
  obtain b w' where run: "close_handler x w = (b, w')" by fastforce
  obtain d e r m' where s: "evolves (cl_db w) d" "db_inv d" "calm_close e" "cl_clock w \<le> ce_where e"
    "mat_Close e x ((cl_mat w)\<lparr>mt_db := d\<rparr>) = (r, m')" "b \<longleftrightarrow> (\<exists>v. r = Inr v)"
    "e = close_env_of (cl_delays w (cl_calls w)) (cl_clock w)"
    using close_handlerE [OF ok run] by metis
  have nf: "ce_fault e = NoFault" "ce_classify_fault e = NoFault"
    using calm by (simp_all add: s(7) close_env_of_def cell_calm_def)
  have inv: "db_inv (cl_db w)" using ok by (simp add: cell_ok_def)
  obtain a where a: "find_auction (cl_db w) x = Some a" "a_ends_at a \<le> cl_clock w"
    using due by (auto simp: overdue_def)
  obtain c where c: "find_auction d x = Some c" "row_follows a c"
    using evolves_row [OF s(1) inv a(1)] by blast
  have ends: "a_ends_at c \<le> ce_where e" using a(2) c(2) s(4) by (simp add: row_follows_def)
  have "\<exists>v. r = Inr v"
  proof (cases "a_status c")
    case ColClosed
    then show ?thesis
      using close_is_idempotent [of "(cl_mat w)\<lparr>mt_db := d\<rparr>" e x c r m'] s c nf by auto
  next
    case ColOpen
    have "check_auction (closed_row c (ce_set e))"
      using schema_check [OF _ c(1)] s(2) by (simp add: db_inv_def check_auction_def)
    then have "fst (mat_Close e x ((cl_mat w)\<lparr>mt_db := d\<rparr>)) = Inr Applied"
      using ColOpen ends nf c(1) by (simp add: mat_Close_def Let_def run_stmt_def closeSQL_def update_auction_def)
    then show ?thesis using s(5) by simp
  qed
  then show ?thesis using run s(6) by simp
qed

interpretation closerd_calm: answering_handler close_handler cell_calm overdue is_settled
proof
  fix w x y
  obtain b w' where run: "close_handler x w = (b, w')" by fastforce
  assume calm: "cell_calm w"
  then have ok: "cell_ok w" by (simp add: cell_calm_def)
  show "cell_calm (snd (close_handler x w))"
    using closerd.keeps [OF ok, of x] close_handler_evolves(3) [OF ok run] calm run by (simp add: cell_calm_def)
  show "overdue y w \<Longrightarrow> overdue y (snd (close_handler x w))" using ok by (rule closerd.stays_due)
  show "is_settled y w \<Longrightarrow> is_settled y (snd (close_handler x w))" using ok by (rule closerd.stays_settled)
  show "overdue x w \<Longrightarrow> fst (close_handler x w) \<Longrightarrow> is_settled x (snd (close_handler x w))"
    using ok by (rule closerd.settles)
  show "overdue x w \<Longrightarrow> fst (close_handler x w)" using calm by (rule close_handler_answers)
qed

section \<open>The sweep (expirer.go)\<close>

definition suppressFor :: duration where
  "suppressFor = 30 * 1000000000"

definition sweepLimit :: nat where
  "sweepLimit = 500"

text \<open>SQL leaves the order of equal \<^verbatim>\<open>ends_at\<close> open; the model takes the table's.\<close>

definition expiredSQL :: "time \<Rightarrow> db \<Rightarrow> uuid list" where
  "expiredSQL now d =
     take sweepLimit (map a_id (sort_key a_ends_at
       (filter (\<lambda>a. a_status a = ColOpen \<and> a_ends_at a \<le> now) (db_auctions d))))"

text \<open>The suppression window; \<open>prune\<close> is the first loop of \<^verbatim>\<open>scan\<close>.\<close>

type_synonym window = "uuid \<Rightarrow> time option"

definition prune :: "time \<Rightarrow> window \<Rightarrow> window" where
  "prune now pub = (\<lambda>x. case pub x of
     None \<Rightarrow> None
   | Some at \<Rightarrow> if suppressFor \<le> now - at then None else Some at)"

fun announce :: "(uuid \<Rightarrow> 'p \<Rightarrow> bool \<times> 'p) \<Rightarrow> time \<Rightarrow> uuid list \<Rightarrow> window \<times> 'p \<Rightarrow> window \<times> 'p" where
  "announce publish now [] (pub, p) = (pub, p)"
| "announce publish now (x # xs) (pub, p) =
     (if pub x \<noteq> None then announce publish now xs (pub, p)
      else (case publish x p of
              (False, p') \<Rightarrow> announce publish now xs (pub, p')
            | (True, p') \<Rightarrow> announce publish now xs (pub(x \<mapsto> now), p')))"

text \<open>
  One pass. \<open>sc_rows\<close> says whether the query and its rows were all read; \<open>sc_dbnow\<close> is the
  database's clock and \<open>sc_now\<close> the process's.
\<close>

record scan_env =
  sc_rows :: bool
  sc_dbnow :: time
  sc_now :: time

definition scan ::
  "('p \<Rightarrow> bool \<times> 'p) \<Rightarrow> (uuid \<Rightarrow> 'p \<Rightarrow> bool \<times> 'p) \<Rightarrow> scan_env \<Rightarrow> db \<Rightarrow> window \<times> 'p \<Rightarrow> bool \<times> window \<times> 'p" where
  "scan ensure publish e d st =
     (let (pub, p) = st in
      case ensure p of
        (False, p') \<Rightarrow> (False, pub, p')
      | (True, p') \<Rightarrow>
          if \<not> sc_rows e then (False, pub, p')
          else (True, announce publish (sc_now e) (expiredSQL (sc_dbnow e) d) (prune (sc_now e) pub, p')))"

text \<open>
  The seam to the transport: the two methods of \<^verbatim>\<open>Publisher\<close> and what the sweep relies on.
  \<open>near k x p\<close> says an announcement of \<open>x\<close> is waiting among the last \<open>k\<close> of the queue. The
  group is there once \<open>ensure\<close> answered nil, a publication that answered nil is the last of the
  queue, and any further one pushes the others back by at most one place.
\<close>

locale publisher =
  fixes ensure :: "'p \<Rightarrow> bool \<times> 'p"
    and publish :: "uuid \<Rightarrow> 'p \<Rightarrow> bool \<times> 'p"
    and sane :: "'p \<Rightarrow> bool"
    and ready :: "'p \<Rightarrow> bool"
    and near :: "nat \<Rightarrow> uuid \<Rightarrow> 'p \<Rightarrow> bool"
  assumes ensure_ready: "sane p \<Longrightarrow> fst (ensure p) \<Longrightarrow> ready (snd (ensure p))"
    and publish_ready: "ready p \<Longrightarrow> ready (snd (publish x p))"
    and publish_queues: "ready p \<Longrightarrow> fst (publish x p) \<Longrightarrow> near 1 x (snd (publish x p))"
    and publish_pushes: "ready p \<Longrightarrow> near k x p \<Longrightarrow> k < maxLen \<Longrightarrow> near (Suc k) x (snd (publish y p))"
    and near_mono: "near k x p \<Longrightarrow> k \<le> l \<Longrightarrow> near l x p"
begin

lemma announce_ready: "ready p \<Longrightarrow> ready (snd (announce publish now xs (pub, p)))"
proof (induction xs arbitrary: pub p)
  case (Cons x xs)
  then show ?case using publish_ready [of p x] by (auto split: prod.split bool.split)
qed simp

lemma announce_keeps_near:
  "ready p \<Longrightarrow> near k x p \<Longrightarrow> k + length xs \<le> maxLen \<Longrightarrow>
   near (k + length xs) x (snd (announce publish now xs (pub, p)))"
proof (induction xs arbitrary: pub p k)
  case (Cons y ys)
  have "near (Suc k + length ys) x (snd (announce publish now ys (pub', p')))"
    if "p' = p \<or> p' = snd (publish y p)" for pub' p'
    using that Cons.prems near_mono [of k x p "Suc k"] publish_ready [of p y] publish_pushes [of p k x y]
    by (intro Cons.IH) auto
  then show ?case by (auto split: prod.split bool.split)
qed simp

lemma announce_window: "pub x = Some at \<Longrightarrow> fst (announce publish now xs (pub, p)) x = Some at"
proof (induction xs arbitrary: pub p)
  case (Cons y ys)
  have "fst (announce publish now ys (pub', p')) x = Some at" if "pub' = pub \<or> (pub y = None \<and> pub' = pub(y \<mapsto> now))" for pub' p'
    using that Cons.prems by (intro Cons.IH) auto
  then show ?case by (auto split: prod.split bool.split)
qed simp

lemma announce_other: "x \<notin> set xs \<Longrightarrow> fst (announce publish now xs (pub, p)) x = pub x"
  by (induction xs arbitrary: pub p) (auto split: prod.split bool.split)

text \<open>Each id handed over and not suppressed is announced, or its publication failed.\<close>

lemma announce_announces:
  assumes "ready p" and "x \<in> set xs" and "pub x = None" and "length xs \<le> maxLen" and "distinct xs"
  shows "case announce publish now xs (pub, p) of (pub', p') \<Rightarrow>
    (pub' x = Some now \<and> near (length xs) x p') \<or>
    (pub' x = None \<and> (\<exists>q. ready q \<and> \<not> fst (publish x q)))"
  using assms
proof (induction xs arbitrary: pub p)
  case (Cons y ys)
  obtain b p' where pub: "publish y p = (b, p')" by fastforce
  have ready: "ready p'" using publish_ready [OF Cons.prems(1), of y] pub by simp
  show ?case
  proof (cases "x = y")
    case False
    with Cons.prems have rest: "x \<in> set ys" "length ys \<le> maxLen" "distinct ys" by auto
    have "case announce publish now (y # ys) (pub, p) of (pub', p') \<Rightarrow>
      (pub' x = Some now \<and> near (length ys) x p') \<or> (pub' x = None \<and> (\<exists>q. ready q \<and> \<not> fst (publish x q)))"
      using Cons.IH [of p pub] Cons.IH [of p' pub] Cons.IH [of p' "pub(y \<mapsto> now)"] Cons.prems(1,3) ready rest False
      by (cases b) (simp_all add: pub fun_upd_def)
    then show ?thesis using near_mono [of "length ys" x _ "Suc (length ys)"] by auto
  next
    case True
    show ?thesis
    proof (cases b)
      case True
      then have "near 1 x p'" using publish_queues [OF Cons.prems(1), of y] pub \<open>x = y\<close> by simp
      then have "near (1 + length ys) x (snd (announce publish now ys (pub(y \<mapsto> now), p')))"
        using Cons.prems(4) by (intro announce_keeps_near [OF ready]) auto
      then show ?thesis
        using announce_window [of "pub(y \<mapsto> now)" x now now ys p'] True pub \<open>x = y\<close> Cons.prems(3)
        by (simp add: case_prod_beta)
    next
      case False
      then have "\<exists>q. ready q \<and> \<not> fst (publish x q)"
        using Cons.prems(1) pub \<open>x = y\<close> by (intro exI [of _ p]) simp
      then show ?thesis
        using announce_other [of x ys now pub p'] False pub \<open>x = y\<close> Cons.prems(3,5) by (simp add: case_prod_beta)
    qed
  qed
qed simp

end

lemma expiredSQL_mem:
  "x \<in> set (expiredSQL now d) \<Longrightarrow>
   \<exists>a. a \<in> set (db_auctions d) \<and> a_id a = x \<and> a_status a = ColOpen \<and> a_ends_at a \<le> now"
  by (auto simp: expiredSQL_def dest!: in_set_takeD)

lemma length_expiredSQL: "length (expiredSQL now d) \<le> sweepLimit"
  by (simp add: expiredSQL_def)

lemma distinct_expiredSQL: "schema_ok d \<Longrightarrow> distinct (expiredSQL now d)"
  by (auto simp: expiredSQL_def schema_ok_def distinct_map inj_on_def intro!: distinct_take)

context publisher
begin

lemma scan_announces:
  assumes "sane p" and "schema_ok d" and "scan ensure publish e d (pub, p) = (True, pub', p')"
    and "x \<in> set (expiredSQL (sc_dbnow e) d)"
  shows "(\<exists>at. pub x = Some at \<and> sc_now e - at < suppressFor \<and> pub' x = Some at) \<or>
    (pub' x = Some (sc_now e) \<and> near sweepLimit x p') \<or>
    (pub' x = None \<and> (\<exists>q. ready q \<and> \<not> fst (publish x q)))"
proof -
  let ?ids = "expiredSQL (sc_dbnow e) d"
  obtain p1 where p1: "ensure p = (True, p1)"
    and run: "announce publish (sc_now e) ?ids (prune (sc_now e) pub, p1) = (pub', p')"
    using assms(3) by (auto simp: scan_def split: prod.splits bool.splits if_splits)
  have ready: "ready p1" using ensure_ready [OF assms(1)] p1 by simp
  have len: "length ?ids \<le> sweepLimit" by (rule length_expiredSQL)
  then have "length ?ids \<le> maxLen" by (simp add: sweepLimit_def maxLen_def)
  note run' = announce_announces [OF ready assms(4) _ this distinct_expiredSQL [OF assms(2)], of "prune (sc_now e) pub" "sc_now e"]
  show ?thesis
  proof (cases "prune (sc_now e) pub x")
    case None
    then show ?thesis using run' run near_mono [OF _ len, of x p'] by auto
  next
    case (Some at)
    then have "pub x = Some at" "sc_now e - at < suppressFor"
      by (auto simp: prune_def split: option.splits if_splits)
    then show ?thesis using announce_window [of "prune (sc_now e) pub" x at "sc_now e" ?ids p1] Some run by simp
  qed
qed

end

section \<open>The producer is a publisher\<close>

definition stream_sane :: "transport \<Rightarrow> bool" where
  "stream_sane t \<longleftrightarrow> (\<forall>g. sm_group (tr_stream t) = Some g \<longrightarrow> xg_delivered g \<le> sm_last (tr_stream t))"

definition stream_ready :: "transport \<Rightarrow> bool" where
  "stream_ready t \<longleftrightarrow> stream_sane t \<and> sm_group (tr_stream t) \<noteq> None"

definition last_entries :: "nat \<Rightarrow> xstream \<Rightarrow> xentry list" where
  "last_entries k s = drop (length (sm_entries s) - k) (sm_entries s)"

definition announced :: "(uuid \<Rightarrow> string) \<Rightarrow> nat \<Rightarrow> uuid \<Rightarrow> transport \<Rightarrow> bool" where
  "announced us k x t \<longleftrightarrow>
     (\<exists>e \<in> set (last_entries k (tr_stream t)). e \<in> set (undelivered (tr_stream t)) \<and>
        xe_values e = [field \<mapsto> Text (us x)])"

lemma last_entries_mono: "k \<le> l \<Longrightarrow> set (last_entries k s) \<subseteq> set (last_entries l s)"
  unfolding last_entries_def by (rule set_drop_subset_set_drop) simp

lemma last_entries_xadd:
  assumes "k < maxLen"
  shows "last_entries (Suc k) (snd (xadd trim vals s)) = last_entries k s @ [\<lparr>xe_id = sm_last s + 1, xe_values = vals\<rparr>]"
proof -
  let ?new = "\<lparr>xe_id = sm_last s + 1, xe_values = vals\<rparr>"
  let ?n = "length (sm_entries s)"
  define c where "c = min trim (Suc ?n - maxLen)"
  have "c + (Suc ?n - c - Suc k) = ?n - k"
    using assms by (auto simp: c_def)
  then show ?thesis
    by (simp add: last_entries_def xadd_def Let_def flip: c_def) (simp add: add.commute)
qed

lemma Publish_stream:
  obtains trim where
    "tr_stream (snd (Publish us x t)) \<in> {tr_stream t, snd (xadd trim [field \<mapsto> Text (us x)] (tr_stream t))}"
    "fst (Publish us x t) \<Longrightarrow>
       tr_stream (snd (Publish us x t)) = snd (xadd trim [field \<mapsto> Text (us x)] (tr_stream t))"
proof -
  let ?trim = "case tr_trims t of [] \<Rightarrow> 0 | n # ns \<Rightarrow> n"
  let ?t0 = "t\<lparr>tr_trims := tl (tr_trims t)\<rparr>"
  obtain r t1 where a: "run_xcmd (xadd ?trim [field \<mapsto> Text (us x)]) ?t0 = (r, t1)" by fastforce
  note d = run_xcmdD(2) [OF a] run_xcmdD(3) [OF a]
  show thesis
  proof (rule that [of ?trim])
    show "tr_stream (snd (Publish us x t)) \<in> {tr_stream t, snd (xadd ?trim [field \<mapsto> Text (us x)] (tr_stream t))}"
      using d(1) by (simp add: Publish_def Let_def a split: sum.split)
    show "tr_stream (snd (Publish us x t)) = snd (xadd ?trim [field \<mapsto> Text (us x)] (tr_stream t))"
      if "fst (Publish us x t)"
      using that d(2) by (cases r) (simp_all add: Publish_def Let_def a)
  qed
qed

lemma xadd_stream [simp]:
  "sm_group (snd (xadd trim vals s)) = sm_group s" "sm_last (snd (xadd trim vals s)) = sm_last s + 1"
  "sm_dead (snd (xadd trim vals s)) = sm_dead s"
  by (simp_all add: xadd_def Let_def)

lemma last_entries_subset: "set (last_entries k s) \<subseteq> set (sm_entries s)"
  unfolding last_entries_def by (rule set_drop_subset)

lemma undelivered_iff:
  "e \<in> set (undelivered s) \<longleftrightarrow>
   e \<in> set (sm_entries s) \<and> (\<exists>g. sm_group s = Some g \<and> xg_delivered g < xe_id e)"
  by (cases "sm_group s") (auto simp: undelivered_def)

lemma xadd_pushes:
  assumes "announced us k x t" and "k < maxLen"
    and "tr_stream t' = snd (xadd trim vals (tr_stream t))"
  shows "announced us (Suc k) x t'"
  using assms last_entries_xadd [OF assms(2), of trim vals "tr_stream t"]
    last_entries_subset [of "Suc k" "tr_stream t'"]
  by (auto simp: announced_def undelivered_iff)

lemma xadd_announces:
  assumes "stream_ready t" and "tr_stream t' = snd (xadd trim [field \<mapsto> Text (us x)] (tr_stream t))"
  shows "announced us 1 x t'"
proof -
  let ?e = "\<lparr>xe_id = sm_last (tr_stream t) + 1, xe_values = [field \<mapsto> Text (us x)]\<rparr>"
  obtain g where g: "sm_group (tr_stream t) = Some g" "xg_delivered g \<le> sm_last (tr_stream t)"
    using assms(1) by (auto simp: stream_ready_def stream_sane_def)
  have "last_entries 1 (tr_stream t') = last_entries 0 (tr_stream t) @ [?e]"
    using last_entries_xadd [of 0] assms(2) by (simp add: maxLen_def)
  then have e: "?e \<in> set (last_entries 1 (tr_stream t'))" by simp
  moreover have "?e \<in> set (sm_entries (tr_stream t'))"
    using last_entries_subset e by blast
  then have "?e \<in> set (undelivered (tr_stream t'))"
    using g by (simp add: undelivered_iff assms(2))
  ultimately show ?thesis unfolding announced_def by (intro bexI [of _ ?e]) simp_all
qed

lemma announced_mono: "announced us k x t \<Longrightarrow> k \<le> l \<Longrightarrow> announced us l x t"
  using last_entries_mono by (fastforce simp: announced_def)

interpretation producer: publisher EnsureGroup "Publish us" stream_sane stream_ready "announced us"
proof
  fix p :: transport and x y k l
  show "stream_ready (snd (EnsureGroup p))" if sane: "stream_sane p" and ok: "fst (EnsureGroup p)"
  proof -
    obtain r t1 where a: "run_xcmd xgroup_create p = (r, t1)" by fastforce
    have "tr_stream t1 \<in> {tr_stream p, snd (xgroup_create (tr_stream p))}"
      using run_xcmdD(2) [OF a] by auto
    moreover have "sm_group (tr_stream t1) \<noteq> None"
    proof (cases r)
      case (Inl e)
      then have "e = BusyGroup" using ok by (cases e) (simp_all add: EnsureGroup_def a)
      then show ?thesis
        using run_xcmdD(4) [OF a Inl] by (auto simp: xgroup_create_def split: option.splits)
    next
      case (Inr u)
      then show ?thesis
        using arg_cong [OF run_xcmdD(3) [OF a Inr], of "\<lambda>q. sm_group (snd q)"]
        by (cases "sm_group (tr_stream p)") (simp_all add: xgroup_create_def, metis+)
    qed
    ultimately have "stream_ready t1"
      using sane by (auto simp: stream_ready_def stream_sane_def xgroup_create_def split: option.splits)
    then show ?thesis
      using a by (auto simp: EnsureGroup_def split: sum.split stream_error.split)
  qed
  show "stream_ready (snd (Publish us x p))" if "stream_ready p"
    by (rule Publish_stream [of us x p]) (use that in \<open>auto simp: stream_ready_def stream_sane_def le_Suc_eq\<close>)
  show "announced us 1 x (snd (Publish us x p))" if "stream_ready p" "fst (Publish us x p)"
    by (rule Publish_stream [of us x p]) (use that xadd_announces in blast)
  show "announced us (Suc k) x (snd (Publish us y p))" if "announced us k x p" "k < maxLen"
  proof (rule Publish_stream [of us y p])
    fix trim
    assume "tr_stream (snd (Publish us y p)) \<in> {tr_stream p, snd (xadd trim [field \<mapsto> Text (us y)] (tr_stream p))}"
    then show ?thesis
    proof
      assume "tr_stream (snd (Publish us y p)) = tr_stream p"
      then show ?thesis using announced_mono [OF that(1), of "Suc k"] by (simp add: announced_def)
    qed (use that xadd_pushes in blast)
  qed
  show "announced us k x p \<Longrightarrow> k \<le> l \<Longrightarrow> announced us l x p" by (rule announced_mono)
qed

text \<open>Over an answering Redis no publication fails.\<close>

lemma Publish_calm:
  assumes "tr_faults t = []"
  shows "fst (Publish us x t)" and "tr_faults (snd (Publish us x t)) = []"
  using assms by (simp_all add: Publish_def Let_def run_xcmd_answered xadd_def)

lemma EnsureGroup_calm:
  assumes "tr_faults t = []"
  shows "fst (EnsureGroup t)" and "tr_faults (snd (EnsureGroup t)) = []"
  using assms by (simp_all add: EnsureGroup_def run_xcmd_answered xgroup_create_def split: option.split)

interpretation producer_calm: publisher EnsureGroup "Publish us" "\<lambda>t. stream_sane t \<and> tr_faults t = []"
    "\<lambda>t. stream_ready t \<and> tr_faults t = []" "announced us"
  by unfold_locales
    (auto simp: producer.ensure_ready producer.publish_ready producer.publish_queues [unfolded One_nat_def]
      producer.publish_pushes Publish_calm EnsureGroup_calm intro: announced_mono)

text \<open>
  Claim C17. A pass of the sweep announces every auction it finds. For each id the query
  returned, either it was announced less than 30 seconds ago, or it is now in the window and its
  entry waits, undelivered, among the last 500 of the stream (where the trim of 100000 cannot reach
  it); or the publication failed, and then the id is left out of the window for the next pass.
\<close>
theorem sweep_announces_the_due:
  assumes "stream_sane t" and "schema_ok d" and "x \<in> set (expiredSQL (sc_dbnow e) d)"
    and "scan EnsureGroup (Publish us) e d (pub, t) = (True, pub', t')"
  shows "(\<exists>at. pub x = Some at \<and> sc_now e - at < suppressFor \<and> pub' x = Some at) \<or>
    (pub' x = Some (sc_now e) \<and> announced us sweepLimit x t') \<or>
    (pub' x = None \<and> tr_faults t \<noteq> [])"
proof (cases "tr_faults t = []")
  case True
  then show ?thesis
    using producer_calm.scan_announces [of t d us e pub pub' t' x] assms Publish_calm(1) by auto
next
  case False
  then show ?thesis
    using producer.scan_announces [OF assms(1,2,4,3)] by auto
qed

definition sample_scan :: scan_env where
  "sample_scan = \<lparr>sc_rows = True, sc_dbnow = 1500, sc_now = 1500\<rparr>"

definition fresh_transport :: transport where
  "fresh_transport = \<lparr>tr_stream = empty_stream, tr_metrics = \<lparr>sx_published = 0, sx_claimed = 0, sx_dead = 0\<rparr>,
     tr_faults = [], tr_trims = []\<rparr>"

text \<open>A uuid text and its parser, for the witnesses: the number in unary.\<close>

definition unary :: "uuid \<Rightarrow> string" where
  "unary x = replicate (unat x) (CHR ''a'')"

definition from_unary :: "string \<Rightarrow> uuid option" where
  "from_unary s = Some (of_nat (length s))"

lemma from_unary [simp]: "from_unary (unary x) = Some x"
  by (simp add: from_unary_def unary_def)

lemma sample_expired: "expiredSQL 1500 sample_db = [1]"
  by (simp add: expiredSQL_def sweepLimit_def sample_db_def sample_row_def)

lemma fresh_sane: "stream_sane fresh_transport"
  by (simp add: stream_sane_def fresh_transport_def empty_stream_def)

lemma sample_scan_runs:
  "\<exists>pub t. scan EnsureGroup (Publish unary) sample_scan sample_db (Map.empty, fresh_transport) = (True, pub, t)"
  using EnsureGroup_calm(1) [of fresh_transport]
  by (auto simp: scan_def sample_scan_def fresh_transport_def split: prod.split bool.split)

theorem sweep_announces_the_due_witness:
  "\<exists>pub t. scan EnsureGroup (Publish unary) sample_scan sample_db (Map.empty, fresh_transport) = (True, pub, t) \<and>
     pub 1 = Some 1500 \<and> announced unary sweepLimit 1 t"
proof -
  obtain pub t where run: "scan EnsureGroup (Publish unary) sample_scan sample_db (Map.empty, fresh_transport) = (True, pub, t)"
    using sample_scan_runs by blast
  then show ?thesis
    using sweep_announces_the_due [OF fresh_sane, of sample_db 1 sample_scan unary Map.empty pub t] sample_inv
    by (simp add: db_inv_def sample_expired sample_scan_def fresh_transport_def)
qed

section \<open>No id is announced twice in a window\<close>

text \<open>The sweep over a publisher that keeps a log of what it accepted, and when.\<close>

definition logged :: "(uuid \<Rightarrow> 'p \<Rightarrow> bool \<times> 'p) \<Rightarrow> time \<Rightarrow> uuid \<Rightarrow> 'p \<times> (uuid \<times> time) list \<Rightarrow> bool \<times> 'p \<times> (uuid \<times> time) list" where
  "logged publish now x st =
     (let (p, log) = st; (b, p') = publish x p in (b, p', if b then log @ [(x, now)] else log))"

fun sweeps ::
  "('p \<Rightarrow> bool \<times> 'p) \<Rightarrow> (uuid \<Rightarrow> 'p \<Rightarrow> bool \<times> 'p) \<Rightarrow> (scan_env \<times> db) list \<Rightarrow> window \<times> 'p \<times> (uuid \<times> time) list
   \<Rightarrow> window \<times> 'p \<times> (uuid \<times> time) list" where
  "sweeps ensure publish [] st = st"
| "sweeps ensure publish ((e, d) # es) st =
     sweeps ensure publish es
       (snd (scan (\<lambda>(p, log). let (b, p') = ensure p in (b, p', log)) (logged publish (sc_now e)) e d st))"

definition spaced :: "(uuid \<times> time) list \<Rightarrow> bool" where
  "spaced log \<longleftrightarrow> sorted_wrt (\<lambda>a b. fst a = fst b \<longrightarrow> suppressFor \<le> snd b - snd a) log"

text \<open>Every recent announcement still stands in the window.\<close>

definition remembered :: "time \<Rightarrow> window \<Rightarrow> (uuid \<times> time) list \<Rightarrow> bool" where
  "remembered now pub log \<longleftrightarrow>
     (\<forall>(x, t) \<in> set log. t \<le> now \<and> (suppressFor \<le> now - t \<or> (\<exists>at. pub x = Some at \<and> t \<le> at)))"

lemma remembered_prune:
  assumes "remembered t pub log" and "t \<le> now"
  shows "remembered now (prune now pub) log"
  unfolding remembered_def
proof (clarify, intro conjI)
  fix x s
  assume "(x, s) \<in> set log"
  with assms have s: "s \<le> t" "suppressFor \<le> t - s \<or> (\<exists>at. pub x = Some at \<and> s \<le> at)"
    by (auto simp: remembered_def)
  then show "s \<le> now" using assms(2) by simp
  show "suppressFor \<le> now - s \<or> (\<exists>at. prune now pub x = Some at \<and> s \<le> at)"
    using s assms(2) by (auto simp: prune_def)
qed

lemma remembered_announce:
  assumes "remembered now pub log"
  shows "remembered now (pub(x \<mapsto> now)) (log @ [(x, now)])"
  unfolding remembered_def
proof (clarify, intro conjI)
  fix y s
  assume "(y, s) \<in> set (log @ [(x, now)])"
  then have s: "s \<le> now" "suppressFor \<le> now - s \<or> y = x \<or> (\<exists>at. pub y = Some at \<and> s \<le> at)"
    using assms by (auto simp: remembered_def)
  show "s \<le> now" by (rule s)
  show "suppressFor \<le> now - s \<or> (\<exists>at. (pub(x \<mapsto> now)) y = Some at \<and> s \<le> at)"
    using s by auto
qed

lemma announce_spaced:
  assumes "spaced log" and "remembered now pub log"
    and "announce (logged publish now) now xs (pub, p, log) = (pub', p', log')"
  shows "spaced log' \<and> remembered now pub' log'"
  using assms
proof (induction xs arbitrary: pub p log)
  case (Cons x xs)
  show ?case
  proof (cases "pub x")
    case (Some at)
    then show ?thesis using Cons by simp
  next
    case None
    obtain b q where pub: "publish x p = (b, q)" by fastforce
    show ?thesis
    proof (cases b)
      case False
      then show ?thesis using Cons None pub by (simp add: logged_def)
    next
      case True
      have "suppressFor \<le> now - t" if "(x, t) \<in> set log" for t
        using Cons.prems(2) that None by (fastforce simp: remembered_def)
      then have "spaced (log @ [(x, now)])"
        using Cons.prems(1) by (auto simp: spaced_def sorted_wrt_append)
      moreover have "remembered now (pub(x \<mapsto> now)) (log @ [(x, now)])"
        using Cons.prems(2) by (rule remembered_announce)
      ultimately show ?thesis
        using Cons.IH Cons.prems(3) None pub True by (simp add: logged_def)
    qed
  qed
qed simp

lemma scan_spaced:
  assumes "spaced log" and "remembered t pub log" and "t \<le> sc_now e"
    and "scan (\<lambda>(p, log). let (b, p') = ensure p in (b, p', log)) (logged publish (sc_now e)) e d (pub, p, log) =
      (b, pub', p', log')"
  shows "spaced log' \<and> remembered (sc_now e) pub' log'"
proof -
  obtain c q where ens: "ensure p = (c, q)" by fastforce
  have later: "remembered (sc_now e) pub log"
    using assms(2,3) unfolding remembered_def by fastforce
  show ?thesis
  proof (cases "c \<and> sc_rows e")
    case True
    then have "announce (logged publish (sc_now e)) (sc_now e) (expiredSQL (sc_dbnow e) d)
        (prune (sc_now e) pub, q, log) = (pub', p', log')"
      using assms(4) ens by (simp add: scan_def)
    then show ?thesis
      by (rule announce_spaced [OF assms(1) remembered_prune [OF assms(2,3)]])
  next
    case False
    then have "pub' = pub \<and> log' = log"
      using assms(4) ens by (auto simp: scan_def split: bool.splits)
    then show ?thesis using assms(1) later by simp
  qed
qed

lemma sweeps_spaced:
  assumes "spaced log" and "remembered t pub log" and "list_all (\<lambda>(e, d). t \<le> sc_now e) es"
    and "sorted (map (\<lambda>(e, d). sc_now e) es)"
    and "sweeps ensure publish es (pub, p, log) = (pub', p', log')"
  shows "spaced log'"
  using assms
proof (induction es arbitrary: t pub p log)
  case (Cons ed es)
  obtain e d where ed: "ed = (e, d)" by fastforce
  obtain b pub1 p1 log1 where run:
    "scan (\<lambda>(p, log). let (b, p') = ensure p in (b, p', log)) (logged publish (sc_now e)) e d (pub, p, log) = (b, pub1, p1, log1)"
    by (metis prod_cases4)
  have "spaced log1 \<and> remembered (sc_now e) pub1 log1"
    using scan_spaced [OF Cons.prems(1,2) _ run] Cons.prems(3) ed by simp
  moreover have "list_all (\<lambda>(e', d). sc_now e \<le> sc_now e') es"
    using Cons.prems(4) ed by (auto simp: list_all_iff)
  ultimately show ?case
    using Cons.IH [of log1 "sc_now e" pub1 p1] Cons.prems(4,5) run ed by simp
qed simp

text \<open>
  The suppression window suppresses. However many passes run, whatever the
  databases they read and whatever the transport does, no id is published twice within 30
  seconds by one process, and an id whose publication failed does not count as published.
\<close>
theorem sweeps_are_spaced:
  assumes "sorted (map (\<lambda>(e, d). sc_now e) es)"
    and "sweeps ensure publish es (Map.empty, p, []) = (pub, p', log)"
  shows "spaced log"
proof (cases es)
  case Nil
  then show ?thesis using assms(2) by (simp add: spaced_def)
next
  case (Cons ed es')
  have "list_all (\<lambda>(e, d). sc_now (fst ed) \<le> sc_now e) es"
    using assms(1) Cons by (auto simp: list_all_iff split: prod.splits)
  then show ?thesis
    using sweeps_spaced [of "[]" "sc_now (fst ed)" Map.empty es ensure publish p pub p' log] assms
    by (simp add: spaced_def remembered_def)
qed

text \<open>Three passes a second and then half a minute apart: two announcements, 31 seconds apart.\<close>

definition sample_sweeps :: "(scan_env \<times> db) list" where
  "sample_sweeps = map (\<lambda>t. (\<lparr>sc_rows = True, sc_dbnow = 1500, sc_now = t * 1000000000\<rparr>, sample_db)) [1, 2, 32]"

theorem sweeps_are_spaced_witness:
  "\<exists>pub. sweeps (\<lambda>p. (True, p)) (\<lambda>x p. (True, p)) sample_sweeps (Map.empty, (), []) =
     (pub, (), [(1, 1000000000), (1, 32000000000)]) \<and> spaced [(1 :: uuid, 1000000000), (1, 32000000000)]"
proof -
  obtain pub where run: "sweeps (\<lambda>p. (True, p)) (\<lambda>x p. (True, p)) sample_sweeps (Map.empty, (), []) =
      (pub, (), [(1, 1000000000), (1, 32000000000)])"
    by (simp add: sample_sweeps_def scan_def logged_def sample_expired prune_def suppressFor_def)
  have "sorted (map (\<lambda>(e, d). sc_now e) sample_sweeps)"
    by (simp add: sample_sweeps_def)
  then have "spaced [(1 :: uuid, 1000000000), (1, 32000000000)]"
    using run by (rule sweeps_are_spaced)
  with run show ?thesis by blast
qed

section \<open>The closing path as a whole\<close>

text \<open>
  A state is the worker with its Redis and its cell, and the suppression window of the sweep. The
  steps, in any order: a pass of the sweep, asking the database no later than its clock; a turn of
  the worker; other sessions and the passing of time; a network with new faults and trims; a
  flushed Redis; the restart of either process.
\<close>

type_synonym closing = "cell consumer \<times> window"

inductive closing_step :: "(uuid \<Rightarrow> string) \<Rightarrow> (string \<Rightarrow> uuid option) \<Rightarrow> closing \<Rightarrow> closing \<Rightarrow> bool"
  for us up where
  sweep: "scan EnsureGroup (Publish us) e (cl_db (cn_world c)) (pub, cn_transport c) = (b, pub', t') \<Longrightarrow>
    sc_dbnow e \<le> cl_clock (cn_world c) \<Longrightarrow>
    closing_step us up (c, pub) (c\<lparr>cn_transport := t'\<rparr>, pub')"
| turn: "closing_step us up (c, pub) (consumer_turn up close_handler tu c, pub)"
| others: "evolves (cl_db (cn_world c)) d \<Longrightarrow> cl_clock (cn_world c) \<le> now \<Longrightarrow>
    closing_step us up (c, pub)
      (c\<lparr>cn_world := (cn_world c)\<lparr>cl_mat := (cl_mat (cn_world c))\<lparr>mt_db := d\<rparr>, cl_clock := now\<rparr>\<rparr>, pub)"
| network: "closing_step us up (c, pub) (c\<lparr>cn_transport := (cn_transport c)\<lparr>tr_faults := fs, tr_trims := ns\<rparr>\<rparr>, pub)"
| flush: "closing_step us up (c, pub) (c\<lparr>cn_transport := (cn_transport c)\<lparr>tr_stream := empty_stream\<rparr>\<rparr>, pub)"
| restart_auctiond: "closing_step us up (c, pub) (c, Map.empty)"
| restart_closerd: "closing_step us up (c, pub) (c\<lparr>cn_cursor := 0\<rparr>, pub)"

inductive closing_run :: "(uuid \<Rightarrow> string) \<Rightarrow> (string \<Rightarrow> uuid option) \<Rightarrow> closing \<Rightarrow> closing \<Rightarrow> bool"
  for us up st where
  run_refl: "closing_run us up st st"
| run_step: "closing_run us up st st' \<Longrightarrow> closing_step us up st' st'' \<Longrightarrow> closing_run us up st st''"

definition closing_start :: "cell \<Rightarrow> transport \<Rightarrow> closing" where
  "closing_start w t = (\<lparr>cn_transport = t\<lparr>tr_stream := empty_stream\<rparr>, cn_world = w, cn_cursor = 0\<rparr>, Map.empty)"

abbreviation closing_inv :: "(string \<Rightarrow> uuid option) \<Rightarrow> cell consumer \<Rightarrow> bool" where
  "closing_inv up \<equiv> consumer_ok up cell_ok overdue is_settled"

lemma announce_ok:
  assumes "closing_inv up c" and "list_all (\<lambda>x. overdue x (cn_world c) \<and> up (us x) = Some x) xs"
    and "sm_group (tr_stream (cn_transport c)) \<noteq> None"
    and "announce (Publish us) now xs (pub, cn_transport c) = (pub', t')"
  shows "closing_inv up (c\<lparr>cn_transport := t'\<rparr>)"
  using assms
proof (induction xs arbitrary: c pub)
  case (Cons x xs)
  show ?case
  proof (cases "pub x")
    case (Some at)
    then show ?thesis using Cons by simp
  next
    case None
    obtain b t1 where pub: "Publish us x (cn_transport c) = (b, t1)" by fastforce
    let ?c' = "c\<lparr>cn_transport := t1\<rparr>"
    have "closing_inv up ?c'"
      using closerd.post_ok [of up c x us] Cons.prems(1-3) pub by simp
    moreover have "sm_group (tr_stream (cn_transport ?c')) \<noteq> None"
      using Cons.prems(3) Publish_stream [of us x "cn_transport c"] pub by fastforce
    moreover obtain pub1 where "announce (Publish us) now xs (pub1, cn_transport ?c') = (pub', t')"
      using Cons.prems(4) None pub by (cases b) auto
    ultimately have "closing_inv up (?c'\<lparr>cn_transport := t'\<rparr>)"
      using Cons.IH [of ?c'] Cons.prems(2) by simp
    then show ?thesis by simp
  qed
qed (auto simp: consumer_ok_def)

lemma EnsureGroup_group:
  assumes "fst (EnsureGroup t)" and "stream_sane t"
  shows "sm_group (tr_stream (snd (EnsureGroup t))) \<noteq> None"
  using producer.ensure_ready [OF assms(2,1)] by (simp add: stream_ready_def)

lemma stream_ok_sane:
  "stream_ok p due settled (tr_stream t) w \<Longrightarrow> stream_sane t"
  by (auto simp: stream_sane_def dest: stream_okD(5))

lemma scan_ok:
  assumes inv: "closing_inv up c" and parses: "\<And>x. up (us x) = Some x"
    and run: "scan EnsureGroup (Publish us) e (cl_db (cn_world c)) (pub, cn_transport c) = (b, pub', t')"
    and clock: "sc_dbnow e \<le> cl_clock (cn_world c)"
  shows "closing_inv up (c\<lparr>cn_transport := t'\<rparr>)"
proof -
  obtain g t1 where ens: "EnsureGroup (cn_transport c) = (g, t1)" by fastforce
  let ?c1 = "c\<lparr>cn_transport := t1\<rparr>"
  have inv1: "closing_inv up ?c1"
    using closerd.group_ok [OF inv] ens by simp
  show ?thesis
  proof (cases "g \<and> sc_rows e")
    case True
    have db: "schema_ok (cl_db (cn_world c))"
      using inv by (simp add: consumer_ok_def cell_ok_def db_inv_def)
    have "overdue x (cn_world c)" if x: "x \<in> set (expiredSQL (sc_dbnow e) (cl_db (cn_world c)))" for x
    proof -
      obtain a where a: "a \<in> set (db_auctions (cl_db (cn_world c)))" "a_id a = x" "a_ends_at a \<le> sc_dbnow e"
        using expiredSQL_mem [OF x] by blast
      then show ?thesis using find_auction_iff [OF db, of x a] clock by (auto simp: overdue_def)
    qed
    then have due: "list_all (\<lambda>x. overdue x (cn_world ?c1) \<and> up (us x) = Some x)
        (expiredSQL (sc_dbnow e) (cl_db (cn_world c)))"
      using parses by (simp add: list_all_iff)
    have "stream_sane (cn_transport c)"
      using inv stream_ok_sane by (auto simp: consumer_ok_def)
    then have "sm_group (tr_stream (cn_transport ?c1)) \<noteq> None"
      using EnsureGroup_group [of "cn_transport c"] ens True by simp
    from announce_ok [OF inv1 due this, of "sc_now e" "prune (sc_now e) pub" pub' t']
    show ?thesis using run ens True by (simp add: scan_def)
  next
    case False
    then have "t' = t1" using run ens by (auto simp: scan_def split: bool.splits)
    then show ?thesis using inv1 by simp
  qed
qed

lemma closing_step_keeps:
  assumes "closing_step us up (c, pub) (c', pub')" and inv: "closing_inv up c" and parses: "\<And>x. up (us x) = Some x"
  shows "closing_inv up c'"
  using assms(1)
proof (cases rule: closing_step.cases)
  case (sweep e b t')
  then show ?thesis using scan_ok [OF inv parses, of e pub b pub' t'] by simp
next
  case (turn tu)
  then show ?thesis using closerd.turn_ok [OF inv, of tu] by simp
next
  case (others d now)
  let ?w = "cn_world c"
  let ?w' = "?w\<lparr>cl_mat := (cl_mat ?w)\<lparr>mt_db := d\<rparr>, cl_clock := now\<rparr>"
  have w: "db_inv (cl_db ?w)" "cell_ok ?w" using inv by (simp_all add: consumer_ok_def cell_ok_def)
  have "overdue x ?w'" if "overdue x ?w" for x
    using overdue_evolves [OF w(1), of ?w' x] others that by simp
  moreover have "is_settled x ?w'" if "is_settled x ?w" for x
    using evolves_closed_in [of "cl_db ?w" d x] w(1) others that by (simp add: is_settled_def)
  moreover have "cell_ok ?w'"
    using w db_inv_evolves [of "cl_db ?w" d] others by (simp add: cell_ok_def)
  ultimately show ?thesis
    using inv others stream_ok_world [of up overdue is_settled "tr_stream (cn_transport c)" ?w ?w']
    by (simp add: consumer_ok_def)
qed (use inv in \<open>auto simp: consumer_ok_def\<close>)

lemma turn_evolves:
  assumes "cell_ok (cn_world c)"
  shows "evolves (cl_db (cn_world c)) (cl_db (cn_world (consumer_turn up close_handler tu c)))"
proof -
  have handle: "evolves (cl_db (cn_world c)) (cl_db (cn_world (handle up close_handler m c))) \<and>
      cell_ok (cn_world (handle up close_handler m c))" if "cell_ok (cn_world c)" for m c
    using close_handler_evolves(1) [OF that] cell_ok_keeps [OF that] that
    by (auto simp: handle_def split: option.split prod.split bool.split)
  have process: "evolves (cl_db (cn_world c)) (cl_db (cn_world (process up close_handler left ms c)))"
    if "cell_ok (cn_world c)" for left ms c
    using that
  proof (induction ms arbitrary: left c)
    case (Cons m ms)
    then show ?case using handle [of c m] evolves_trans by (fastforce simp: Let_def split: option.split)
  qed simp
  have same: "evolves (cl_db (cn_world c)) (cl_db (cn_world (process up close_handler left ms c')))"
    if "cn_world c' = cn_world c" for left ms c'
    using process [of c'] assms that by simp
  show ?thesis
    by (simp add: consumer_turn_def Let_def same split: prod.split sum.split)
qed

lemma closing_step_evolves:
  assumes "closing_step us up (c, pub) (c', pub')" and "closing_inv up c"
  shows "evolves (cl_db (cn_world c)) (cl_db (cn_world c'))"
  using assms(1)
proof (cases rule: closing_step.cases)
  case (turn tu)
  then show ?thesis using turn_evolves assms(2) by (simp add: consumer_ok_def)
qed simp_all

lemma closing_run_ok:
  assumes "closing_run us up (c, pub) st" and "closing_inv up c" and "\<And>x. up (us x) = Some x"
  shows "closing_inv up (fst st) \<and> evolves (cl_db (cn_world c)) (cl_db (cn_world (fst st)))"
  using assms(1)
proof (induction rule: closing_run.induct)
  case run_refl
  then show ?case using assms(2) by simp
next
  case (run_step st' st'')
  obtain c1 p1 c2 p2 where st: "st' = (c1, p1)" "st'' = (c2, p2)" by fastforce
  have step: "closing_step us up (c1, p1) (c2, p2)" using run_step.hyps(2) by (simp add: st)
  have inv: "closing_inv up c1" "evolves (cl_db (cn_world c)) (cl_db (cn_world c1))"
    using run_step.IH by (simp_all add: st)
  have "evolves (cl_db (cn_world c)) (cl_db (cn_world c2))"
    using inv(2) closing_step_evolves [OF step inv(1)] by (rule evolves_trans)
  then show ?case
    using closing_step_keeps [OF step inv(1) assms(3)] by (simp add: st)
qed

lemma closing_start_inv: "cell_ok w \<Longrightarrow> closing_inv up (fst (closing_start w t))"
  by (simp add: closing_start_def consumer_ok_def)

lemma at_least_once_core:
  assumes "cell_ok w" and "closing_run us up (closing_start w t) (c, pub)" and "\<And>x. up (us x) = Some x"
  shows "evolves (cl_db w) (cl_db (cn_world c)) \<and> db_inv (cl_db (cn_world c)) \<and>
    list_all (\<lambda>e. xe_id e \<in> pending_ids (tr_stream (cn_transport c)) \<or>
        (case parse up e of
           None \<Rightarrow> buried_values e \<in> set (sm_dead (tr_stream (cn_transport c)))
         | Some x \<Rightarrow> closed_in x (cl_db (cn_world c))))
      (filter (\<lambda>e. e \<notin> set (undelivered (tr_stream (cn_transport c)))) (sm_entries (tr_stream (cn_transport c))))"
proof -
  obtain c0 pub0 where start: "closing_start w t = (c0, pub0)" and w: "cn_world c0 = w"
    by (simp add: closing_start_def)
  have "closing_inv up c0" using closing_start_inv [OF assms(1), of up t] start by simp
  from closing_run_ok [OF assms(2) [unfolded start] this assms(3)]
  have inv: "closing_inv up c" and ev: "evolves (cl_db w) (cl_db (cn_world c))" by (simp_all add: w)
  let ?s = "tr_stream (cn_transport c)"
  have s: "stream_ok up overdue is_settled ?s (cn_world c)" using inv by (simp add: consumer_ok_def)
  have "accounted up is_settled ?s (cn_world c) e" if e: "e \<in> set (sm_entries ?s)" "e \<notin> set (undelivered ?s)" for e
  proof -
    obtain g where g: "sm_group ?s = Some g" using stream_okD(6) [OF s] e(1) by fastforce
    then have "xe_id e \<le> xg_delivered g" using e by (auto simp: undelivered_iff)
    then show ?thesis using stream_okD(4) [OF s g e(1)] by simp
  qed
  note acc = this [unfolded accounted_def ended_def is_settled_def]
  have "db_inv (cl_db (cn_world c))" using inv by (simp add: consumer_ok_def cell_ok_def)
  then show ?thesis
    using ev acc by (auto simp: list_all_iff)
qed

text \<open>
  Claim C14. Delivery is at least once, and an acknowledgement means closed. In every run of
  the closing path, with lost round trips, trims, flushes, kills and restarts of both processes and
  any sessions beside it: an entry delivered and still in the stream is pending, or unreadable and
  in the dead letter stream, or its auction is closed; and the database only took steps of the
  ledger, so no auction was closed early.
\<close>
theorem closing_is_at_least_once:
  assumes "cell_ok w" and "closing_run us up (closing_start w t) (c, pub)" and "\<And>x. up (us x) = Some x"
  shows "evolves (cl_db w) (cl_db (cn_world c)) \<and> db_inv (cl_db (cn_world c)) \<and>
    list_all (\<lambda>e. xe_id e \<in> pending_ids (tr_stream (cn_transport c)) \<or>
        (case parse up e of
           None \<Rightarrow> buried_values e \<in> set (sm_dead (tr_stream (cn_transport c)))
         | Some x \<Rightarrow> closed_in x (cl_db (cn_world c))))
      (filter (\<lambda>e. e \<notin> set (undelivered (tr_stream (cn_transport c)))) (sm_entries (tr_stream (cn_transport c))))"
  by (rule at_least_once_core [OF assms])

text \<open>A cell at rest: nobody else writes, nothing is lost, every delay is one.\<close>

definition quiet_delays :: close_delays where
  "quiet_delays = \<lparr>cd_before = id, cd_fault = NoFault, cd_wait = 1, cd_set = 1, cd_world = id,
     cd_classify_fault = NoFault, cd_now = 1\<rparr>"

definition sample_cell :: "db \<Rightarrow> time \<Rightarrow> cell" where
  "sample_cell d t = \<lparr>cl_mat = sample_mat d, cl_clock = t, cl_calls = 0, cl_delays = \<lambda>_. quiet_delays\<rparr>"

lemma sample_cell_calm: "db_inv d \<Longrightarrow> cell_calm (sample_cell d t)"
  by (simp add: cell_calm_def cell_ok_def sample_cell_def sample_mat_def quiet_delays_def)

definition plain_turn :: turn where
  "plain_turn = \<lparr>tu_name = ''w'', tu_now = 1500, tu_end_claim = False, tu_end_read = False, tu_left = None\<rparr>"

text \<open>The sample path: a sweep at 1500 finds the auction, and a turn handles its entry.\<close>

definition sample_swept :: closing where
  "sample_swept =
     (let (c, pub) = closing_start (sample_cell sample_db 1500) fresh_transport;
          (b, pub', t') = scan EnsureGroup (Publish unary) sample_scan (cl_db (cn_world c)) (pub, cn_transport c)
      in (c\<lparr>cn_transport := t'\<rparr>, pub'))"

definition sample_turned :: closing where
  "sample_turned = (consumer_turn from_unary close_handler plain_turn (fst sample_swept), snd sample_swept)"

lemma sample_cell_db [simp]: "cl_db (sample_cell d t) = d"
  by (simp add: sample_cell_def sample_mat_def)

lemma sample_sweep_run:
  "closing_run unary from_unary (closing_start (sample_cell sample_db 1500) fresh_transport) sample_swept"
proof -
  define c where "c = fst (closing_start (sample_cell sample_db 1500) fresh_transport)"
  obtain b pub' t' where scan: "scan EnsureGroup (Publish unary) sample_scan (cl_db (cn_world c)) (Map.empty, cn_transport c) = (b, pub', t')"
    by (metis prod_cases3)
  have start: "closing_start (sample_cell sample_db 1500) fresh_transport = (c, Map.empty)"
    by (simp add: c_def closing_start_def)
  have swept: "sample_swept = (c\<lparr>cn_transport := t'\<rparr>, pub')"
    unfolding sample_swept_def start by (simp add: scan)
  have "sc_dbnow sample_scan \<le> cl_clock (cn_world c)"
    by (simp add: c_def sample_scan_def closing_start_def sample_cell_def)
  then have "closing_step unary from_unary (c, Map.empty) sample_swept"
    unfolding swept by (rule closing_step.sweep [OF scan])
  then show ?thesis
    unfolding start by (blast intro: closing_run.intros)
qed

lemma sample_path: "closing_run unary from_unary (closing_start (sample_cell sample_db 1500) fresh_transport) sample_turned"
proof -
  have "closing_step unary from_unary sample_swept sample_turned"
    using closing_step.turn [of unary from_unary "fst sample_swept" "snd sample_swept" plain_turn]
    by (simp add: sample_turned_def)
  with sample_sweep_run show ?thesis by (rule closing_run.run_step)
qed

theorem closing_is_at_least_once_witness:
  "evolves sample_db (cl_db (cn_world (fst sample_turned))) \<and> db_inv (cl_db (cn_world (fst sample_turned)))"
  using closing_is_at_least_once [of "sample_cell sample_db 1500" unary from_unary fresh_transport "fst sample_turned" "snd sample_turned"]
    sample_path sample_cell_calm [OF sample_inv, of 1500]
  by (simp add: cell_calm_def)

section \<open>An overdue auction gets closed\<close>

lemma undelivered_xadd: "length (undelivered (snd (xadd trim vals s))) \<le> Suc (length (undelivered s))"
proof (cases "sm_group s")
  case None
  then show ?thesis by (simp add: undelivered_def)
next
  case (Some g)
  let ?new = "\<lparr>xe_id = Suc (sm_last s), xe_values = vals\<rparr>"
  have "length (filter P (drop n es)) \<le> length (filter P es)" for P n and es :: "xentry list"
    by (metis append_take_drop_id filter_append le_add2 length_append)
  then have "length (undelivered (snd (xadd trim vals s))) \<le> length (filter (\<lambda>e. xg_delivered g < xe_id e) (sm_entries s @ [?new]))"
    using Some by (simp add: undelivered_def xadd_def Let_def del: drop_append filter_append)
  also have "\<dots> \<le> Suc (length (undelivered s))"
    using Some by (simp add: undelivered_def)
  finally show ?thesis .
qed

lemma announce_backlog:
  assumes "announce (Publish us) now xs (pub, t) = (pub', t')"
  shows "sm_group (tr_stream t') = sm_group (tr_stream t) \<and>
    length (undelivered (tr_stream t')) \<le> length (undelivered (tr_stream t)) + length xs \<and>
    (tr_faults t = [] \<longrightarrow> tr_faults t' = [])"
  using assms
proof (induction xs arbitrary: pub t)
  case (Cons x xs)
  obtain b t1 where pub: "Publish us x t = (b, t1)" by fastforce
  obtain trim where "tr_stream t1 \<in> {tr_stream t, snd (xadd trim [field \<mapsto> Text (us x)] (tr_stream t))}"
    using Publish_stream [of us x t] pub by (metis snd_conv)
  then have one: "sm_group (tr_stream t1) = sm_group (tr_stream t)"
      "length (undelivered (tr_stream t1)) \<le> Suc (length (undelivered (tr_stream t)))"
    using undelivered_xadd [of trim _ "tr_stream t"] by auto
  have faults: "tr_faults t1 = []" if "tr_faults t = []"
    using Publish_calm(2) [OF that, of us x] pub by simp
  show ?case
  proof (cases "pub x")
    case None
    then obtain pub1 where "announce (Publish us) now xs (pub1, t1) = (pub', t')"
      using Cons.prems pub by (cases b) auto
    from Cons.IH [OF this] show ?thesis using one faults by auto
  next
    case (Some at)
    then show ?thesis using Cons.IH [of pub t] Cons.prems by auto
  qed
qed simp

lemma process_entries [simp]:
  "sm_entries (tr_stream (cn_transport (process p h left ms c))) = sm_entries (tr_stream (cn_transport c))"
  by (induction ms arbitrary: left c) (simp_all add: Let_def split: option.split)

lemma turn_entries [simp]:
  "sm_entries (tr_stream (cn_transport (consumer_turn p h tu c))) = sm_entries (tr_stream (cn_transport c))"
proof -
  let ?claim = "xautoclaim (tu_name tu) claimMinIdle (cn_cursor c) readCount (tu_now tu)"
  let ?read = "xreadgroup (tu_name tu) readCount (tu_now tu)"
  obtain r t1 where a: "run_xcmd ?claim (cn_transport c) = (r, t1)" by fastforce
  obtain r' t2 where b: "run_xcmd ?read t1 = (r', t2)" by fastforce
  have "sm_entries (tr_stream t1) = sm_entries (tr_stream (cn_transport c))"
    and "sm_entries (tr_stream t2) = sm_entries (tr_stream t1)"
    using run_xcmd_entries [OF a] run_xcmd_entries [OF b] by simp_all
  then show ?thesis by (simp add: consumer_turn_def a b Let_def split: sum.split)
qed

lemma turns_entries: "sm_entries (tr_stream (cn_transport (fold (consumer_turn p h) tus c))) = sm_entries (tr_stream (cn_transport c))"
  by (induction tus arbitrary: c) simp_all

lemma announced_gets_closed:
  assumes inv: "consumer_ok up cell_calm overdue is_settled c" and q: "tr_faults (cn_transport c) = []"
    and n: "GroupInfo True True (tr_stream (cn_transport c)) = Some (0, n)" "n \<le> length tus * readCount"
    and x: "announced us k x (cn_transport c)" "up (us x) = Some x" and tus: "list_all calm_turn tus"
  shows "closed_in x (cl_db (cn_world (fold (consumer_turn up close_handler) tus c)))"
proof -
  let ?c' = "fold (consumer_turn up close_handler) tus c"
  let ?s' = "tr_stream (cn_transport ?c')"
  have inv': "consumer_ok up cell_calm overdue is_settled ?c'" and info: "GroupInfo True True ?s' = Some (0, 0)"
    using closerd_calm.turns_drain [OF inv q n(1) tus] n(2) by simp_all
  obtain g where g: "sm_group ?s' = Some g" "xg_pending g = []" "undelivered ?s' = []"
    using info by (auto simp: GroupInfo_Some_iff)
  obtain e where e: "e \<in> set (sm_entries ?s')" "xe_values e = [field \<mapsto> Text (us x)]"
    using x(1) by (auto simp: announced_def undelivered_iff turns_entries)
  have s: "stream_ok up overdue is_settled ?s' (cn_world ?c')" using inv' by (simp add: consumer_ok_def)
  have "xe_id e \<le> xg_delivered g"
    using e(1) g by (auto simp: undelivered_def filter_empty_conv not_less)
  from stream_okD(4) [OF s g(1) e(1) this]
  have "is_settled x (cn_world ?c')"
    using g e(2) x(2) by (simp add: accounted_def ended_def pending_ids_def parse_def)
  then show ?thesis by (simp add: is_settled_def)
qed

text \<open>
  Claim C15. An overdue auction gets closed. From any reachable state with nothing pending, when
  the network answers and neither process is stopped: an auction the sweep finds and has not just
  announced is closed after enough turns of the worker to read the backlog plus one sweep, 64
  entries a turn.
\<close>
theorem overdue_auction_gets_closed:
  assumes "cell_ok w" and "closing_run us up (closing_start w t) (c, pub)" and "\<And>y. up (us y) = Some y"
    and "cell_calm (cn_world c)" and "tr_faults (cn_transport c) = []"
    and "GroupInfo True True (tr_stream (cn_transport c)) = Some (0, n)"
    and "sc_rows e" and "sc_dbnow e \<le> cl_clock (cn_world c)" and "prune (sc_now e) pub x = None"
    and "x \<in> set (expiredSQL (sc_dbnow e) (cl_db (cn_world c)))"
    and "scan EnsureGroup (Publish us) e (cl_db (cn_world c)) (pub, cn_transport c) = (b, pub', t')"
    and "list_all calm_turn tus" and "n + sweepLimit \<le> length tus * readCount"
  shows "closed_in x (cl_db (cn_world (fold (consumer_turn up close_handler) tus (c\<lparr>cn_transport := t'\<rparr>))))"
proof -
  let ?d = "cl_db (cn_world c)"
  have start: "closing_start w t = (fst (closing_start w t), Map.empty)" by (simp add: closing_start_def)
  have inv: "closing_inv up c"
    using closing_run_ok [of us up "fst (closing_start w t)" Map.empty "(c, pub)"] assms(2,3)
      closing_start_inv [OF assms(1), of up t] by (simp flip: start)
  have sane: "stream_sane (cn_transport c)" using inv stream_ok_sane by (auto simp: consumer_ok_def)
  have schema: "schema_ok ?d" using inv by (simp add: consumer_ok_def cell_ok_def db_inv_def)
  obtain t1 where ens: "EnsureGroup (cn_transport c) = (True, t1)" "tr_faults t1 = []"
    using EnsureGroup_calm [OF assms(5)] by (metis prod.collapse)
  obtain g where g: "sm_group (tr_stream (cn_transport c)) = Some g" "xg_pending g = []"
      "length (undelivered (tr_stream (cn_transport c))) = n"
    using assms(6) by (auto simp: GroupInfo_Some_iff)
  have t1: "tr_stream t1 = tr_stream (cn_transport c)"
    using ens(1) assms(5) g(1)
    by (auto simp: EnsureGroup_def run_xcmd_answered xgroup_create_def)
  have ann: "announce (Publish us) (sc_now e) (expiredSQL (sc_dbnow e) ?d) (prune (sc_now e) pub, t1) = (pub', t')"
    and b: b
    using assms(7,11) ens(1) by (simp_all add: scan_def)
  have backlog: "sm_group (tr_stream t') = Some g" "tr_faults t' = []"
      "length (undelivered (tr_stream t')) \<le> n + sweepLimit"
    using announce_backlog [OF ann] g(1,3) ens(2) length_expiredSQL [of "sc_dbnow e" ?d] by (simp_all add: t1)
  have "announced us sweepLimit x t'"
    using producer_calm.scan_announces [of "cn_transport c" ?d us e pub pub' t' x] sane assms(5,9,10,11) schema b
      Publish_calm(1) by (auto simp: prune_def)
  moreover have "consumer_ok up cell_calm overdue is_settled (c\<lparr>cn_transport := t'\<rparr>)"
    using scan_ok [OF inv assms(3,11,8)] assms(4) by (simp add: consumer_ok_def)
  ultimately show ?thesis
    using backlog g(2) assms(3,12,13)
    by (intro announced_gets_closed [where k = sweepLimit and us = us and n = "length (undelivered (tr_stream t'))"])
      (auto simp: GroupInfo_Some_iff)
qed

text \<open>On the sample cell, a sweep at 1500 and eight turns close the auction.\<close>

definition grouped_transport :: transport where
  "grouped_transport = fresh_transport\<lparr>tr_stream := empty_stream\<lparr>sm_group := Some \<lparr>xg_delivered = 0, xg_pending = []\<rparr>\<rparr>\<rparr>"

definition sample_consumer :: "cell consumer" where
  "sample_consumer = \<lparr>cn_transport = grouped_transport, cn_world = sample_cell sample_db 1500, cn_cursor = 0\<rparr>"

lemma sample_grouped:
  "closing_run unary from_unary (closing_start (sample_cell sample_db 1500) fresh_transport) (sample_consumer, Map.empty)"
proof -
  define c :: "cell consumer" where
    "c = \<lparr>cn_transport = fresh_transport, cn_world = sample_cell sample_db 1500, cn_cursor = 0\<rparr>"
  have start: "closing_start (sample_cell sample_db 1500) fresh_transport = (c, Map.empty)"
    by (simp add: closing_start_def c_def fresh_transport_def)
  have "EnsureGroup fresh_transport = (True, grouped_transport)"
    by (simp add: EnsureGroup_def run_xcmd_def xgroup_create_def fresh_transport_def grouped_transport_def empty_stream_def)
  then have scan: "scan EnsureGroup (Publish unary) (sample_scan\<lparr>sc_rows := False\<rparr>) (cl_db (cn_world c)) (Map.empty, cn_transport c)
      = (False, Map.empty, grouped_transport)"
    by (simp add: scan_def c_def)
  have "sample_consumer = c\<lparr>cn_transport := grouped_transport\<rparr>"
    by (simp add: sample_consumer_def c_def)
  then have "closing_step unary from_unary (c, Map.empty) (sample_consumer, Map.empty)"
    using closing_step.sweep [OF scan, of from_unary] by (simp add: sample_scan_def c_def sample_cell_def)
  then show ?thesis
    unfolding start by (blast intro: closing_run.intros)
qed

theorem overdue_auction_gets_closed_witness:
  "\<exists>t'. closed_in 1 (cl_db (cn_world (fold (consumer_turn from_unary close_handler) (replicate 8 plain_turn)
     (sample_consumer\<lparr>cn_transport := t'\<rparr>))))"
proof -
  have db: "cl_db (cn_world sample_consumer) = sample_db" "cl_clock (cn_world sample_consumer) = 1500"
    by (simp_all add: sample_consumer_def sample_cell_def sample_mat_def)
  obtain b pub' t' where run: "scan EnsureGroup (Publish unary) sample_scan sample_db (Map.empty, cn_transport sample_consumer) = (b, pub', t')"
    by (metis prod_cases3)
  have calm: "cell_calm (sample_cell sample_db 1500)" by (rule sample_cell_calm [OF sample_inv])
  have "closed_in 1 (cl_db (cn_world (fold (consumer_turn from_unary close_handler) (replicate 8 plain_turn)
     (sample_consumer\<lparr>cn_transport := t'\<rparr>))))"
  proof (rule overdue_auction_gets_closed [OF _ sample_grouped from_unary, where n = 0 and e = sample_scan and x = 1])
    show "cell_ok (sample_cell sample_db 1500)" using calm by (simp add: cell_calm_def)
    show "cell_calm (cn_world sample_consumer)" using calm by (simp add: sample_consumer_def)
    show "tr_faults (cn_transport sample_consumer) = []"
      and "GroupInfo True True (tr_stream (cn_transport sample_consumer)) = Some (0, 0)"
      by (simp_all add: sample_consumer_def grouped_transport_def fresh_transport_def empty_stream_def GroupInfo_def)
    show "sc_rows sample_scan" and "sc_dbnow sample_scan \<le> cl_clock (cn_world sample_consumer)"
      and "1 \<in> set (expiredSQL (sc_dbnow sample_scan) (cl_db (cn_world sample_consumer)))"
      using sample_expired by (simp_all add: sample_scan_def db)
    show "prune (sc_now sample_scan) Map.empty 1 = None" by (simp add: prune_def)
    show "scan EnsureGroup (Publish unary) sample_scan (cl_db (cn_world sample_consumer)) (Map.empty, cn_transport sample_consumer) = (b, pub', t')"
      using run by (simp add: db)
    show "list_all calm_turn (replicate 8 plain_turn)" and "0 + sweepLimit \<le> length (replicate 8 plain_turn) * readCount"
      by (simp_all add: list_all_iff calm_turn_def plain_turn_def sweepLimit_def readCount_def)
  qed
  then show ?thesis by blast
qed

end
