(* ===== verification/Go_Text.thy ===== *)
theory Go_Text
  imports Prelude Complex_Main "HOL-Library.Char_ord" "HOL-Library.List_Lexorder" "HOL-Library.Multiset"
begin

text \<open>
  The texts the two command line tools print: strings as their UTF-8 bytes, the verbs of
  \<^verbatim>\<open>fmt\<close> they use (\<^verbatim>\<open>%d\<close>, \<^verbatim>\<open>%02d\<close>, \<^verbatim>\<open>%q\<close>, \<^verbatim>\<open>%.nf\<close>), trimming, joining and padding in runes, the
  small helpers \<^verbatim>\<open>plural\<close>, \<^verbatim>\<open>percent\<close> and \<^verbatim>\<open>joinNonEmpty\<close>, and the order in which Go ranges over a map.

  A string of the library has characters of eight bits, so its order (\<^theory_text>\<open>List_Lexorder\<close> over
  \<^theory_text>\<open>Char_ord\<close>) is the bytewise one of \<^verbatim>\<open>sort.Strings\<close>. A number that is printed is a rational;
  the rounding of \<^verbatim>\<open>%.nf\<close> is to the nearest and on a tie to the even digit, and zero has no sign.
\<close>

section \<open>Bytes and runes\<close>

abbreviation (input) newline :: string where "newline \<equiv> [CHR 0x0A]"
abbreviation (input) dquote :: string where "dquote \<equiv> [CHR 0x22]"

text \<open>The letters that are not ASCII, the middle dot and the em dash.\<close>

abbreviation (input) A_acute :: string where "A_acute \<equiv> [CHR 0xC3, CHR 0x81]"
abbreviation (input) A_tilde :: string where "A_tilde \<equiv> [CHR 0xC3, CHR 0x83]"
abbreviation (input) a_acute :: string where "a_acute \<equiv> [CHR 0xC3, CHR 0xA1]"
abbreviation (input) a_tilde :: string where "a_tilde \<equiv> [CHR 0xC3, CHR 0xA3]"
abbreviation (input) a_circumflex :: string where "a_circumflex \<equiv> [CHR 0xC3, CHR 0xA2]"
abbreviation (input) c_cedilla :: string where "c_cedilla \<equiv> [CHR 0xC3, CHR 0xA7]"
abbreviation (input) e_acute :: string where "e_acute \<equiv> [CHR 0xC3, CHR 0xA9]"
abbreviation (input) e_circumflex :: string where "e_circumflex \<equiv> [CHR 0xC3, CHR 0xAA]"
abbreviation (input) o_acute :: string where "o_acute \<equiv> [CHR 0xC3, CHR 0xB3]"
abbreviation (input) o_tilde :: string where "o_tilde \<equiv> [CHR 0xC3, CHR 0xB5]"
abbreviation (input) u_acute :: string where "u_acute \<equiv> [CHR 0xC3, CHR 0xBA]"
abbreviation (input) A_grave :: string where "A_grave \<equiv> [CHR 0xC3, CHR 0x80]"
abbreviation (input) mid_dot :: string where "mid_dot \<equiv> [CHR 0xC2, CHR 0xB7]"
abbreviation (input) em_dash :: string where "em_dash \<equiv> [CHR 0xE2, CHR 0x80, CHR 0x94]"

text \<open>\<^verbatim>\<open>utf8.RuneCountInString\<close> of a valid UTF-8 string: the bytes that start a rune.\<close>

definition starts_rune :: "char \<Rightarrow> bool" where
  "starts_rune c \<longleftrightarrow> (let n = of_char c :: nat in n < 128 \<or> 192 \<le> n)"

definition rune_count :: "string \<Rightarrow> nat" where
  "rune_count s = length (filter starts_rune s)"

definition spaces :: "nat \<Rightarrow> string" where
  "spaces n = replicate n (CHR '' '')"

lemma starts_space [simp]: "starts_rune (CHR '' '')"
  by (simp add: starts_rune_def)

lemma rune_count_simps [simp]:
  "rune_count [] = 0" "rune_count (s @ t) = rune_count s + rune_count t" "rune_count (spaces n) = n"
  "rune_count (c # s) = (if starts_rune c then 1 else 0) + rune_count s"
  by (simp_all add: rune_count_def spaces_def)

text \<open>\<open>padLeft\<close>, \<open>padRight\<close> of the aggregator and \<open>pad\<close> of the checker, which adds a space to a string that is too wide.\<close>

definition padLeft :: "string \<Rightarrow> nat \<Rightarrow> string" where
  "padLeft s w = (let n = w - rune_count s in if 0 < n then spaces n @ s else s)"

definition padRight :: "string \<Rightarrow> nat \<Rightarrow> string" where
  "padRight s w = (let n = w - rune_count s in if 0 < n then s @ spaces n else s)"

definition pad :: "string \<Rightarrow> nat \<Rightarrow> string" where
  "pad s width = (let n = rune_count s in if n < width then s @ spaces (width - n) else s @ '' '')"

lemma runes_padded:
  "rune_count (padLeft s w) = max w (rune_count s)" "rune_count (padRight s w) = max w (rune_count s)"
  "rune_count (pad s w) = (if rune_count s < w then w else Suc (rune_count s))"
  by (simp_all add: padLeft_def padRight_def pad_def Let_def)

section \<open>Trimming and joining\<close>

text \<open>\<^verbatim>\<open>strings.TrimRight\<close> with a cutset of one character; \<^verbatim>\<open>strings.Join\<close>.\<close>

definition TrimRight :: "char \<Rightarrow> string \<Rightarrow> string" where
  "TrimRight c s = rev (dropWhile (\<lambda>x. x = c) (rev s))"

fun join :: "string \<Rightarrow> string list \<Rightarrow> string" where
  "join sep [] = []"
| "join sep [s] = s"
| "join sep (s # ss) = s @ sep @ join sep ss"

definition joinNonEmpty :: "string list \<Rightarrow> string \<Rightarrow> string" where
  "joinNonEmpty parts sep = join sep (filter (\<lambda>p. p \<noteq> []) parts)"

text \<open>\<^verbatim>\<open>strings.Split\<close> at a separator of one character.\<close>

fun split_at :: "char \<Rightarrow> string \<Rightarrow> string list" where
  "split_at c [] = [[]]"
| "split_at c (x # xs) =
     (if x = c then [] # split_at c xs
      else (case split_at c xs of [] \<Rightarrow> [[x]] | y # ys \<Rightarrow> (x # y) # ys))"

lemma TrimRight_snoc [simp]: "TrimRight c (s @ [x]) = (if x = c then TrimRight c s else s @ [x])"
  by (simp add: TrimRight_def)

lemma TrimRight_Nil [simp]: "TrimRight c [] = []"
  by (simp add: TrimRight_def)

lemma TrimRight_append: "TrimRight c (s @ t) = (if TrimRight c t = [] then TrimRight c s else s @ TrimRight c t)"
proof (induction t rule: rev_induct)
  case (snoc x t)
  then show ?case unfolding append_assoc [symmetric] TrimRight_snoc by simp
qed simp

lemma TrimRight_replicate [simp]: "TrimRight c (replicate n c) = []"
  by (simp add: TrimRight_def dropWhile_eq_Nil_conv)

lemma TrimRight_split: "\<exists>n. s = TrimRight c s @ replicate n c"
proof -
  have "takeWhile (\<lambda>x. x = c) (rev s) = replicate (length (takeWhile (\<lambda>x. x = c) (rev s))) c"
    by (rule replicate_eqI) (auto dest: set_takeWhileD)
  then have "s = TrimRight c s @ rev (replicate (length (takeWhile (\<lambda>x. x = c) (rev s))) c)"
    unfolding TrimRight_def by (metis takeWhile_dropWhile_id rev_append rev_rev_ident)
  then show ?thesis by (metis rev_replicate)
qed

lemma TrimRight_last: "TrimRight c s \<noteq> [] \<Longrightarrow> last (TrimRight c s) \<noteq> c"
  by (induction s rule: rev_induct) (auto split: if_splits)

lemma TrimRight_set: "set (TrimRight c s) \<subseteq> set s"
  by (induction s rule: rev_induct) auto

lemma split_at_append: "c \<notin> set s \<Longrightarrow> split_at c (s @ c # t) = s # split_at c t"
  by (induction s) auto

lemma join_set: "set (join sep ss) \<subseteq> set sep \<union> (\<Union>s \<in> set ss. set s)"
  by (induction sep ss rule: join.induct) auto

section \<open>Numbers\<close>

definition digit_char :: "nat \<Rightarrow> char" where
  "digit_char d = char_of (48 + d)"

definition int_text :: "int \<Rightarrow> string" where
  "int_text z = (if z < 0 then ''-'' else []) @ decimal (nat \<bar>z\<bar>)"

definition two_digits :: "nat \<Rightarrow> string" where
  "two_digits n = (if n < 10 then ''0'' else []) @ decimal n"

text \<open>The last \<open>p\<close> digits of a number.\<close>

fun last_digits :: "nat \<Rightarrow> nat \<Rightarrow> string" where
  "last_digits 0 n = []"
| "last_digits (Suc p) n = last_digits p (n div 10) @ [digit_char (n mod 10)]"

definition half_even :: "rat \<Rightarrow> int" where
  "half_even x =
     (let f = \<lfloor>x\<rfloor>; d = x - of_int f
      in if d < 1 / 2 then f else if 1 / 2 < d then f + 1 else if even f then f else f + 1)"

text \<open>The verb \<^verbatim>\<open>%.pf\<close>: the number in units of the last place, then its digits.\<close>

definition scaled :: "nat \<Rightarrow> rat \<Rightarrow> nat" where
  "scaled p v = nat (half_even (\<bar>v\<bar> * 10 ^ p))"

definition fixed :: "nat \<Rightarrow> rat \<Rightarrow> string" where
  "fixed p v =
     (let n = scaled p v
      in (if v < 0 then ''-'' else []) @ decimal (n div 10 ^ p) @ (if p = 0 then [] else ''.'' @ last_digits p n))"

text \<open>
  \<open>percent\<close> of both programs: \<^verbatim>\<open>%.pf\<close> of a hundred times the rate, without the zeros and the point at
  its end. The aggregator prints one place, the checker three.
\<close>

definition percent :: "nat \<Rightarrow> rat \<Rightarrow> string" where
  "percent p rate = TrimRight (CHR ''.'') (TrimRight (CHR ''0'') (fixed p (rate * 100))) @ ''%''"

definition plural :: "int \<Rightarrow> string \<Rightarrow> string \<Rightarrow> string" where
  "plural n one many = int_text n @ '' '' @ (if n = 1 then one else many)"

text \<open>
  The verb \<^verbatim>\<open>%q\<close>: quotes and backslashes escaped, control characters by their letter or in
  hexadecimal. Every rune outside ASCII is taken as printable.
\<close>

definition hex_digit :: "nat \<Rightarrow> char" where
  "hex_digit d = (if d < 10 then digit_char d else char_of (87 + d))"

definition quoted_char :: "char \<Rightarrow> string" where
  "quoted_char c =
     (let n = of_char c :: nat
      in if n = 34 \<or> n = 92 then [CHR 0x5C, c]
         else (case map_of [(7, CHR ''a''), (8, CHR ''b''), (9, CHR ''t''), (10, CHR ''n''), (11, CHR ''v''),
                            (12, CHR ''f''), (13, CHR ''r'')] n of
                 Some e \<Rightarrow> [CHR 0x5C, e]
               | None \<Rightarrow>
                   if n < 32 \<or> n = 127 then [CHR 0x5C, CHR ''x'', hex_digit (n div 16), hex_digit (n mod 16)] else [c]))"

definition quoted :: "string \<Rightarrow> string" where
  "quoted s = dquote @ concat (map quoted_char s) @ dquote"

subsection \<open>Reading the numbers back\<close>

definition digit_value :: "char \<Rightarrow> nat" where
  "digit_value c = of_char c - 48"

definition is_digit :: "char \<Rightarrow> bool" where
  "is_digit c \<longleftrightarrow> (let n = of_char c :: nat in 48 \<le> n \<and> n < 58)"

fun digits_value :: "nat \<Rightarrow> string \<Rightarrow> nat" where
  "digits_value acc [] = acc"
| "digits_value acc (c # cs) = digits_value (10 * acc + digit_value c) cs"

text \<open>The value of digits, with or without a point and more digits after it.\<close>

definition read_decimal :: "string \<Rightarrow> rat" where
  "read_decimal s =
     (let whole = takeWhile is_digit s; rest = tl (dropWhile is_digit s)
      in of_nat (digits_value 0 (whole @ rest)) / 10 ^ length rest)"

definition read_signed :: "string \<Rightarrow> rat" where
  "read_signed s = (case s of [] \<Rightarrow> 0 | c # cs \<Rightarrow> if c = CHR ''-'' then - read_decimal cs else read_decimal s)"

lemma digit_char_simps [simp]:
  assumes "d < 10"
  shows "digit_value (digit_char d) = d" "is_digit (digit_char d)" "starts_rune (digit_char d)"
    and "digit_char d = CHR ''0'' \<longleftrightarrow> d = 0"
proof -
  have *: "of_char (digit_char d) = 48 + d" using assms by (simp add: digit_char_def)
  show "digit_value (digit_char d) = d" "is_digit (digit_char d)" "starts_rune (digit_char d)"
    using assms by (simp_all add: digit_value_def is_digit_def starts_rune_def * Let_def)
  have "digit_char d = CHR ''0'' \<longleftrightarrow> (of_char (digit_char d) :: nat) = of_char (CHR ''0'')"
    by (metis char_of_char)
  then show "digit_char d = CHR ''0'' \<longleftrightarrow> d = 0" by (simp add: *)
qed

lemma digits_value_append: "digits_value acc (s @ t) = digits_value (digits_value acc s) t"
  by (induction acc s rule: digits_value.induct) simp_all

lemma digits_value_zeros: "digits_value acc (replicate k (CHR ''0'')) = acc * 10 ^ k"
  by (induction k arbitrary: acc) (simp_all add: digit_value_def)

lemma decimal_digits: "\<forall>c \<in> set (decimal n). is_digit c" "decimal n \<noteq> []"
proof -
  have "(\<forall>c \<in> set (decimal n). is_digit c) \<and> decimal n \<noteq> []"
  proof (induction n rule: decimal.induct)
    case (1 n)
    then show ?case
      using digit_char_simps(2) [of "n mod 10"] digit_char_simps(2) [of n]
      by (auto simp: decimal.simps [of n] digit_char_def)
  qed
  then show "\<forall>c \<in> set (decimal n). is_digit c" "decimal n \<noteq> []" by blast+
qed

lemma decimal_value: "digits_value 0 (decimal n) = n"
proof (induction n rule: decimal.induct)
  case (1 n)
  then show ?case
    using digit_char_simps(1) [of "n mod 10"] digit_char_simps(1) [of n]
    by (auto simp: decimal.simps [of n] digits_value_append digit_char_def)
qed

lemma last_digits_props:
  "length (last_digits p n) = p" "\<forall>c \<in> set (last_digits p n). is_digit c"
  "digits_value acc (last_digits p n) = acc * 10 ^ p + n mod 10 ^ p"
proof (induction p arbitrary: n)
  case (Suc p)
  { case 1 show ?case using Suc by simp
  next
    case 2 show ?case using Suc by simp
  next
    case 3
    have "n mod 10 ^ Suc p = n mod 10 + 10 * (n div 10 mod 10 ^ p)"
      by (simp add: mod_mult2_eq)
    then show ?case using Suc(3) [of "n div 10"] by (simp add: digits_value_append algebra_simps)
  }
qed simp_all

lemma read_decimal_whole: "\<forall>c \<in> set s. is_digit c \<Longrightarrow> read_decimal s = of_nat (digits_value 0 s)"
  by (simp add: read_decimal_def takeWhile_eq_all_conv [THEN iffD2] dropWhile_eq_Nil_conv [THEN iffD2])

lemma read_decimal_point:
  assumes "\<forall>c \<in> set s. is_digit c"
  shows "read_decimal (s @ CHR ''.'' # t) = of_nat (digits_value 0 (s @ t)) / 10 ^ length t"
proof -
  have "\<not> is_digit (CHR ''.'')" by (simp add: is_digit_def)
  then show ?thesis using assms by (simp add: read_decimal_def takeWhile_append2 dropWhile_append2)
qed

lemma half_even_near: "\<bar>of_int (half_even x) - x\<bar> \<le> 1 / 2"
proof -
  define f where "f = (of_int \<lfloor>x\<rfloor> :: rat)"
  have "f \<le> x" "x < f + 1" using floor_correct [of x] by (simp_all add: f_def)
  then show ?thesis by (auto simp: half_even_def Let_def abs_le_iff f_def [symmetric])
qed

lemma half_even_nonneg: "0 \<le> x \<Longrightarrow> 0 \<le> half_even x"
  by (simp add: half_even_def Let_def)

lemma scaled_near: "\<bar>of_nat (scaled p v) / 10 ^ p - \<bar>v\<bar>\<bar> \<le> 1 / (2 * 10 ^ p)"
proof -
  define x where "x = \<bar>v\<bar> * 10 ^ p"
  have "(of_nat (scaled p v) :: rat) = of_int (half_even x)"
    using half_even_nonneg [of x] by (simp add: scaled_def x_def)
  then have "\<bar>of_nat (scaled p v) - x\<bar> \<le> 1 / 2" using half_even_near [of x] by simp
  then have "\<bar>of_nat (scaled p v) - x\<bar> / 10 ^ p \<le> 1 / 2 / 10 ^ p" by (intro divide_right_mono) simp_all
  moreover have "of_nat (scaled p v) / 10 ^ p - \<bar>v\<bar> = (of_nat (scaled p v) - x) / 10 ^ p"
    by (simp add: x_def diff_divide_distrib)
  ultimately show ?thesis by (simp add: abs_divide)
qed

lemma digit_not: "is_digit c \<Longrightarrow> c \<noteq> CHR ''.'' \<and> c \<noteq> CHR ''-''"
  by (auto simp: is_digit_def Let_def)

text \<open>What is left of \<^verbatim>\<open>%.pf\<close> after trimming: the whole part, and the other digits after a point when there are any.\<close>

lemma trimmed_fixed:
  assumes "0 < p"
  shows "\<exists>t k. last_digits p (scaled p v) = t @ replicate k (CHR ''0'') \<and>
     TrimRight (CHR ''.'') (TrimRight (CHR ''0'') (fixed p v)) =
       (if v < 0 then ''-'' else []) @ decimal (scaled p v div 10 ^ p) @ (if t = [] then [] else ''.'' @ t)"
proof -
  define t where "t = TrimRight (CHR ''0'') (last_digits p (scaled p v))"
  define x where "x = (if v < 0 then ''-'' else []) @ decimal (scaled p v div 10 ^ p)"
  obtain k where k: "last_digits p (scaled p v) = t @ replicate k (CHR ''0'')"
    using TrimRight_split unfolding t_def by blast
  have f: "fixed p v = (x @ ''.'') @ last_digits p (scaled p v)"
    using assms by (simp add: fixed_def Let_def x_def)
  have last_x: "TrimRight (CHR ''.'') x = x"
  proof -
    obtain ys y where y: "decimal (scaled p v div 10 ^ p) = ys @ [y]"
      using decimal_digits(2) [of "scaled p v div 10 ^ p"] by (metis append_butlast_last_id)
    then have "y \<noteq> CHR ''.''" using decimal_digits(1) [of "scaled p v div 10 ^ p"] digit_not [of y] by simp
    then show ?thesis unfolding x_def y append_assoc [symmetric] TrimRight_snoc by simp
  qed
  have zeros: "TrimRight (CHR ''0'') (fixed p v) = (x @ ''.'') @ t"
    unfolding f by (subst TrimRight_append, subst TrimRight_snoc) (simp add: t_def)
  have "TrimRight (CHR ''.'') ((x @ ''.'') @ t) = x @ (if t = [] then [] else ''.'' @ t)"
  proof (cases "t = []")
    case False
    then obtain ys y where y: "t = ys @ [y]" by (metis append_butlast_last_id)
    have "set t \<subseteq> set (last_digits p (scaled p v))" unfolding t_def by (rule TrimRight_set)
    then have "is_digit y" using last_digits_props(2) [of p "scaled p v"] y by auto
    then show ?thesis unfolding y append_assoc [symmetric] TrimRight_snoc using digit_not by simp
  qed (simp add: last_x)
  then show ?thesis using k zeros unfolding x_def by auto
qed

text \<open>Trimming keeps the value: the printed percentage reads back as the number it was rounded to.\<close>

lemma percent_reads:
  assumes "0 < p"
  shows "read_signed (butlast (percent p r)) =
    (if r < 0 then - 1 else 1) * (of_nat (scaled p (r * 100)) / 10 ^ p)"
proof -
  define n where "n = scaled p (r * 100)"
  obtain t k where t: "last_digits p n = t @ replicate k (CHR ''0'')"
    and trimmed: "TrimRight (CHR ''.'') (TrimRight (CHR ''0'') (fixed p (r * 100))) =
      (if r * 100 < 0 then ''-'' else []) @ decimal (n div 10 ^ p) @ (if t = [] then [] else ''.'' @ t)"
    using trimmed_fixed [OF assms] unfolding n_def by blast
  define x where "x = decimal (n div 10 ^ p) @ (if t = [] then [] else ''.'' @ t)"
  have len: "p = length t + k" using last_digits_props(1) [of p n] t by simp
  have "digits_value (n div 10 ^ p) (last_digits p n) = n"
    unfolding last_digits_props(3) by (rule div_mult_mod_eq)
  then have "digits_value 0 (decimal (n div 10 ^ p) @ t) * 10 ^ k = n"
    by (simp add: t digits_value_append digits_value_zeros decimal_value)
  then have "(of_nat n :: rat) = of_nat (digits_value 0 (decimal (n div 10 ^ p) @ t)) * 10 ^ k"
    by (metis of_nat_mult of_nat_numeral of_nat_power)
  moreover have "read_decimal x = of_nat (digits_value 0 (decimal (n div 10 ^ p) @ t)) / 10 ^ length t"
    using decimal_digits(1) [of "n div 10 ^ p"] by (simp add: x_def read_decimal_whole read_decimal_point)
  ultimately have "read_decimal x = of_nat n / 10 ^ p" by (simp add: len power_add)
  moreover have "x \<noteq> [] \<and> hd x \<noteq> CHR ''-''"
    using decimal_digits [of "n div 10 ^ p"] digit_not by (cases "decimal (n div 10 ^ p)") (auto simp: x_def)
  moreover have "butlast (percent p r) = (if r < 0 then ''-'' else []) @ x"
    by (simp add: percent_def trimmed x_def mult_less_0_iff butlast_append)
  ultimately show ?thesis unfolding n_def [symmetric] by (cases x) (auto simp: read_signed_def)
qed

lemma percent_near:
  assumes "0 < p"
  shows "\<bar>read_signed (butlast (percent p r)) - 100 * r\<bar> \<le> 1 / (2 * 10 ^ p)"
  using scaled_near [of p "r * 100"] unfolding percent_reads [OF assms]
  by (auto simp: abs_if mult_less_0_iff split: if_splits)

text \<open>The other two numbers read back: \<^verbatim>\<open>%d\<close> exactly, \<^verbatim>\<open>%.pf\<close> to half a unit of its last place.\<close>

lemma decimal_head: "decimal n \<noteq> [] \<and> hd (decimal n) \<noteq> CHR ''-'' \<and> is_digit (hd (decimal n))"
  using decimal_digits [of n] digit_not by (cases "decimal n") auto

lemma read_signed_sign:
  assumes "s \<noteq> []" and "hd s \<noteq> CHR ''-''"
  shows "read_signed ((if b then ''-'' else []) @ s) = (if b then - read_decimal s else read_decimal s)"
  using assms by (cases s) (auto simp: read_signed_def)

lemma int_reads: "read_signed (int_text z) = of_int z"
proof -
  have "read_decimal (decimal n) = of_nat n" for n
    using decimal_digits(1) [of n] by (simp add: read_decimal_whole decimal_value)
  then show ?thesis
    using decimal_head [of "nat \<bar>z\<bar>"] by (simp add: int_text_def read_signed_sign)
qed

lemma fixed_reads: "read_signed (fixed p v) = (if v < 0 then - 1 else 1) * (of_nat (scaled p v) / 10 ^ p)"
proof -
  define n where "n = scaled p v"
  define x where "x = decimal (n div 10 ^ p) @ (if p = 0 then [] else ''.'' @ last_digits p n)"
  have "digits_value (n div 10 ^ p) (last_digits p n) = n"
    unfolding last_digits_props(3) by (rule div_mult_mod_eq)
  then have "read_decimal x = of_nat n / 10 ^ p"
    using decimal_digits(1) [of "n div 10 ^ p"] last_digits_props(1) [of p n]
    by (simp add: x_def read_decimal_whole read_decimal_point digits_value_append decimal_value)
  moreover have "x \<noteq> []" "hd x \<noteq> CHR ''-''" using decimal_head [of "n div 10 ^ p"] by (simp_all add: x_def)
  moreover have "fixed p v = (if v < 0 then ''-'' else []) @ x" by (simp add: fixed_def n_def x_def Let_def)
  ultimately show ?thesis by (simp add: read_signed_sign n_def)
qed

lemma fixed_near: "\<bar>read_signed (fixed p v) - v\<bar> \<le> 1 / (2 * 10 ^ p)"
  using scaled_near [of p v] unfolding fixed_reads by (auto simp: abs_if split: if_splits)

lemma fixed_head: "fixed p v \<noteq> [] \<and> (is_digit (hd (fixed p v)) \<or> hd (fixed p v) = CHR ''-'')"
  using decimal_head [of "scaled p v div 10 ^ p"] by (simp add: fixed_def Let_def)

section \<open>Ranging over a map\<close>

text \<open>
  The order in which a \<^verbatim>\<open>range\<close> visits the keys of a map is the runtime's to choose, and may differ
  from one loop to the next: a list of draws picks the next key among those that are left. Every list
  of draws gives a permutation, and every permutation has its draws.
\<close>

type_synonym draws = "nat list"

fun range_map :: "draws \<Rightarrow> 'a list \<Rightarrow> 'a list" where
  "range_map [] ks = ks"
| "range_map (d # ds) [] = []"
| "range_map (d # ds) (k # ks) =
     (let i = d mod Suc (length ks)
      in (k # ks) ! i # range_map ds (take i (k # ks) @ drop (Suc i) (k # ks)))"

lemma mset_range_map [simp]: "mset (range_map ds ks) = mset ks"
proof (induction ds ks rule: range_map.induct)
  case (3 d ds k ks)
  define i where "i = d mod Suc (length ks)"
  have "i < length (k # ks)" by (simp add: i_def)
  then have "k # ks = take i (k # ks) @ (k # ks) ! i # drop (Suc i) (k # ks)" by (rule id_take_nth_drop)
  then have "mset (k # ks) = add_mset ((k # ks) ! i) (mset (take i (k # ks) @ drop (Suc i) (k # ks)))"
    by (metis mset_append mset.simps(2) union_mset_add_mset_right)
  with 3 [OF i_def] show ?case by (simp add: Let_def i_def)
qed simp_all

lemma set_range_map [simp]: "set (range_map ds ks) = set ks"
  by (metis mset_range_map set_mset_mset)

lemma range_map_reaches: "mset xs = mset ks \<Longrightarrow> \<exists>ds. range_map ds ks = xs"
proof (induction xs arbitrary: ks)
  case (Cons x xs)
  then have "x \<in> set ks" by (metis list.set_intros(1) set_mset_mset)
  then obtain i where i: "i < length ks" "ks ! i = x" by (auto simp: in_set_conv_nth)
  then have split: "ks = take i ks @ x # drop (Suc i) ks" using id_take_nth_drop [OF i(1)] by simp
  then have "mset xs = mset (take i ks @ drop (Suc i) ks)"
    using Cons.prems by (metis add_mset_add_mset_same_iff mset.simps(2) mset_append union_mset_add_mset_right)
  then obtain ds where ds: "range_map ds (take i ks @ drop (Suc i) ks) = xs" using Cons.IH by blast
  show ?case using i ds by (intro exI [of _ "i # ds"]) (cases ks; simp)
qed (auto intro: exI [of _ "[]"])

end
