(* ===== verification/Checker.thy ===== *)
theory Checker
  imports Shard_Journal Go_Text
begin

text \<open>
  The verifier \<^verbatim>\<open>cmd/checker\<close>: the artefacts of a cell (\<^verbatim>\<open>client.go\<close>, \<^verbatim>\<open>chaos.go\<close>), the six
  SQL invariants (\<^verbatim>\<open>invariants.go\<close>), the client-aware checks I5 and I6, and the verdict of the
  whole (\<^verbatim>\<open>main.go\<close>). The SQL invariants are proved to decide \<^const>\<open>db_inv\<close>, and the durability
  check to accept what the engines leave.

  A finding carries the text of its detail, except that an offender stays the row PostgreSQL
  formats; the report as text is in \<open>Checker_Report\<close>. Rows that a query's \<^verbatim>\<open>ORDER BY\<close> leaves tied
  stay in the order of the table. The error rate of I6 is compared as integers, which agrees with the
  \<^verbatim>\<open>float64\<close> comparison for fewer than \<open>2 ^ 52\<close> attempts.
\<close>

section \<open>Verdicts (main.go, chaos.go)\<close>

datatype verdict = VerdictOK | VerdictWarn | VerdictFail

fun rank :: "verdict \<Rightarrow> nat" where
  "rank VerdictOK = 0"
| "rank VerdictWarn = 1"
| "rank VerdictFail = 2"

lemma rank_inj: "rank a = rank b \<Longrightarrow> a = b"
  by (cases a; cases b) simp_all

text \<open>\<open>worse\<close> ranks the verdicts; ordered by their rank, it is the maximum.\<close>

definition worse :: "verdict \<Rightarrow> verdict \<Rightarrow> verdict" where
  "worse a b = (if rank a < rank b then b else a)"

instantiation verdict :: linorder
begin

definition less_eq_verdict :: "verdict \<Rightarrow> verdict \<Rightarrow> bool" where
  "less_eq_verdict a b \<longleftrightarrow> rank a \<le> rank b"

definition less_verdict :: "verdict \<Rightarrow> verdict \<Rightarrow> bool" where
  "less_verdict a b \<longleftrightarrow> rank a < rank b"

instance
  by standard (auto simp: less_eq_verdict_def less_verdict_def dest: rank_inj)

end

lemma worse_max: "worse a b = max a b"
  by (cases a; cases b) (simp_all add: worse_def max_def less_eq_verdict_def)

lemma worse_simps [simp]:
  "worse a VerdictOK = a" "worse VerdictOK b = b" "worse a VerdictFail = VerdictFail" "worse VerdictFail b = VerdictFail"
  "worse VerdictWarn VerdictWarn = VerdictWarn"
  by (cases a; cases b; simp add: worse_def)+

section \<open>The artefacts (client.go, chaos.go)\<close>

text \<open>Reading a file: it is absent or unreadable, or does not decode, or decodes to a struct.\<close>

datatype 'a artefact = Unreadable | Undecodable | Decoded 'a

record client_report =
  cr_accepted :: "i64 option"
  cr_conflict :: "i64 option"
  cr_outbid :: "i64 option"
  cr_closed :: "i64 option"
  cr_invalid :: "i64 option"
  cr_error :: "i64 option"
  cr_exhausted :: "i64 option"
  cr_attempts :: "i64 option"
  cr_maxSeqSeen :: "i64 option"
  cr_replayed :: "i64 option"
  cr_inFlight :: "i64 option"
  cr_duplicatesSelected :: "i64 option"
  cr_duplicatesInjected :: "i64 option"
  cr_transportRetries :: "i64 option"

definition required :: "client_report \<Rightarrow> (string \<times> i64 option) list" where
  "required c =
     [(''accepted'', cr_accepted c), (''conflict'', cr_conflict c), (''outbid'', cr_outbid c),
      (''closed'', cr_closed c), (''invalid'', cr_invalid c), (''error'', cr_error c),
      (''exhausted'', cr_exhausted c), (''attempts'', cr_attempts c), (''maxSeqSeen'', cr_maxSeqSeen c),
      (''replayed'', cr_replayed c), (''inFlight'', cr_inFlight c),
      (''duplicatesSelected'', cr_duplicatesSelected c), (''duplicatesInjected'', cr_duplicatesInjected c),
      (''transportRetries'', cr_transportRetries c)]"

text \<open>\<open>ev_generator\<close> is the block with the peak in percent and the flag, each possibly absent.\<close>

record env_report =
  ev_generator :: "(rat option \<times> bool option) option"
  ev_interrupted :: "bool option option"

definition interrupted :: "env_report \<Rightarrow> bool" where
  "interrupted e \<longleftrightarrow> ev_interrupted e = Some (Some True)"

record chaos_report =
  ch_scenario :: string
  ch_target :: string
  ch_strategy :: string
  ch_landed :: bool
  ch_steps :: "(string \<times> string \<times> string) list"

datatype read_error = ReadFailed | DecodeFailed | Missing "string list"

definition read_file :: "'a artefact \<Rightarrow> read_error + 'a" where
  "read_file f = (case f of Unreadable \<Rightarrow> Inl ReadFailed | Undecodable \<Rightarrow> Inl DecodeFailed | Decoded a \<Rightarrow> Inr a)"

definition readClient :: "client_report artefact \<Rightarrow> read_error + client_report" where
  "readClient f =
     (case read_file f of
        Inl e \<Rightarrow> Inl e
      | Inr c \<Rightarrow>
          (let missing = sort (map fst (filter (\<lambda>(name, v). v = None) (required c)))
           in if missing \<noteq> [] then Inl (Missing missing) else Inr c))"

definition readEnv :: "env_report artefact \<Rightarrow> read_error + env_report" where
  "readEnv f =
     (case read_file f of
        Inl e \<Rightarrow> Inl e
      | Inr e \<Rightarrow>
          (case ev_generator e of
             Some (Some cpu, Some saturated) \<Rightarrow> Inr e
           | _ \<Rightarrow> Inl (Missing [''generator.cpuPctPeak or generator.saturated''])))"

text \<open>\<^verbatim>\<open>os.Stat\<close> tells an absent chaos file (\<open>None\<close>) from one it could not read.\<close>

definition readChaos :: "chaos_report artefact option \<Rightarrow> read_error + chaos_report option" where
  "readChaos f =
     (case f of
        None \<Rightarrow> Inr None
      | Some g \<Rightarrow>
          (case read_file g of
             Inl e \<Rightarrow> Inl e
           | Inr c \<Rightarrow> if ch_scenario c = [] then Inl (Missing [''scenario'']) else Inr (Some c)))"

section \<open>The SQL invariants (invariants.go)\<close>

record cell_totals =
  ct_auctions :: int
  ct_bids :: int
  ct_maxSeq :: int
  ct_keyed :: int
  ct_distinct :: int
  ct_closed :: int

definition seqs :: "bid_row list \<Rightarrow> int list" where
  "seqs bs = map (\<lambda>b. sint (b_seq b)) bs"

definition totalsSQL :: "db \<Rightarrow> cell_totals" where
  "totalsSQL d =
     \<lparr>ct_auctions = int (length (remdups (map b_auction (db_bids d)))),
      ct_bids = int (length (db_bids d)),
      ct_maxSeq = (if db_bids d = [] then 0 else Max (set (seqs (db_bids d)))),
      ct_keyed = int (length (keys_of (db_bids d))),
      ct_distinct = int (length (remdups (keys_of (db_bids d)))),
      ct_closed = int (length (filter (\<lambda>a. a_status a = ColClosed) (db_auctions d)))\<rparr>"

text \<open>
  An offender is the row its query formats: I1 shows the auction, its count and its least and
  greatest \<^verbatim>\<open>seq\<close>; I2 the auction, the \<^verbatim>\<open>seq\<close>, the amount, the amount before it and the increment; I3 the
  auction with its version and count, its highest bid and the top of its history, its winner and the
  last bidder; I4 the bid, its time, the auction and its end; I7 three counts; I8 the two columns and
  the end.
\<close>

datatype offender =
    SeqHole uuid int int int
  | LowIncrement uuid i64 i64 i64 i64
  | Incoherent uuid i64 int i64 int "uuid option" "uuid option"
  | LateBid uuid time uuid time
  | KeyCounts int int int
  | BadClosing uuid auction_status "time option" time

text \<open>
  Each query: its offenders in the order of its \<^verbatim>\<open>ORDER BY\<close>, or the error it raises. \<open>LIMIT 5\<close>
  is in \<open>offenders\<close>. The lines of I1 are ordered as text, which is the order of the auctions' ids.
\<close>

definition by_id :: "db \<Rightarrow> auction_row list" where
  "by_id d = sort_key a_id (db_auctions d)"

lemma by_id_set [simp]: "set (by_id d) = set (db_auctions d)"
  by (simp add: by_id_def)

definition querySeq :: "db \<Rightarrow> sql_error + offender list" where
  "querySeq d =
     Inr (map (\<lambda>x. let s = seqs (bids_of d x) in SeqHole x (int (length s)) (Min (set s)) (Max (set s)))
       (filter (\<lambda>x. let s = seqs (bids_of d x) in int (length s) \<noteq> Max (set s) \<or> Min (set s) \<noteq> 1)
         (sort (remdups (map b_auction (db_bids d))))))"

text \<open>Consecutive bids of an auction in \<^verbatim>\<open>seq\<close> order; \<^verbatim>\<open>prev + min_increment_cents\<close> may raise.\<close>

definition by_seq :: "bid_row list \<Rightarrow> bid_row list" where
  "by_seq bs = sort_key (\<lambda>b. sint (b_seq b)) bs"

definition consecutive :: "'a list \<Rightarrow> ('a \<times> 'a) list" where
  "consecutive xs = zip xs (tl xs)"

definition queryIncrement :: "db \<Rightarrow> sql_error + offender list" where
  "queryIncrement d =
     (let steps = concat (map (\<lambda>a. map (\<lambda>(p, b). (a, p, b)) (consecutive (by_seq (bids_of d (a_id a))))) (by_id d))
      in if list_ex (\<lambda>(a, p, b). bigint_add (b_amount p) (a_min_inc a) = None) steps then Inl OutOfRange
         else Inr (List.map_filter (\<lambda>(a, p, b).
           if b_amount b <s b_amount p + a_min_inc a
           then Some (LowIncrement (a_id a) (b_seq b) (b_amount b) (b_amount p) (a_min_inc a)) else None) steps))"

definition top_of :: "bid_row list \<Rightarrow> int" where
  "top_of bs = Max (set (map (\<lambda>b. sint (b_amount b)) bs))"

definition incoherent_row :: "db \<Rightarrow> auction_row \<Rightarrow> offender" where
  "incoherent_row d a =
     (let bs = bids_of d (a_id a)
      in Incoherent (a_id a) (a_version a) (int (length bs)) (a_highest a) (if bs = [] then - 1 else top_of bs)
        (a_bidder a) (if bs = [] then None else Some (b_user (last (by_seq bs)))))"

definition queryWinner :: "db \<Rightarrow> sql_error + offender list" where
  "queryWinner d =
     Inr (map (incoherent_row d) (filter
       (\<lambda>a. let bs = bids_of d (a_id a) in
          sint (a_version a) \<noteq> int (length bs) \<or>
          (bs \<noteq> [] \<and>
             (sint (a_highest a) \<noteq> top_of bs \<or> a_bidder a \<noteq> Some (b_user (last (by_seq bs))))))
       (by_id d)))"

definition queryLate :: "db \<Rightarrow> sql_error + offender list" where
  "queryLate d =
     Inr (concat (map (\<lambda>b. map (\<lambda>a. LateBid (b_id b) (b_created_at b) (a_id a) (a_ends_at a))
       (filter (\<lambda>a. a_id a = b_auction b \<and> a_ends_at a < b_created_at b) (db_auctions d)))
       (sort_key b_created_at (db_bids d))))"

definition queryKeys :: "db \<Rightarrow> sql_error + offender list" where
  "queryKeys d =
     (let n = int (length (db_bids d)); k = int (length (keys_of (db_bids d)));
          u = int (length (remdups (keys_of (db_bids d))))
      in Inr (if n \<noteq> k \<or> n \<noteq> u then [KeyCounts n k u] else []))"

definition queryClosing :: "db \<Rightarrow> sql_error + offender list" where
  "queryClosing d =
     Inr (map (\<lambda>a. BadClosing (a_id a) (a_status a) (a_closed_at a) (a_ends_at a)) (filter
       (\<lambda>a. (a_status a = ColClosed) \<noteq> (a_closed_at a \<noteq> None) \<or>
          (case a_closed_at a of None \<Rightarrow> False | Some t \<Rightarrow> t < a_ends_at a))
       (by_id d)))"

datatype detail = Offenders "offender list" | Text string

record finding =
  f_id :: string
  f_name :: string
  f_verdict :: verdict
  f_detail :: detail

text \<open>The table of invariants: id, name, query, and the summary of a green line where there is one.\<close>

type_synonym sql_invariant =
  "string \<times> string \<times> (db \<Rightarrow> sql_error + offender list) \<times> (cell_totals \<Rightarrow> string) option"

definition summary_I1 :: "cell_totals \<Rightarrow> string" where
  "summary_I1 t = plural (ct_auctions t) (''leil'' @ a_tilde @ ''o'') (''leil'' @ o_tilde @ ''es'') @ '', '' @ plural (ct_bids t) ''lance'' ''lances''"

definition summary_I7 :: "cell_totals \<Rightarrow> string" where
  "summary_I7 t = ''linhas='' @ int_text (ct_bids t) @ '' com_chave='' @ int_text (ct_keyed t) @
     '' distintas='' @ int_text (ct_distinct t)"

definition summary_I8 :: "cell_totals \<Rightarrow> string" where
  "summary_I8 t = plural (ct_closed t) (''leil'' @ a_tilde @ ''o fechado'') (''leil'' @ o_tilde @ ''es fechados'')"

definition sqlInvariants :: "sql_invariant list" where
  "sqlInvariants =
     [(''I1'', ''sequ'' @ e_circumflex @ ''ncia densa por leil'' @ a_tilde @ ''o'', querySeq, Some summary_I1),
      (''I2'', ''incremento respeitado'', queryIncrement, None),
      (''I3'', ''vencedor e vers'' @ a_tilde @ ''o coerentes'', queryWinner, None),
      (''I4'', ''nenhum lance ap'' @ o_acute @ ''s o fechamento'', queryLate, None),
      (''I7'', ''chaves idempotentes presentes e '' @ u_acute @ ''nicas'', queryKeys, Some summary_I7),
      (''I8'', ''fechamento coerente'', queryClosing, Some summary_I8)]"

text \<open>\<open>down id\<close>: the database does not answer that query (\<^verbatim>\<open>totals\<close> for the first).\<close>

definition offenders :: "bool \<Rightarrow> (db \<Rightarrow> sql_error + offender list) \<Rightarrow> db \<Rightarrow> sql_error + offender list" where
  "offenders lost q d =
     (if lost then Inl ConnectionError else (case q d of Inl e \<Rightarrow> Inl e | Inr os \<Rightarrow> Inr (take 5 os)))"

definition sql_finding :: "cell_totals \<Rightarrow> sql_invariant \<Rightarrow> offender list \<Rightarrow> finding" where
  "sql_finding t si bad =
     (case si of (i, name, q, summary) \<Rightarrow>
        if bad \<noteq> [] then \<lparr>f_id = i, f_name = name, f_verdict = VerdictFail, f_detail = Offenders bad\<rparr>
        else \<lparr>f_id = i, f_name = name, f_verdict = VerdictOK,
               f_detail = Text (case summary of None \<Rightarrow> [] | Some f \<Rightarrow> f t)\<rparr>)"

text \<open>An error carries the prefix the code wraps it with.\<close>

fun sql_findings ::
  "(string \<Rightarrow> bool) \<Rightarrow> cell_totals \<Rightarrow> db \<Rightarrow> sql_invariant list \<Rightarrow> (string \<times> sql_error) + finding list" where
  "sql_findings down t d [] = Inr []"
| "sql_findings down t d ((i, name, q, summary) # invs) =
     (case offenders (down i) q d of
        Inl e \<Rightarrow> Inl (i, e)
      | Inr bad \<Rightarrow>
          (case sql_findings down t d invs of
             Inl e \<Rightarrow> Inl e
           | Inr fs \<Rightarrow> Inr (sql_finding t (i, name, q, summary) bad # fs)))"

definition checkSQL :: "(string \<Rightarrow> bool) \<Rightarrow> db \<Rightarrow> (string \<times> sql_error) + finding list \<times> cell_totals" where
  "checkSQL down d =
     (if down ''totals'' then Inl (''count the cell'', ConnectionError)
      else (case sql_findings down (totalsSQL d) d sqlInvariants of
              Inl e \<Rightarrow> Inl e
            | Inr fs \<Rightarrow> Inr (fs, totalsSQL d)))"

section \<open>The client-aware checks (client.go)\<close>

text \<open>
  The Go code dereferences the counters \<open>readClient\<close> found present; \<open>count\<close> of an absent one is
  never reached.
\<close>

definition count :: "i64 option \<Rightarrow> int" where
  "count v = (case v of None \<Rightarrow> 0 | Some n \<Rightarrow> sint n)"

definition aheadWhenCut :: "chaos_report option \<Rightarrow> env_report \<Rightarrow> verdict" where
  "aheadWhenCut chaos e = (if chaos \<noteq> None \<or> interrupted e then VerdictWarn else VerdictFail)"

definition becauseCut :: "chaos_report option \<Rightarrow> env_report \<Rightarrow> string" where
  "becauseCut chaos e =
     (if chaos = None \<and> interrupted e
      then '' '' @ mid_dot @ '' c'' @ e_acute @ ''lula interrompida: o commit ultrapassou a resposta que ningu'' @ e_acute @ ''m leu'' else [])"

definition both_counts :: "int \<Rightarrow> int \<Rightarrow> string" where
  "both_counts db client = ''db='' @ int_text db @ '' cliente='' @ int_text client"

definition checkDurability :: "cell_totals \<Rightarrow> client_report \<Rightarrow> env_report \<Rightarrow> chaos_report option \<Rightarrow> finding" where
  "checkDurability t c e chaos =
     (let accepted = count (cr_accepted c); maxSeq = count (cr_maxSeqSeen c);
          (v, detail) =
            (if ct_bids t < accepted
             then (VerdictFail, ''LANCE CONFIRMADO SUMIU: '' @ both_counts (ct_bids t) accepted)
             else if accepted < ct_bids t
             then (aheadWhenCut chaos e, ''BANCO '' @ A_grave @ '' FRENTE: '' @ both_counts (ct_bids t) accepted @ becauseCut chaos e)
             else (VerdictOK, both_counts (ct_bids t) accepted));
          watermark = '' '' @ mid_dot @ '' watermark divergente: '' @ both_counts (ct_maxSeq t) maxSeq;
          (v', detail') =
            (if ct_maxSeq t < maxSeq then (worse v VerdictFail, detail @ watermark)
             else if maxSeq < ct_maxSeq t then (worse v (aheadWhenCut chaos e), detail @ watermark)
             else (v, detail))
      in \<lparr>f_id = ''I5'', f_name = ''durabilidade db x cliente'', f_verdict = v', f_detail = Text detail'\<rparr>)"

definition counters :: "client_report \<Rightarrow> (string \<times> int) list" where
  "counters c =
     map (\<lambda>(name, v). (name, count v)) (filter (\<lambda>(name, v). name \<noteq> ''maxSeqSeen'') (required c))"

definition rate_high :: "int \<Rightarrow> int \<Rightarrow> bool" where
  "rate_high errs attempts \<longleftrightarrow> 0 < attempts \<and> attempts \<le> 100 * errs"

definition error_rate :: "int \<Rightarrow> int \<Rightarrow> rat" where
  "error_rate errs attempts = (if 0 < attempts then of_int errs / of_int attempts else 0)"

definition validity_fails :: "client_report \<Rightarrow> chaos_report option \<Rightarrow> string list" where
  "validity_fails c chaos =
     (let attempts = count (cr_attempts c); invalid = count (cr_invalid c); errs = count (cr_error c);
          replayed = count (cr_replayed c);
          selected = count (cr_duplicatesSelected c); injected = count (cr_duplicatesInjected c)
      in map (\<lambda>(name, v). name @ ''='' @ int_text v @ '': contador negativo'') (filter (\<lambda>(name, v). v < 0) (counters c)) @
         (if attempts = 0 then [''nenhuma tentativa registrada''] else []) @
         (if 0 < invalid then [''invalid='' @ int_text invalid @ '': k6 mal configurado''] else []) @
         (if selected = 0 then [''nenhuma duplicata selecionada''] else []) @
         (if injected = 0 then [''nenhuma duplicata injetada''] else []) @
         (if replayed = 0 then [''nenhum replay observado''] else []) @
         (if selected < injected
          then [''duplicatas injetadas='' @ int_text injected @ '' acima das selecionadas='' @ int_text selected] else []) @
         (if rate_high errs attempts \<and> chaos = None
          then [''erro='' @ percent 3 (error_rate errs attempts) @ '' acima de 1%: infra caindo''] else []) @
         (case chaos of
            Some ch \<Rightarrow> if \<not> ch_landed ch then [''caos '' @ ch_scenario ch @ '' n'' @ a_tilde @ ''o aterrissou: a c'' @ e_acute @ ''lula n'' @ a_tilde @ ''o prova nada''] else []
          | None \<Rightarrow> []))"

text \<open>\<open>cpu_peak\<close> of an absent block is never reached: \<open>readEnv\<close> found it.\<close>

definition cpu_peak :: "env_report \<Rightarrow> rat" where
  "cpu_peak e = (case ev_generator e of Some (Some cpu, _) \<Rightarrow> cpu | _ \<Rightarrow> 0)"

definition validity_warns :: "client_report \<Rightarrow> env_report \<Rightarrow> chaos_report option \<Rightarrow> string list" where
  "validity_warns c e chaos =
     (let errs = count (cr_error c); attempts = count (cr_attempts c); closed = count (cr_closed c)
      in (if count (cr_inFlight c) = 0 then [''in_flight=0: concorrente pode ter encontrado replay''] else []) @
         (case chaos of
            Some ch \<Rightarrow> if rate_high errs attempts
              then [''erro='' @ percent 3 (error_rate errs attempts) @ '': '' @ e_acute @ '' a inje'' @ c_cedilla @ a_tilde @ ''o de '' @ ch_scenario ch] else []
          | None \<Rightarrow> []) @
         (case ev_generator e of
            Some (_, Some True) \<Rightarrow> [''gerador='' @ fixed 0 (cpu_peak e) @ ''% do limite: a c'' @ e_acute @ ''lula pode ter medido o gerador'']
          | _ \<Rightarrow> []) @
         (if 0 < closed \<and> chaos = None then [''closed='' @ int_text closed @ '': ENDS_IN curto demais''] else []))"

definition evidence :: "client_report \<Rightarrow> chaos_report option \<Rightarrow> string" where
  "evidence c chaos =
     ''replayed='' @ int_text (count (cr_replayed c)) @ '' in_flight='' @ int_text (count (cr_inFlight c)) @
     '' selecionadas='' @ int_text (count (cr_duplicatesSelected c)) @
     '' injetadas='' @ int_text (count (cr_duplicatesInjected c)) @
     (case chaos of None \<Rightarrow> []
      | Some ch \<Rightarrow> '' '' @ mid_dot @ '' caos='' @ ch_scenario ch @ '' erro='' @
          percent 3 (error_rate (count (cr_error c)) (count (cr_attempts c))) @ '' closed='' @ int_text (count (cr_closed c)))"

definition checkCellValidity :: "client_report \<Rightarrow> env_report \<Rightarrow> chaos_report option \<Rightarrow> finding" where
  "checkCellValidity c e chaos =
     (let fails = validity_fails c chaos; warns = validity_warns c e chaos;
          (v, detail) =
            (if fails \<noteq> [] then (VerdictFail, join ('' '' @ mid_dot @ '' '') (fails @ warns @ [evidence c chaos]))
             else if warns \<noteq> [] then (VerdictWarn, join ('' '' @ mid_dot @ '' '') (warns @ [evidence c chaos]))
             else (VerdictOK, ''invalid=0 erro='' @ percent 3 (error_rate (count (cr_error c)) (count (cr_attempts c))) @
               '' gerador='' @ fixed 0 (cpu_peak e) @ ''% do limite '' @ mid_dot @ '' '' @ evidence c chaos))
      in \<lparr>f_id = ''I6'', f_name = ''c'' @ e_acute @ ''lula v'' @ a_acute @ ''lida'', f_verdict = v, f_detail = Text detail\<rparr>)"

section \<open>The whole (main.go)\<close>

record report =
  rp_run :: string
  rp_chaos :: "chaos_report option"
  rp_findings :: "finding list"
  rp_warnings :: nat
  rp_failures :: nat
  rp_exit :: nat

definition exitOK :: nat where "exitOK = 0"
definition exitViolated :: nat where "exitViolated = 1"
definition exitUnverifiable :: nat where "exitUnverifiable = 2"

definition summarize :: "string \<Rightarrow> finding list \<Rightarrow> report" where
  "summarize run fs =
     (let failures = length (filter (\<lambda>f. f_verdict f = VerdictFail) fs)
      in \<lparr>rp_run = run, rp_chaos = None, rp_findings = fs,
          rp_warnings = length (filter (\<lambda>f. f_verdict f = VerdictWarn) fs),
          rp_failures = failures,
          rp_exit = (if 0 < failures then exitViolated else exitOK)\<rparr>)"

record cell_dir =
  cd_client :: "client_report artefact"
  cd_env :: "env_report artefact"
  cd_chaos :: "chaos_report artefact option"

text \<open>The client-aware findings are put before I7, so that the report is in numeric order.\<close>

definition place_findings :: "finding list \<Rightarrow> finding list \<Rightarrow> finding list" where
  "place_findings aware fs = concat (map (\<lambda>f. if f_id f = ''I7'' then aware @ [f] else [f]) fs)"

text \<open>\<open>Inl\<close> is \<^verbatim>\<open>unverifiable\<close> with its error; the report of \<open>Inr\<close> carries the exit code.\<close>

datatype unverified = NoRun | BadFile string read_error | NoDatabase | QueryFailed string sql_error

definition verify :: "string \<Rightarrow> cell_dir \<Rightarrow> bool \<Rightarrow> (string \<Rightarrow> bool) \<Rightarrow> db \<Rightarrow> unverified + report" where
  "verify run dir opened_pool down d =
     (if run = [] then Inl NoRun
      else (case readClient (cd_client dir) of
              Inl e \<Rightarrow> Inl (BadFile ''client.json'' e)
            | Inr client \<Rightarrow>
          (case readEnv (cd_env dir) of
              Inl e \<Rightarrow> Inl (BadFile ''env.json'' e)
            | Inr env \<Rightarrow>
          (case readChaos (cd_chaos dir) of
              Inl e \<Rightarrow> Inl (BadFile ''chaos.json'' e)
            | Inr chaos \<Rightarrow>
          if \<not> opened_pool then Inl NoDatabase
          else (case checkSQL down d of
              Inl (i, e) \<Rightarrow> Inl (QueryFailed i e)
            | Inr (fs, totals) \<Rightarrow>
                Inr ((summarize run (place_findings
                  [checkDurability totals client env chaos, checkCellValidity client env chaos] fs))
                  \<lparr>rp_chaos := chaos\<rparr>))))))"

definition execute :: "string \<Rightarrow> cell_dir \<Rightarrow> bool \<Rightarrow> (string \<Rightarrow> bool) \<Rightarrow> db \<Rightarrow> nat" where
  "execute run dir opened_pool down d =
     (case verify run dir opened_pool down d of Inl _ \<Rightarrow> exitUnverifiable | Inr rep \<Rightarrow> rp_exit rep)"

section \<open>The SQL invariants decide the invariant of the ledger\<close>

definition seq_ordered :: "db \<Rightarrow> bool" where
  "seq_ordered d \<longleftrightarrow> (\<forall>x. sorted (seqs (bids_of d x)))"

lemma by_seq_ordered: "sorted (seqs bs) \<Longrightarrow> by_seq bs = bs"
  by (simp add: by_seq_def seqs_def sort_key_id_if_sorted)

lemma distinct_seqs:
  assumes "schema_ok d"
  shows "distinct (seqs (bids_of d x))"
proof -
  have "distinct (map (\<lambda>b. (b_auction b, b_seq b)) (db_bids d))"
    using assms by (simp add: schema_ok_def)
  then have "distinct (map (\<lambda>b. (b_auction b, b_seq b)) (bids_of d x))"
    unfolding bids_of_def by (rule distinct_map_filter)
  then show ?thesis
    by (auto simp: seqs_def distinct_map inj_on_def bids_of_def dest: i64_eqI)
qed

lemma sorted_map_int: "sorted (map int xs) = sorted xs"
  by (induction xs) auto

lemma dense_iff:
  assumes "sorted s" and "distinct s" and "s \<noteq> []"
  shows "int (length s) = Max (set s) \<and> Min (set s) = 1 \<longleftrightarrow> s = map int [1..<Suc (length s)]"
proof
  assume ext: "int (length s) = Max (set s) \<and> Min (set s) = 1"
  have "set s \<subseteq> {1..int (length s)}"
  proof
    fix y
    assume y: "y \<in> set s"
    have "Min (set s) \<le> y" and "y \<le> Max (set s)" using y by simp_all
    then show "y \<in> {1..int (length s)}" using ext by simp
  qed
  moreover have "card (set s) = length s" using assms(2) by (rule distinct_card)
  ultimately have "set s = {1..int (length s)}"
    by (intro card_subset_eq) simp_all
  also have "\<dots> = set (map int [1..<Suc (length s)])"
    by (metis atLeastAtMost_upt image_int_atLeastAtMost list.set_map of_nat_1)
  finally show "s = map int [1..<Suc (length s)]"
    using assms(1,2)
    by (intro sorted_distinct_set_unique) (simp_all add: distinct_map sorted_map_int del: upt_Suc)
next
  assume s: "s = map int [1..<Suc (length s)]"
  then have set: "set s = {1..int (length s)}"
    by (metis atLeastAtMost_upt image_int_atLeastAtMost list.set_map of_nat_1)
  have "1 \<le> int (length s)" using assms(3) by (cases s) simp_all
  then have "Max {1..int (length s)} = int (length s)" and "Min {1..int (length s)} = 1"
    by (auto intro!: Max_eqI Min_eqI)
  then show "int (length s) = Max (set s) \<and> Min (set s) = 1" by (simp add: set)
qed

definition dense :: "db \<Rightarrow> uuid \<Rightarrow> bool" where
  "dense d x \<longleftrightarrow> seqs (bids_of d x) = map int [1..<Suc (length (bids_of d x))]"

lemma bids_of_Nil_iff: "bids_of d x = [] \<longleftrightarrow> x \<notin> b_auction ` set (db_bids d)"
  by (auto simp: bids_of_def filter_empty_conv)

definition extremes :: "db \<Rightarrow> uuid \<Rightarrow> bool" where
  "extremes d x \<longleftrightarrow> int (length (seqs (bids_of d x))) = Max (set (seqs (bids_of d x))) \<and>
     Min (set (seqs (bids_of d x))) = 1"

lemma extremes_dense:
  assumes "schema_ok d" and "seq_ordered d" and "bids_of d x \<noteq> []"
  shows "extremes d x \<longleftrightarrow> dense d x"
proof -
  have len: "length (seqs (bids_of d x)) = length (bids_of d x)" by (simp add: seqs_def)
  have sorted: "sorted (seqs (bids_of d x))" using assms(2) by (simp add: seq_ordered_def)
  have some: "seqs (bids_of d x) \<noteq> []" using assms(3) by (simp add: seqs_def)
  show ?thesis
    unfolding dense_def extremes_def
    using dense_iff [OF sorted distinct_seqs [OF assms(1)] some] by (simp only: len)
qed

lemma querySeq_extremes: "querySeq d = Inr [] \<longleftrightarrow> (\<forall>x \<in> b_auction ` set (db_bids d). extremes d x)"
  by (simp only: querySeq_def extremes_def Let_def sum.inject map_is_Nil_conv filter_empty_conv set_sort set_remdups set_map
      de_Morgan_disj not_not)

lemma querySeq_iff:
  assumes "schema_ok d" and "seq_ordered d"
  shows "querySeq d = Inr [] \<longleftrightarrow> (\<forall>x. dense d x)"
proof -
  have "dense d x" if "bids_of d x = []" for x
    using that by (simp add: dense_def seqs_def)
  then show ?thesis
    using extremes_dense [OF assms] unfolding querySeq_extremes bids_of_Nil_iff by blast
qed

lemma successively_consecutive: "successively P xs \<longleftrightarrow> (\<forall>(x, y) \<in> set (consecutive xs). P x y)"
  unfolding consecutive_def by (induction P xs rule: successively.induct) auto

definition climbs :: "db \<Rightarrow> auction_row \<Rightarrow> bool" where
  "climbs d a \<longleftrightarrow> successively (\<lambda>x y. sint (b_amount x) + sint (a_min_inc a) \<le> sint (b_amount y)) (bids_of d (a_id a))"

lemma queryIncrement_iff:
  assumes "seq_ordered d" and "queryIncrement d = Inr os"
  shows "os = [] \<longleftrightarrow> list_all (climbs d) (db_auctions d)"
proof -
  let ?pairs = "\<lambda>a. consecutive (bids_of d (a_id a))"
  have by_seq: "by_seq (bids_of d x) = bids_of d x" for x
    using assms(1) by (simp add: seq_ordered_def by_seq_ordered)
  have fits: "bigint_add (b_amount p) (a_min_inc a) \<noteq> None"
    if "a \<in> set (db_auctions d)" "(p, b) \<in> set (?pairs a)" for a p b
    using assms(2) that by (fastforce simp: queryIncrement_def by_seq Let_def list_ex_iff split: if_splits)
  have "b_amount b <s b_amount p + a_min_inc a \<longleftrightarrow> sint (b_amount b) < sint (b_amount p) + sint (a_min_inc a)"
    if mem: "a \<in> set (db_auctions d)" "(p, b) \<in> set (?pairs a)" for a p b
  proof -
    obtain c where "bigint_add (b_amount p) (a_min_inc a) = Some c"
      using fits [OF mem] by blast
    then show ?thesis by (metis bigint_add_sint bigint_add_word sless_iff_sint)
  qed
  then show ?thesis
    using assms(2)
    by (fastforce simp: queryIncrement_def by_seq Let_def climbs_def successively_consecutive list_all_iff
        List.map_filter_def filter_empty_conv not_less split: if_splits)
qed

lemma climbing_last_max:
  assumes "successively (\<lambda>x y. f x + inc \<le> (f y :: int)) bs" and "0 \<le> inc" and "bs \<noteq> []"
  shows "Max (set (map f bs)) = f (last bs)"
  using assms
proof (induction bs rule: rev_induct)
  case (snoc b bs)
  show ?case
  proof (cases "bs = []")
    case False
    then have "successively (\<lambda>x y. f x + inc \<le> f y) bs" and "f (last bs) + inc \<le> f b"
      using snoc.prems(1) by (simp_all add: successively_snoc)
    then have "Max (set (map f bs)) \<le> f b" using snoc False by simp
    then have "max (f b) (Max (set (map f bs))) = f b" by (rule max_absorb1)
    then show ?thesis using False by simp
  qed simp
qed simp

definition published :: "db \<Rightarrow> auction_row \<Rightarrow> bool" where
  "published d a \<longleftrightarrow> sint (a_version a) = int (length (bids_of d (a_id a))) \<and>
     (bids_of d (a_id a) \<noteq> [] \<longrightarrow>
        b_amount (last (bids_of d (a_id a))) = a_highest a \<and>
        a_bidder a = Some (b_user (last (bids_of d (a_id a)))))"

lemma queryWinner_iff:
  assumes "schema_ok d" and "seq_ordered d" and "list_all (climbs d) (db_auctions d)"
  shows "queryWinner d = Inr [] \<longleftrightarrow> list_all (published d) (db_auctions d)"
proof -
  have by_seq: "by_seq (bids_of d x) = bids_of d x" for x
    using assms(2) by (simp add: seq_ordered_def by_seq_ordered)
  have "Max (set (map (\<lambda>b. sint (b_amount b)) (bids_of d (a_id a)))) = sint (b_amount (last (bids_of d (a_id a))))"
    if a: "a \<in> set (db_auctions d)" and "bids_of d (a_id a) \<noteq> []" for a
  proof (rule climbing_last_max [OF _ _ that(2)])
    show "successively (\<lambda>x y. sint (b_amount x) + sint (a_min_inc a) \<le> sint (b_amount y)) (bids_of d (a_id a))"
      using assms(3) a by (simp add: list_all_iff climbs_def)
    show "0 \<le> sint (a_min_inc a)"
      using assms(1) a by (auto simp: schema_ok_def list_all_iff check_auction_def sless_iff_sint)
  qed
  then have "sint (a_highest a) = top_of (bids_of d (a_id a)) \<longleftrightarrow>
      b_amount (last (bids_of d (a_id a))) = a_highest a"
    if "a \<in> set (db_auctions d)" and "bids_of d (a_id a) \<noteq> []" for a
    using that by (auto simp: top_of_def dest: i64_eqI [OF sym])
  then show ?thesis
    unfolding queryWinner_def published_def
    by (simp add: Let_def filter_empty_conv list_all_iff by_seq) blast
qed

lemma queryLate_iff: "queryLate d = Inr [] \<longleftrightarrow> timely_ok d"
  by (fastforce simp: queryLate_def timely_ok_def list_all_iff concat_eq_Nil_conv filter_empty_conv not_less)

lemma queryClosing_iff: "queryClosing d = Inr [] \<longleftrightarrow> closing_ok d"
  by (fastforce simp: queryClosing_def closing_ok_def list_all_iff filter_empty_conv not_less split: option.splits)

lemma history_ok_iff:
  "history_ok d \<longleftrightarrow> list_all (\<lambda>a. dense d (a_id a) \<and> climbs d a \<and> published d a) (db_auctions d)"
  by (auto simp: history_ok_def list_all_iff auction_history_def dense_def climbs_def published_def seqs_def)

text \<open>A report is produced exactly when no query failed, and a line is green when its query is empty.\<close>

definition green :: "db \<Rightarrow> (db \<Rightarrow> sql_error + offender list) \<Rightarrow> bool" where
  "green d q \<longleftrightarrow> q d = Inr []"

lemma offenders_Nil: "offenders b q d = Inr [] \<longleftrightarrow> \<not> b \<and> green d q"
  by (auto simp: offenders_def green_def split: sum.split)

lemma sql_findings_verdicts:
  assumes "sql_findings down t d invs = Inr fs"
  shows "map f_id fs = map fst invs \<and> map f_name fs = map (fst \<circ> snd) invs \<and>
    map f_verdict fs = map (\<lambda>(i, n, q, s). if green d q then VerdictOK else VerdictFail) invs \<and>
    list_all (\<lambda>(i, n, q, s). \<exists>os. q d = Inr os) invs"
  using assms
proof (induction invs arbitrary: fs)
  case (Cons inv invs)
  obtain i n q s where inv: "inv = (i, n, q, s)" by (cases inv)
  obtain bad fs' where bad: "offenders (down i) q d = Inr bad" and fs': "sql_findings down t d invs = Inr fs'"
    using Cons.prems by (auto simp: inv split: sum.splits)
  have "bad = [] \<longleftrightarrow> green d q"
    using bad offenders_Nil [of "down i" q d] by (auto simp: offenders_def split: if_splits)
  moreover have "\<exists>os. q d = Inr os"
    using bad by (auto simp: offenders_def split: if_splits sum.splits)
  ultimately show ?case
    using Cons.IH [OF fs'] Cons.prems bad fs' by (auto simp: inv sql_finding_def)
qed simp

lemma checkSQL_verdicts:
  assumes "checkSQL down d = Inr (fs, t)"
  shows "t = totalsSQL d" and "map f_id fs = [''I1'', ''I2'', ''I3'', ''I4'', ''I7'', ''I8'']"
    and "map f_verdict fs = map (\<lambda>q. if green d q then VerdictOK else VerdictFail)
      [querySeq, queryIncrement, queryWinner, queryLate, queryKeys, queryClosing]"
    and "\<exists>os. queryIncrement d = Inr os"
proof -
  have run: "sql_findings down (totalsSQL d) d sqlInvariants = Inr fs" and t: "t = totalsSQL d"
    using assms by (auto simp: checkSQL_def split: if_splits sum.splits)
  note v = sql_findings_verdicts [OF run]
  show "t = totalsSQL d" by (rule t)
  show "map f_id fs = [''I1'', ''I2'', ''I3'', ''I4'', ''I7'', ''I8'']"
    and "map f_verdict fs = map (\<lambda>q. if green d q then VerdictOK else VerdictFail)
      [querySeq, queryIncrement, queryWinner, queryLate, queryKeys, queryClosing]"
    and "\<exists>os. queryIncrement d = Inr os"
    using v by (simp_all add: sqlInvariants_def)
qed

definition keys_complete :: "db \<Rightarrow> bool" where
  "keys_complete d \<longleftrightarrow> list_all (\<lambda>b. b_key b \<noteq> None) (db_bids d)"

lemma length_keys_of: "length (keys_of bs) \<le> length bs \<and> (length (keys_of bs) = length bs \<longleftrightarrow> list_all (\<lambda>b. b_key b \<noteq> None) bs)"
proof (induction bs)
  case (Cons b bs)
  then show ?case using keys_of_append [of "[b]" bs] by (cases "b_key b") auto
qed (simp add: keys_of_def List.map_filter_def)

lemma queryKeys_iff: "schema_ok d \<Longrightarrow> queryKeys d = Inr [] \<longleftrightarrow> keys_complete d"
  using length_keys_of [of "db_bids d"]
  by (auto simp: queryKeys_def Let_def keys_complete_def schema_ok_def distinct_remdups_id)

lemma ledger_queries_decide:
  assumes "schema_ok d" and "seq_ordered d" and "queryIncrement d = Inr os"
  shows "green d querySeq \<and> green d queryIncrement \<and> green d queryWinner \<and> green d queryLate \<and> green d queryClosing
    \<longleftrightarrow> db_inv d"
proof -
  have dense: "(\<forall>x. dense d x) \<longleftrightarrow> list_all (\<lambda>a. dense d (a_id a)) (db_auctions d)"
  proof
    assume *: "list_all (\<lambda>a. dense d (a_id a)) (db_auctions d)"
    show "\<forall>x. dense d x"
    proof
      fix x
      show "dense d x"
      proof (cases "bids_of d x = []")
        case True
        then show ?thesis by (simp add: dense_def seqs_def)
      next
        case False
        then obtain b where "b \<in> set (db_bids d)" "b_auction b = x" by (auto simp: bids_of_Nil_iff)
        then have "x \<in> a_id ` set (db_auctions d)"
          using assms(1) by (auto simp: schema_ok_def list_all_iff find_auction_None_iff)
        then show ?thesis using * by (auto simp: list_all_iff)
      qed
    qed
  qed (simp add: list_all_iff)
  show ?thesis
    unfolding green_def querySeq_iff [OF assms(1,2)] queryLate_iff queryClosing_iff assms(3) dense db_inv_def history_ok_iff
    using queryIncrement_iff [OF assms(2,3)] queryWinner_iff [OF assms(1,2)] assms(1)
    by (auto simp: list_all_iff)
qed

text \<open>
  Claim C23. The SQL invariants are the invariant. On any database the schema admits, with
  each auction's bids inserted in the order of their sequence, and whenever the checker gives a
  verdict at all: I1, I2, I3, I4 and I8 are all green exactly when the invariant of the ledger holds
  (dense replayable histories, coherent top and winner, no late bid, coherent closing), and I7 is
  green exactly when every bid has a key.
\<close>
theorem checker_decides_the_invariant:
  assumes "schema_ok d" and "seq_ordered d" and "checkSQL down d = Inr (fs, t)"
  shows "(list_all (\<lambda>f. f_id f \<noteq> ''I7'' \<longrightarrow> f_verdict f = VerdictOK) fs \<longleftrightarrow> db_inv d) \<and>
    (list_all (\<lambda>f. f_id f = ''I7'' \<longrightarrow> f_verdict f = VerdictOK) fs \<longleftrightarrow> keys_complete d)"
proof -
  note c = checkSQL_verdicts [OF assms(3)]
  obtain f1 f2 f3 f4 f7 f8 where fs: "fs = [f1, f2, f3, f4, f7, f8]"
    using c(2) by (auto simp: map_eq_Cons_conv)
  obtain os where os: "queryIncrement d = Inr os" using c(4) by blast
  have v: "f_verdict f1 = VerdictOK \<longleftrightarrow> green d querySeq" "f_verdict f2 = VerdictOK \<longleftrightarrow> green d queryIncrement"
    "f_verdict f3 = VerdictOK \<longleftrightarrow> green d queryWinner" "f_verdict f4 = VerdictOK \<longleftrightarrow> green d queryLate"
    "f_verdict f7 = VerdictOK \<longleftrightarrow> green d queryKeys" "f_verdict f8 = VerdictOK \<longleftrightarrow> green d queryClosing"
    using c(3) by (auto simp: fs)
  have ids: "f_id f1 = ''I1''" "f_id f2 = ''I2''" "f_id f3 = ''I3''" "f_id f4 = ''I4''" "f_id f7 = ''I7''" "f_id f8 = ''I8''"
    using c(2) by (simp_all add: fs)
  show ?thesis
    using ledger_queries_decide [OF assms(1,2) os] queryKeys_iff [OF assms(1)]
    by (simp add: fs ids v green_def)
qed

lemma db_inv_seq_ordered:
  assumes "db_inv d"
  shows "seq_ordered d"
proof -
  have "dense d x" if some: "bids_of d x \<noteq> []" for x
  proof -
    obtain b where "b \<in> set (bids_of d x)" using some by (cases "bids_of d x") auto
    then have "b \<in> set (db_bids d)" "b_auction b = x" by (auto simp: bids_of_def)
    then have "x \<in> a_id ` set (db_auctions d)"
      using assms by (auto simp: db_inv_def schema_ok_def list_all_iff find_auction_None_iff)
    then show ?thesis
      using assms by (auto simp: db_inv_def history_ok_iff list_all_iff)
  qed
  then have "sorted (seqs (bids_of d x))" for x
    by (cases "bids_of d x = []") (simp_all add: dense_def seqs_def sorted_map_int del: upt_Suc)
  then show ?thesis by (simp add: seq_ordered_def)
qed

theorem checker_decides_the_invariant_witness:
  "\<exists>fs t. checkSQL (\<lambda>_. False) one_bid_db = Inr (fs, t) \<and> length (db_bids one_bid_db) = 1 \<and>
     list_all (\<lambda>f. f_id f \<noteq> ''I7'' \<longrightarrow> f_verdict f = VerdictOK) fs"
proof -
  have "\<not> isl (checkSQL (\<lambda>_. False) one_bid_db)" and len: "length (db_bids one_bid_db) = 1" by code_simp+
  then obtain fs t where run: "checkSQL (\<lambda>_. False) one_bid_db = Inr (fs, t)"
    by (cases "checkSQL (\<lambda>_. False) one_bid_db") auto
  from checker_decides_the_invariant [OF _ _ run] one_bid_inv db_inv_seq_ordered [OF one_bid_inv]
  show ?thesis using run len by (simp add: db_inv_def)
qed

section \<open>Durability against the client\<close>

definition cut :: "chaos_report option \<Rightarrow> env_report \<Rightarrow> bool" where
  "cut chaos e \<longleftrightarrow> chaos \<noteq> None \<or> interrupted e"

lemma I5_verdict:
  "f_verdict (checkDurability t c e chaos) =
     (if ct_bids t < count (cr_accepted c) \<or> ct_maxSeq t < count (cr_maxSeqSeen c) then VerdictFail
      else if count (cr_accepted c) < ct_bids t \<or> count (cr_maxSeqSeen c) < ct_maxSeq t
      then (if cut chaos e then VerdictWarn else VerdictFail)
      else VerdictOK)"
  by (simp add: checkDurability_def Let_def aheadWhenCut_def cut_def)

text \<open>A client that counted what it was answered.\<close>

definition honest :: "client_report \<Rightarrow> response list \<Rightarrow> bool" where
  "honest c os \<longleftrightarrow> count (cr_accepted c) = int (accepted_count os) \<and>
     count (cr_maxSeqSeen c) = Max (insert 0 (set (map sint (told_seqs os))))"

definition durable_verdict :: "client_report \<Rightarrow> env_report \<Rightarrow> chaos_report option \<Rightarrow> db \<Rightarrow> verdict" where
  "durable_verdict c e chaos d = f_verdict (checkDurability (totalsSQL d) c e chaos)"

lemma totals_maxSeq:
  assumes "db_inv d"
  shows "ct_maxSeq (totalsSQL d) = Max (insert 0 (set (seqs (db_bids d))))"
proof -
  have "0 < s" if s: "s \<in> set (seqs (db_bids d))" for s
  proof -
    obtain b where b: "b \<in> set (db_bids d)" "s = sint (b_seq b)" using s by (auto simp: seqs_def)
    then have mem: "b \<in> set (bids_of d (b_auction b))" by (simp add: bids_of_def)
    have "b_auction b \<in> a_id ` set (db_auctions d)"
      using assms b(1) by (auto simp: db_inv_def schema_ok_def list_all_iff find_auction_None_iff)
    then have "dense d (b_auction b)"
      using assms by (auto simp: db_inv_def history_ok_iff list_all_iff)
    then have "s \<in> set (map int [1..<Suc (length (bids_of d (b_auction b)))])"
      using mem b(2) unfolding dense_def seqs_def by (metis image_eqI list.set_map)
    then show ?thesis by auto
  qed
  note pos = this
  show ?thesis
  proof (cases "db_bids d = []")
    case False
    then have "Max (set (seqs (db_bids d))) \<in> set (seqs (db_bids d))" by (intro Max_in) (simp_all add: seqs_def)
    then have "max 0 (Max (set (seqs (db_bids d)))) = Max (set (seqs (db_bids d)))" using pos by force
    then show ?thesis using False by (simp add: totalsSQL_def seqs_def)
  qed (simp add: totalsSQL_def seqs_def)
qed

context bid_engine
begin

lemma run_passes_durability:
  assumes ok: "ok s" and good: "good_run place good xs s" and h: "honest c (fst (run_requests place xs s))"
  shows "(cut chaos e \<longrightarrow> durable_verdict c e chaos (db_of (snd (run_requests place xs s))) \<noteq> VerdictFail) \<and>
    (db_bids (db_of s) = [] \<and> list_all (\<lambda>(e, r). world e = (\<lambda>d. d)) xs \<and>
       list_all (\<lambda>x. \<not> isl x) (fst (run_requests place xs s)) \<longrightarrow>
     durable_verdict c e chaos (db_of (snd (run_requests place xs s))) = VerdictOK)"
proof -
  let ?d = "db_of (snd (run_requests place xs s))"
  let ?os = "fst (run_requests place xs s)"
  define w where "w = Max (insert 0 (set (map sint (told_seqs ?os))))"
  have inv: "db_inv ?d" using run_ok [OF ok good] ok_inv by blast
  have bids: "int (accepted_count ?os) \<le> ct_bids (totalsSQL ?d)"
    using run_durable [OF ok good] by (simp add: totalsSQL_def)
  have "set (map sint (told_seqs ?os)) \<subseteq> set (seqs (db_bids ?d))"
    using run_seqs [OF ok good] by (auto simp: seqs_def)
  then have seqs: "w \<le> ct_maxSeq (totalsSQL ?d)"
    unfolding w_def totals_maxSeq [OF inv] by (intro Max_mono) auto
  have exact: "ct_bids (totalsSQL ?d) = int (accepted_count ?os) \<and>
      ct_maxSeq (totalsSQL ?d) = w"
    if quiet: "db_bids (db_of s) = []" "list_all (\<lambda>(e, r). world e = (\<lambda>d. d)) xs" "list_all (\<lambda>x. \<not> isl x) ?os"
  proof -
    have "map b_seq (db_bids ?d) = told_seqs ?os"
      using run_seqs_exact [OF ok good quiet(2,3)] quiet(1) by simp
    then have "seqs (db_bids ?d) = map sint (told_seqs ?os)"
      unfolding seqs_def by (metis (mono_tags, lifting) comp_apply list.map_comp map_eq_conv)
    then show ?thesis
      using run_exact [OF ok good quiet(2,3)] quiet(1) totals_maxSeq [OF inv] w_def by (simp add: totalsSQL_def)
  qed
  have c: "count (cr_accepted c) = int (accepted_count ?os)"
      "count (cr_maxSeqSeen c) = w"
    using h by (simp_all only: honest_def w_def)
  have "durable_verdict c e chaos ?d \<noteq> VerdictFail" if "cut chaos e"
    using bids seqs that unfolding durable_verdict_def I5_verdict c by simp
  moreover have "durable_verdict c e chaos ?d = VerdictOK"
    if "db_bids (db_of s) = []" "list_all (\<lambda>(e, r). world e = (\<lambda>d. d)) xs" "list_all (\<lambda>x. \<not> isl x) ?os"
    using exact [OF that] unfolding durable_verdict_def I5_verdict c by simp
  ultimately show ?thesis by blast
qed

end


definition sample_client :: client_report where
  "sample_client = \<lparr>cr_accepted = Some 1, cr_conflict = Some 0, cr_outbid = Some 0, cr_closed = Some 0,
     cr_invalid = Some 0, cr_error = Some 0, cr_exhausted = Some 0, cr_attempts = Some 3, cr_maxSeqSeen = Some 1,
     cr_replayed = Some 1, cr_inFlight = Some 1, cr_duplicatesSelected = Some 1, cr_duplicatesInjected = Some 1,
     cr_transportRetries = Some 0\<rparr>"

definition sample_env :: env_report where
  "sample_env = \<lparr>ev_generator = Some (Some 40, Some False), ev_interrupted = None\<rparr>"


section \<open>Cell validity and the exit code\<close>

lemma counters_negative:
  "(\<exists>(name, v) \<in> set (counters c). v < 0) \<longleftrightarrow>
   (\<exists>v \<in> {cr_accepted c, cr_conflict c, cr_outbid c, cr_closed c, cr_invalid c, cr_error c, cr_exhausted c,
      cr_attempts c, cr_replayed c, cr_inFlight c, cr_duplicatesSelected c, cr_duplicatesInjected c,
      cr_transportRetries c}. count v < 0)"
  by (simp add: counters_def required_def)

lemma validity_core:
  "f_verdict (checkCellValidity c e chaos) = VerdictFail \<longleftrightarrow>
     (\<exists>(name, v) \<in> set (counters c). v < 0) \<or> count (cr_attempts c) = 0 \<or> 0 < count (cr_invalid c) \<or>
     count (cr_duplicatesSelected c) = 0 \<or> count (cr_duplicatesInjected c) = 0 \<or> count (cr_replayed c) = 0 \<or>
     count (cr_duplicatesSelected c) < count (cr_duplicatesInjected c) \<or>
     (chaos = None \<and> rate_high (count (cr_error c)) (count (cr_attempts c))) \<or>
     (\<exists>ch. chaos = Some ch \<and> \<not> ch_landed ch)"
  by (cases chaos) (auto simp: checkCellValidity_def validity_fails_def Let_def filter_empty_conv)

text \<open>
  I6, and the two ways chaos turns it around. The cell fails exactly when a counter is
  negative, nothing was attempted, injected, selected or replayed, more duplicates were injected than
  selected, a request was malformed, the error rate reached one per cent without chaos, or a chaos
  was injected and did not land; with chaos the error rate alone is a warning.
\<close>
theorem cell_validity_verdict:
  "f_verdict (checkCellValidity c e chaos) = VerdictFail \<longleftrightarrow>
     (\<exists>(name, v) \<in> set (counters c). v < 0) \<or> count (cr_attempts c) = 0 \<or> 0 < count (cr_invalid c) \<or>
     count (cr_duplicatesSelected c) = 0 \<or> count (cr_duplicatesInjected c) = 0 \<or> count (cr_replayed c) = 0 \<or>
     count (cr_duplicatesSelected c) < count (cr_duplicatesInjected c) \<or>
     (chaos = None \<and> rate_high (count (cr_error c)) (count (cr_attempts c))) \<or>
     (\<exists>ch. chaos = Some ch \<and> \<not> ch_landed ch)"
  by (rule validity_core)

lemma ok_verdict: "(if b then VerdictOK else VerdictFail) = VerdictOK \<longleftrightarrow> b"
  by simp

lemma summarize_exit: "rp_exit (summarize run fs) = (if list_ex (\<lambda>f. f_verdict f = VerdictFail) fs then exitViolated else exitOK)"
  by (auto simp: summarize_def Let_def list_ex_iff filter_empty_conv)

lemma place_findings_fails:
  "list_ex (\<lambda>f. f_verdict f = VerdictFail) (place_findings aware fs) \<longleftrightarrow>
   list_ex (\<lambda>f. f_verdict f = VerdictFail) fs \<or> (list_ex (\<lambda>f. f_id f = ''I7'') fs \<and> list_ex (\<lambda>f. f_verdict f = VerdictFail) aware)"
  by (auto simp: place_findings_def list_ex_iff)

lemma execute_OK:
  assumes "execute run dir opened_pool down d = exitOK"
  obtains client env chaos fs t where "readClient (cd_client dir) = Inr client" "readEnv (cd_env dir) = Inr env"
    "readChaos (cd_chaos dir) = Inr chaos" "checkSQL down d = Inr (fs, t)"
    "\<not> list_ex (\<lambda>f. f_verdict f = VerdictFail)
      (place_findings [checkDurability t client env chaos, checkCellValidity client env chaos] fs)"
  using assms
  by (auto simp: execute_def verify_def summarize_exit exitOK_def exitUnverifiable_def exitViolated_def
      split: sum.splits if_splits prod.splits)

lemma exit_zero_core:
  assumes "schema_ok d" and "seq_ordered d" and "cd_client dir = Decoded client"
    and "execute run dir opened_pool down d = exitOK"
  shows "db_inv d \<and> keys_complete d \<and> count (cr_accepted client) \<le> int (length (db_bids d)) \<and>
    count (cr_maxSeqSeen client) \<le> Max (insert 0 (set (seqs (db_bids d)))) \<and> count (cr_attempts client) \<noteq> 0"
proof (rule execute_OK [OF assms(4)])
  fix cl env chaos fs t
  assume r: "readClient (cd_client dir) = Inr cl" "checkSQL down d = Inr (fs, t)"
    and nofail: "\<not> list_ex (\<lambda>f. f_verdict f = VerdictFail)
      (place_findings [checkDurability t cl env chaos, checkCellValidity cl env chaos] fs)"
  have cl: "cl = client"
    using r(1) assms(3) by (auto simp: readClient_def read_file_def Let_def split: if_splits)
  note v = checkSQL_verdicts [OF r(2)]
  have i7: "list_ex (\<lambda>f. f_id f = ''I7'') fs"
  proof -
    have "''I7'' \<in> set (map f_id fs)" unfolding v(2) by simp
    then show ?thesis by (auto simp: list_ex_iff)
  qed
  have green: "f_verdict f = VerdictOK" if "f \<in> set fs" for f
  proof -
    have "f_verdict f \<in> set (map f_verdict fs)" using that by simp
    then have "f_verdict f = VerdictOK \<or> f_verdict f = VerdictFail" unfolding v(3) by (auto split: if_splits)
    moreover have "\<not> list_ex (\<lambda>f. f_verdict f = VerdictFail) fs" using nofail by (simp add: place_findings_fails)
    ultimately show ?thesis using that by (auto simp: list_ex_iff)
  qed
  obtain os where os: "queryIncrement d = Inr os" using v(4) by blast
  have "set (map f_verdict fs) \<subseteq> {VerdictOK}" using green by auto
  then have all: "\<forall>q \<in> {querySeq, queryIncrement, queryWinner, queryLate, queryKeys, queryClosing}. green d q"
    unfolding v(3) by (simp add: ok_verdict)
  then have inv: "db_inv d" and keys: "keys_complete d"
    using ledger_queries_decide [OF assms(1,2) os] queryKeys_iff [OF assms(1)] by (auto simp: green_def)
  have "f_verdict (checkDurability t cl env chaos) \<noteq> VerdictFail" and valid: "f_verdict (checkCellValidity cl env chaos) \<noteq> VerdictFail"
    using nofail i7 by (simp_all add: place_findings_fails)
  then have "count (cr_accepted client) \<le> ct_bids t" "count (cr_maxSeqSeen client) \<le> ct_maxSeq t"
    unfolding I5_verdict cl by (simp_all split: if_splits)
  moreover have "count (cr_attempts client) \<noteq> 0" using valid by (auto simp: validity_core cl)
  ultimately show ?thesis using inv keys totals_maxSeq [OF inv] v(1) by (simp add: totalsSQL_def)
qed


definition keyed_command :: command where
  "keyed_command = (sample_command 7 100)\<lparr>cmd_req := (sample_request 0 100)\<lparr>req_key := ''k''\<rparr>\<rparr>"

definition keyed_bid_db :: db where
  "keyed_bid_db = ss_db (sh_run sample_commit [Arrive (sample_decide_env 9) keyed_command False] (fresh_shard sample_db))"

definition sample_cell :: cell_dir where
  "sample_cell = \<lparr>cd_client = Decoded sample_client, cd_env = Decoded sample_env, cd_chaos = None\<rparr>"

lemma keyed_bid_inv: "db_inv keyed_bid_db"
proof -
  have "sound sample_commit sample_db [] [Arrive (sample_decide_env 9) keyed_command False] (fresh_shard sample_db)"
    using sample_inv
    by (auto simp: sound_def fresh_shard_def settling_def coherent_def capped_def sample_db_def sample_row_def
        money_cap_def decide_ok_def keyed_command_def sample_command_def sample_decide_env_def sample_request_def
        intro: exI [of _ "[]"])
  from refines.run_keeps [OF this] show ?thesis by (simp add: sound_def keyed_bid_db_def)
qed


section \<open>A query that does not run\<close>

lemma sql_findings_lost:
  "list_ex (\<lambda>(i, n, q, s). \<exists>e. offenders (down i) q d = Inl e) invs \<Longrightarrow> \<exists>e. sql_findings down t d invs = Inl e"
  by (induction invs) (auto split: sum.splits)

lemma checkSQL_lost:
  assumes "list_ex down [''totals'', ''I1'', ''I2'', ''I3'', ''I4'', ''I7'', ''I8''] \<or> (\<exists>e. queryIncrement d = Inl e)"
  shows "\<exists>e. checkSQL down d = Inl e"
proof -
  have "down ''totals'' \<or> list_ex (\<lambda>(i, n, q, s). \<exists>e. offenders (down i) q d = Inl e) sqlInvariants"
    using assms by (auto simp: sqlInvariants_def offenders_def)
  then show ?thesis
    using sql_findings_lost [of down d sqlInvariants "totalsSQL d"] by (auto simp: checkSQL_def)
qed

text \<open>
  A query that does not run outranks every violation. If the database fails to answer
  any one of the seven queries, or I2's addition leaves \<open>bigint\<close>, the checker exits 2, whatever
  the queries before it have already found: the findings of \<open>checkSQL\<close> are dropped with the
  error, although the comment of \<open>summarize\<close> promises that a FAIL outranks a query that could not run.
\<close>
theorem lost_query_outranks_a_violation:
  assumes "list_ex down [''totals'', ''I1'', ''I2'', ''I3'', ''I4'', ''I7'', ''I8''] \<or> (\<exists>e. queryIncrement d = Inl e)"
  shows "execute run dir opened_pool down d = exitUnverifiable"
  using checkSQL_lost [OF assms] by (auto simp: execute_def verify_def exitUnverifiable_def split: sum.splits if_splits)

text \<open>A history with a hole: the only bid of the auction is numbered 2.\<close>

definition holed_db :: db where
  "holed_db = keyed_bid_db\<lparr>db_bids := map (\<lambda>b. b\<lparr>b_seq := 2\<rparr>) (db_bids keyed_bid_db)\<rparr>"

theorem lost_query_outranks_a_violation_witness:
  "execute ''r'' sample_cell True (\<lambda>i. i = ''I8'') holed_db = exitUnverifiable \<and>
   execute ''r'' sample_cell True (\<lambda>_. False) holed_db = exitViolated"
proof -
  have "execute ''r'' sample_cell True (\<lambda>_. False) holed_db = exitViolated" by code_simp
  moreover have "execute ''r'' sample_cell True (\<lambda>i. i = ''I8'') holed_db = exitUnverifiable"
    by (rule lost_query_outranks_a_violation) simp
  ultimately show ?thesis by blast
qed

end
