(* ===== verification/Checker_Report.thy ===== *)
theory Checker_Report
  imports Checker "HOL-Library.Sublist"
begin

text \<open>
  What \<^verbatim>\<open>cmd/checker\<close> prints and writes (\<^verbatim>\<open>main.go\<close>): the line of each finding, the line of an
  injected failure (\<^verbatim>\<open>chaos.go\<close>), the result, the message of a cell that could not be verified, and
  \<^verbatim>\<open>checker.json\<close>. Every element of the output is one printed line.

  Parameters: how PostgreSQL writes a uuid and a \<^verbatim>\<open>timestamptz\<close>, and the texts of the errors of the
  file system, of \<^verbatim>\<open>encoding/json\<close> and of the driver.
\<close>

section \<open>The lines (main.go, chaos.go, invariants.go)\<close>

record pg_text =
  pg_uuid :: "uuid \<Rightarrow> string"
  pg_time :: "time \<Rightarrow> string"

definition or_null :: "('a \<Rightarrow> string) \<Rightarrow> 'a option \<Rightarrow> string" where
  "or_null f v = (case v of None \<Rightarrow> ''null'' | Some x \<Rightarrow> f x)"

definition status_text :: "auction_status \<Rightarrow> string" where
  "status_text s = (case s of ColOpen \<Rightarrow> ''open'' | ColClosed \<Rightarrow> ''closed'')"

text \<open>The \<^verbatim>\<open>format\<close> of each query.\<close>

fun offender_text :: "pg_text \<Rightarrow> offender \<Rightarrow> string" where
  "offender_text pg (SeqHole x n lo hi) =
     ''leil'' @ a_tilde @ ''o '' @ pg_uuid pg x @ '': '' @ int_text n @ '' lances, seq de '' @ int_text lo @ '' a '' @ int_text hi"
| "offender_text pg (LowIncrement x s amount prev inc) =
     ''leil'' @ a_tilde @ ''o '' @ pg_uuid pg x @ '', seq '' @ int_text (sint s) @ '': '' @ int_text (sint amount) @ '' centavos ap'' @ o_acute @ ''s '' @
     int_text (sint prev) @ '', incremento '' @ int_text (sint inc)"
| "offender_text pg (Incoherent x version n highest topo bidder last_bidder) =
     ''leil'' @ a_tilde @ ''o '' @ pg_uuid pg x @ '': version '' @ int_text (sint version) @ '' x '' @ int_text n @ '' lances, topo '' @
     int_text (sint highest) @ '' x '' @ int_text topo @ '', vencedor '' @ or_null (pg_uuid pg) bidder @ '' x '' @
     or_null (pg_uuid pg) last_bidder"
| "offender_text pg (LateBid b written x ends_at) =
     ''lance '' @ pg_uuid pg b @ '' em '' @ pg_time pg written @ '', leil'' @ a_tilde @ ''o '' @ pg_uuid pg x @ '' fechava em '' @
     pg_time pg ends_at"
| "offender_text pg (KeyCounts n k u) =
     ''linhas='' @ int_text n @ '' com_chave='' @ int_text k @ '' distintas='' @ int_text u"
| "offender_text pg (BadClosing x status closed_at ends_at) =
     ''leil'' @ a_tilde @ ''o '' @ pg_uuid pg x @ '': status '' @ status_text status @ '', closed_at '' @ or_null (pg_time pg) closed_at @
     '', ends_at '' @ pg_time pg ends_at"

definition detail_text :: "pg_text \<Rightarrow> detail \<Rightarrow> string" where
  "detail_text pg d = (case d of Text s \<Rightarrow> s | Offenders os \<Rightarrow> join ('' '' @ mid_dot @ '' '') (map (offender_text pg) os))"

definition verdict_text :: "verdict \<Rightarrow> string" where
  "verdict_text v = (case v of VerdictOK \<Rightarrow> ''OK'' | VerdictWarn \<Rightarrow> ''WARN'' | VerdictFail \<Rightarrow> ''FAIL'')"

definition idWidth :: nat where "idWidth = 4"
definition nameWidth :: nat where "nameWidth = 32"
definition verdictWidth :: nat where "verdictWidth = 6"

definition finding_line :: "pg_text \<Rightarrow> finding \<Rightarrow> string" where
  "finding_line pg f =
     TrimRight (CHR '' '') (pad (f_id f) idWidth @ pad (f_name f) nameWidth @ pad (verdict_text (f_verdict f)) verdictWidth @
       detail_text pg (f_detail f))"

definition chaos_line :: "chaos_report \<Rightarrow> string" where
  "chaos_line ch =
     ''caos: '' @ ch_scenario ch @ '' '' @ mid_dot @ '' alvo '' @ ch_target ch @ '' '' @ mid_dot @ '' estrat'' @ e_acute @ ''gia '' @ ch_strategy ch @ '' '' @ mid_dot @ '' '' @
     plural (int (length (ch_steps ch))) ''passo'' ''passos'' @ '' '' @ mid_dot @ '' '' @
     (if ch_landed ch then ''aterrissou'' else ''N'' @ A_tilde @ ''O ATERRISSOU'')"

definition result_line :: "report \<Rightarrow> string" where
  "result_line rep =
     (if 0 < rp_failures rep
      then ''resultado: FALHA '' @ em_dash @ '' '' @ plural (int (rp_failures rep)) ''invariante violado'' ''invariantes violados''
      else if 0 < rp_warnings rep then ''resultado: OK com '' @ plural (int (rp_warnings rep)) ''aviso'' ''avisos''
      else ''resultado: OK'')"

definition render :: "pg_text \<Rightarrow> report \<Rightarrow> string list" where
  "render pg rep =
     (case rp_chaos rep of None \<Rightarrow> [] | Some ch \<Rightarrow> [chaos_line ch]) @ map (finding_line pg) (rp_findings rep) @
     [result_line rep]"

section \<open>What could not be verified (main.go, client.go, chaos.go)\<close>

record error_texts =
  et_read :: "string \<Rightarrow> string"
  et_decode :: "string \<Rightarrow> string"
  et_open :: string
  et_sql :: "string \<Rightarrow> sql_error \<Rightarrow> string"

fun unverified_text :: "error_texts \<Rightarrow> unverified \<Rightarrow> string" where
  "unverified_text et NoRun = ''-run is required''"
| "unverified_text et (BadFile file ReadFailed) = ''read '' @ file @ '': '' @ et_read et file"
| "unverified_text et (BadFile file DecodeFailed) = ''decode '' @ file @ '': '' @ et_decode et file"
| "unverified_text et (BadFile file (Missing names)) = file @ '' is missing '' @ join '', '' names"
| "unverified_text et NoDatabase = ''open database: '' @ et_open et"
| "unverified_text et (QueryFailed i e) = i @ '': '' @ et_sql et i e"

definition unverifiable :: "error_texts \<Rightarrow> unverified \<Rightarrow> string" where
  "unverifiable et u = ''resultado: N'' @ A_tilde @ ''O VERIFICADO '' @ em_dash @ '' '' @ unverified_text et u"

text \<open>
  \<^verbatim>\<open>execute\<close> with its output: the exit code, the lines, and the report written as \<^verbatim>\<open>checker.json\<close>.
  \<open>write\<close> is the error of \<open>writeJSON\<close>, which does not reach the exit code.
\<close>

definition execute_checker ::
  "pg_text \<Rightarrow> error_texts \<Rightarrow> string \<Rightarrow> cell_dir \<Rightarrow> bool \<Rightarrow> string option \<Rightarrow> bool \<Rightarrow> (string \<Rightarrow> bool) \<Rightarrow> db
   \<Rightarrow> nat \<times> string list \<times> report option" where
  "execute_checker pg et run dir asJSON write opened_pool down d =
     (case verify run dir opened_pool down d of
        Inl u \<Rightarrow> (exitUnverifiable, [unverifiable et u], None)
      | Inr rep \<Rightarrow>
          if asJSON
          then (case write of
                  Some e \<Rightarrow> (rp_exit rep, render pg rep @ [''checker: could not write the JSON report: '' @ e], None)
                | None \<Rightarrow> (rp_exit rep, render pg rep, Some rep))
          else (rp_exit rep, render pg rep, None))"

section \<open>The findings of a verified cell\<close>

definition report_ids :: "string list" where
  "report_ids = [''I1'', ''I2'', ''I3'', ''I4'', ''I5'', ''I6'', ''I7'', ''I8'']"

definition report_names :: "string list" where
  "report_names = [''sequ'' @ e_circumflex @ ''ncia densa por leil'' @ a_tilde @ ''o'', ''incremento respeitado'', ''vencedor e vers'' @ a_tilde @ ''o coerentes'',
     ''nenhum lance ap'' @ o_acute @ ''s o fechamento'', ''durabilidade db x cliente'', ''c'' @ e_acute @ ''lula v'' @ a_acute @ ''lida'',
     ''chaves idempotentes presentes e '' @ u_acute @ ''nicas'', ''fechamento coerente'']"

lemma verify_findings:
  assumes "verify run dir opened_pool down d = Inr rep"
  shows "map f_id (rp_findings rep) = report_ids" and "map f_name (rp_findings rep) = report_names"
    and "rp_exit rep = (if 0 < rp_failures rep then exitViolated else exitOK)"
proof -
  obtain client env chaos fs t where r: "checkSQL down d = Inr (fs, t)"
      "rep = (summarize run (place_findings [checkDurability t client env chaos, checkCellValidity client env chaos] fs))
        \<lparr>rp_chaos := chaos\<rparr>"
    using assms by (auto simp: verify_def split: sum.splits if_splits prod.splits)
  have "map f_name fs = map (fst \<circ> snd) sqlInvariants"
    using sql_findings_verdicts r(1) by (fastforce simp: checkSQL_def split: if_splits sum.splits)
  then have names: "map f_name fs = [report_names ! 0, report_names ! 1, report_names ! 2, report_names ! 3,
      report_names ! 6, report_names ! 7]"
    by (simp add: sqlInvariants_def report_names_def)
  note ids = checkSQL_verdicts(2) [OF r(1)]
  obtain f1 f2 f3 f4 f7 f8 where fs: "fs = [f1, f2, f3, f4, f7, f8]"
    using ids by (auto simp: map_eq_Cons_conv)
  have aware: "f_id (checkDurability t client env chaos) = ''I5''" "f_id (checkCellValidity client env chaos) = ''I6''"
    "f_name (checkDurability t client env chaos) = report_names ! 4"
    "f_name (checkCellValidity client env chaos) = report_names ! 5"
    by (simp_all add: checkDurability_def checkCellValidity_def Let_def case_prod_unfold report_names_def)
  show "map f_id (rp_findings rep) = report_ids"
    using ids by (simp add: r(2) summarize_def Let_def place_findings_def fs aware report_ids_def)
  show "map f_name (rp_findings rep) = report_names"
    using ids names by (simp add: r(2) summarize_def Let_def place_findings_def fs aware report_names_def)
  show "rp_exit rep = (if 0 < rp_failures rep then exitViolated else exitOK)"
    by (simp add: r(2) summarize_def Let_def)
qed

lemma TrimRight_stays: "s \<noteq> [] \<Longrightarrow> last s \<noteq> c \<Longrightarrow> TrimRight c (r @ s) = r @ s"
  by (cases s rule: rev_cases) (simp_all flip: append_assoc)

lemma verdict_text_last: "verdict_text v \<noteq> [] \<and> last (verdict_text v) \<noteq> CHR '' '' \<and> rune_count (verdict_text v) < verdictWidth"
  by (cases v) (simp_all add: verdict_text_def verdictWidth_def starts_rune_def)

lemma finding_line_shape:
  "finding_line pg f =
     (pad (f_id f) idWidth @ pad (f_name f) nameWidth) @ verdict_text (f_verdict f) @
     TrimRight (CHR '' '') (spaces (verdictWidth - rune_count (verdict_text (f_verdict f))) @ detail_text pg (f_detail f))"
proof -
  let ?a = "pad (f_id f) idWidth @ pad (f_name f) nameWidth" and ?v = "verdict_text (f_verdict f)"
  let ?r = "spaces (verdictWidth - rune_count ?v) @ detail_text pg (f_detail f)"
  have "finding_line pg f = TrimRight (CHR '' '') ((?a @ ?v) @ ?r)"
    using verdict_text_last [of "f_verdict f"] by (simp add: finding_line_def pad_def Let_def)
  also have "\<dots> = (?a @ ?v) @ TrimRight (CHR '' '') ?r"
    unfolding TrimRight_append [of _ "?a @ ?v"] using verdict_text_last [of "f_verdict f"] by (simp add: TrimRight_stays)
  finally show ?thesis by simp
qed

text \<open>The line of a finding, by its place in the report: its id, and the rune its verdict starts at.\<close>

definition verdict_column :: "pg_text \<Rightarrow> finding \<Rightarrow> nat \<Rightarrow> bool" where
  "verdict_column pg f n \<longleftrightarrow>
     (\<exists>before after. finding_line pg f = before @ verdict_text (f_verdict f) @ after \<and> rune_count before = n)"

lemma report_columns:
  assumes "map f_id fs = report_ids" and "map f_name fs = report_names"
  shows "map (take 2 \<circ> finding_line pg) fs = report_ids"
    and "list_all (\<lambda>f. verdict_column pg f (if f_id f = ''I7'' then 43 else 36)) fs"
proof -
  obtain f1 f2 f3 f4 f5 f6 f7 f8 where fs: "fs = [f1, f2, f3, f4, f5, f6, f7, f8]"
    using assms(1) by (auto simp: report_ids_def map_eq_Cons_conv)
  note ids = assms(1) [unfolded fs report_ids_def] and names = assms(2) [unfolded fs report_names_def]
  have two: "take 2 (finding_line pg f) = f_id f" if "f_id f \<in> set report_ids" for f
    using that by (auto simp: finding_line_shape report_ids_def pad_def Let_def idWidth_def spaces_def starts_rune_def)
  then show "map (take 2 \<circ> finding_line pg) fs = report_ids"
    using assms(1) by (metis (mono_tags, lifting) comp_apply image_eqI list.set_map map_eq_conv)
  have column: "verdict_column pg f (rune_count (pad (f_id f) idWidth) + rune_count (pad (f_name f) nameWidth))" for f
    unfolding verdict_column_def using finding_line_shape [of pg f] by (metis rune_count_simps(2))
  show "list_all (\<lambda>f. verdict_column pg f (if f_id f = ''I7'' then 43 else 36)) fs"
    using column [of f1] column [of f2] column [of f3] column [of f4] column [of f5] column [of f6] column [of f7]
      column [of f8] ids names
    by (simp add: fs runes_padded idWidth_def nameWidth_def starts_rune_def)
qed

lemma result_line_prefix:
  "prefix ''resultado: OK'' (result_line rep) \<longleftrightarrow> rp_failures rep = 0"
  "prefix ''resultado: FALHA'' (result_line rep) \<longleftrightarrow> 0 < rp_failures rep"
  "\<not> prefix (''resultado: N'' @ A_tilde @ ''O VERIFICADO'') (result_line rep)"
  by (simp_all add: result_line_def)

lemma unverifiable_prefix:
  "\<not> prefix ''resultado: OK'' (unverifiable et u)" "\<not> prefix ''resultado: FALHA'' (unverifiable et u)"
  "prefix (''resultado: N'' @ A_tilde @ ''O VERIFICADO'') (unverifiable et u)"
  by (simp_all add: unverifiable_def)

lemma report_core:
  assumes "execute_checker pg et run dir asJSON write opened_pool down d = (code, lines, json)"
  shows "code = execute run dir opened_pool down d"
    and "asJSON \<and> write \<noteq> None \<or>
      (code = exitOK \<longleftrightarrow> prefix ''resultado: OK'' (last lines)) \<and>
      (code = exitViolated \<longleftrightarrow> prefix ''resultado: FALHA'' (last lines)) \<and>
      (code = exitUnverifiable \<longleftrightarrow> prefix (''resultado: N'' @ A_tilde @ ''O VERIFICADO'') (last lines))"
    and "code = exitUnverifiable \<and> json = None \<or>
      (\<exists>rep chaos. verify run dir opened_pool down d = Inr rep \<and> json \<in> {None, Some rep} \<and> rp_exit rep = code \<and>
         chaos = (case rp_chaos rep of None \<Rightarrow> [] | Some ch \<Rightarrow> [chaos_line ch]) \<and>
         (\<exists>rest. lines = chaos @ map (finding_line pg) (rp_findings rep) @ result_line rep # rest) \<and>
         map (take 2 \<circ> finding_line pg) (rp_findings rep) = report_ids \<and>
         list_all (\<lambda>f. verdict_column pg f (if f_id f = ''I7'' then 43 else 36)) (rp_findings rep))"
proof -
  note codes = exitOK_def exitViolated_def exitUnverifiable_def
  show "code = execute run dir opened_pool down d"
    using assms by (auto simp: execute_checker_def execute_def split: sum.splits if_splits option.splits)
  show "asJSON \<and> write \<noteq> None \<or>
      (code = exitOK \<longleftrightarrow> prefix ''resultado: OK'' (last lines)) \<and>
      (code = exitViolated \<longleftrightarrow> prefix ''resultado: FALHA'' (last lines)) \<and>
      (code = exitUnverifiable \<longleftrightarrow> prefix (''resultado: N'' @ A_tilde @ ''O VERIFICADO'') (last lines))"
  proof (cases "verify run dir opened_pool down d")
    case (Inl u)
    then have "code = exitUnverifiable" "last lines = unverifiable et u" using assms by (auto simp: execute_checker_def)
    then show ?thesis using unverifiable_prefix [of et u] by (simp add: codes)
  next
    case (Inr rep)
    then have "asJSON \<and> write \<noteq> None \<or> code = rp_exit rep \<and> last lines = result_line rep"
      using assms by (auto simp: execute_checker_def render_def split: if_splits option.splits)
    then show ?thesis using result_line_prefix [of rep] verify_findings(3) [OF Inr] by (auto simp: codes)
  qed
  show "code = exitUnverifiable \<and> json = None \<or>
      (\<exists>rep chaos. verify run dir opened_pool down d = Inr rep \<and> json \<in> {None, Some rep} \<and> rp_exit rep = code \<and>
         chaos = (case rp_chaos rep of None \<Rightarrow> [] | Some ch \<Rightarrow> [chaos_line ch]) \<and>
         (\<exists>rest. lines = chaos @ map (finding_line pg) (rp_findings rep) @ result_line rep # rest) \<and>
         map (take 2 \<circ> finding_line pg) (rp_findings rep) = report_ids \<and>
         list_all (\<lambda>f. verdict_column pg f (if f_id f = ''I7'' then 43 else 36)) (rp_findings rep))"
  proof (cases "verify run dir opened_pool down d")
    case (Inr rep)
    have "(\<exists>rest. lines = render pg rep @ rest) \<and> json \<in> {None, Some rep} \<and> rp_exit rep = code"
      using assms Inr by (auto simp: execute_checker_def split: if_splits option.splits)
    then show ?thesis using Inr report_columns [OF verify_findings(1,2) [OF Inr], of pg] by (simp add: render_def)
  qed (use assms in \<open>auto simp: execute_checker_def\<close>)
qed


definition sample_pg :: pg_text where
  "sample_pg = \<lparr>pg_uuid = (\<lambda>x. ''u''), pg_time = (\<lambda>t. ''t'')\<rparr>"

definition sample_errors :: error_texts where
  "sample_errors = \<lparr>et_read = (\<lambda>f. ''e''), et_decode = (\<lambda>f. ''e''), et_open = ''e'', et_sql = (\<lambda>i e. ''e'')\<rparr>"


end
