(* ===== verification/Matrix.thy ===== *)
theory Matrix
  imports Checker "HOL-Library.Sublist"
begin

text \<open>
  The aggregator \<^verbatim>\<open>cmd/matrix\<close>: the plan of the cells, the nine refusals that a matrix of
  cells can earn (\<^verbatim>\<open>main.go\<close>), the rows, the control, the crossings and the publication
  (\<^verbatim>\<open>report.go\<close>).

  A \<^verbatim>\<open>float64\<close> is a rational: rounding of the operations is left out, so that a comparison
  exactly at a threshold may differ from the code's. Where the code may divide by zero the infinite
  quotient is kept. A refusal is a value, in the order of the checks; its text, and the sort the code
  makes of the texts, are in \<^theory_text>\<open>Publication\<close>. Two loops range over a map: their orders are a parameter.
\<close>

section \<open>The plan (main.go)\<close>

record planned =
  pl_order :: nat
  pl_name :: string
  pl_strategy :: string
  pl_auctions :: i64
  pl_scenario :: string
  pl_policy :: string

definition planFull :: string where "planFull = ''full''"
definition planSlice :: string where "planSlice = ''slice''"

definition cell_name :: "nat \<Rightarrow> string \<Rightarrow> i64 \<Rightarrow> string \<Rightarrow> string \<Rightarrow> string" where
  "cell_name n strategy auctions scenario policy =
     (if n < 10 then ''0'' else []) @ decimal n @ ''-'' @ strategy @ ''-a'' @ decimal (nat (sint auctions)) @
     ''-'' @ scenario @ ''-'' @ policy"

text \<open>The four nested loops, contention outermost, with the number of the cell.\<close>

definition grid :: "(nat \<times> i64 \<times> string \<times> string \<times> string) list" where
  "grid = enumerate 1 (concat (map (\<lambda>auctions. concat (map (\<lambda>scenario. concat (map (\<lambda>policy. map (\<lambda>strategy.
     (auctions, scenario, policy, strategy)) [''optimistic'', ''pessimistic'', ''shard''])
     [''immediate'', ''jitter''])) [''ramp'', ''last_second_spike''])) [1, 10, 1000]))"

definition control_cell :: planned where
  "control_cell = \<lparr>pl_order = 37, pl_name = ''37-control-optimistic-a1-ramp-immediate'',
     pl_strategy = ''optimistic'', pl_auctions = 1, pl_scenario = ''ramp'', pl_policy = ''immediate''\<rparr>"

definition plan :: "string \<Rightarrow> planned list" where
  "plan kind =
     map (\<lambda>(n, auctions, scenario, policy, strategy).
         \<lparr>pl_order = n, pl_name = cell_name n strategy auctions scenario policy,
          pl_strategy = strategy, pl_auctions = auctions, pl_scenario = scenario, pl_policy = policy\<rparr>)
       (filter (\<lambda>(n, auctions, scenario, policy, strategy).
         \<not> (kind = planSlice \<and> (scenario \<noteq> ''ramp'' \<or> policy \<noteq> ''immediate''))) grid) @
     [control_cell]"

definition peakVUs :: "string \<Rightarrow> nat option" where
  "peakVUs scenario =
     (if scenario = ''ramp'' then Some 500 else if scenario = ''last_second_spike'' then Some 1000 else None)"

lemma plan_full:
  "plan planFull = map (\<lambda>(n, auctions, scenario, policy, strategy).
         \<lparr>pl_order = n, pl_name = cell_name n strategy auctions scenario policy,
          pl_strategy = strategy, pl_auctions = auctions, pl_scenario = scenario, pl_policy = policy\<rparr>) grid @ [control_cell]"
  by (simp add: plan_def planFull_def planSlice_def case_prod_beta)

definition coordinates :: "planned \<Rightarrow> string \<times> i64 \<times> string \<times> string" where
  "coordinates w = (pl_strategy w, pl_auctions w, pl_scenario w, pl_policy w)"

text \<open>The number a name starts with.\<close>

definition name_number :: "string \<Rightarrow> nat" where
  "name_number s = 10 * (of_char (s ! 0) - 48) + (of_char (s ! 1) - 48)"

lemma plan_orders: "map pl_order (plan planFull) = [1..<38]"
  by (simp add: plan_full grid_def control_cell_def upt_rec)

lemma plan_names: "map (name_number \<circ> pl_name) (plan planFull) = [1..<38]"
  by (simp add: plan_full grid_def control_cell_def upt_rec name_number_def cell_name_def decimal.simps)


lemma plan_slice: "plan planSlice = filter (\<lambda>w. pl_scenario w = ''ramp'' \<and> pl_policy w = ''immediate'') (plan planFull)"
  unfolding plan_full by (simp add: plan_def planSlice_def filter_map comp_def case_prod_unfold control_cell_def)

lemma slice_orders: "map pl_order (plan planSlice) = [1, 2, 3, 13, 14, 15, 25, 26, 27, 37]"
  by (simp add: plan_def planSlice_def grid_def control_cell_def)

definition coordinate_code :: "string \<times> i64 \<times> string \<times> string \<Rightarrow> nat" where
  "coordinate_code = (\<lambda>(st, n, sc, po).
     (if st = ''optimistic'' then 0 else if st = ''pessimistic'' then 1 else 2) + (if po = ''immediate'' then 0 else 3) +
     (if sc = ''ramp'' then 0 else 6) + (if n = 1 then 0 else if n = 10 then 12 else 24))"

lemma grid_codes: "map (\<lambda>(n, a, sc, po, st). coordinate_code (st, a, sc, po)) grid = [0..<36]"
  by code_simp

lemma grid_all: "set (map snd grid) = {1, 10, 1000} \<times> {''ramp'', ''last_second_spike''} \<times> {''immediate'', ''jitter''} \<times> {''optimistic'', ''pessimistic'', ''shard''}"
  unfolding grid_def map_snd_enumerate by (auto simp del: map_map)

lemma distinct_map_comp: "distinct (map (f \<circ> g) xs) \<Longrightarrow> distinct (map g xs)"
  by (auto simp: distinct_map inj_on_def)

lemma plan_names_distinct: "distinct (map pl_name (plan planFull))"
  by (rule distinct_map_comp [of name_number]) (simp add: plan_names)

lemma plan_coordinates_distinct: "distinct (map coordinates (butlast (plan planFull)))"
proof (rule distinct_map_comp [of coordinate_code])
  have "map (coordinate_code \<circ> coordinates) (butlast (plan planFull)) = [0..<36]"
    using grid_codes by (simp add: plan_full coordinates_def case_prod_unfold comp_def)
  then show "distinct (map (coordinate_code \<circ> coordinates) (butlast (plan planFull)))" by simp
qed

lemma first_cell: "hd (plan planSlice) = hd (plan planFull) \<and> coordinates control_cell = coordinates (hd (plan planFull))"
  by (simp add: plan_def planSlice_def planFull_def grid_def control_cell_def coordinates_def)

lemma last_plan [simp]: "last (plan kind) = control_cell"
  by (simp add: plan_def)

lemma plan_all: "set (map coordinates (plan planFull)) =
     {''optimistic'', ''pessimistic'', ''shard''} \<times> {1, 10, 1000} \<times> {''ramp'', ''last_second_spike''} \<times> {''immediate'', ''jitter''}"
proof -
  have turn: "(\<lambda>(a, sc, po, st). (st, a, sc, po)) ` (A \<times> B \<times> C \<times> D) = D \<times> A \<times> B \<times> C"
    for A :: "i64 set" and B C D :: "string set"
    by force
  have "set (map coordinates (plan planFull)) =
      insert (coordinates control_cell) ((\<lambda>(a, sc, po, st). (st, a, sc, po)) ` set (map snd grid))"
    by (simp add: plan_full coordinates_def image_image case_prod_unfold)
  also have "\<dots> = (\<lambda>(a, sc, po, st). (st, a, sc, po)) ` set (map snd grid)"
    unfolding grid_all turn by (rule insert_absorb) (simp add: coordinates_def control_cell_def)
  finally show ?thesis unfolding grid_all turn .
qed

text \<open>
  The plan is the design of the experiment. The full plan numbers its cells from 1 to
  37 in order, with 37 distinct directory names, and its first 36 cells are 36 different
  coordinates, which with the control cover every combination of three contentions, two scenarios, two
  policies and three strategies; the slice is exactly the cells of the full plan at ramp and
  immediate, in the same order and with the same numbers and names; and either plan ends in the
  control, which repeats the coordinates of its first cell.
\<close>
theorem plan_is_the_design:
  "map pl_order (plan planFull) = [1..<38] \<and> distinct (map pl_name (plan planFull)) \<and>
   distinct (map coordinates (butlast (plan planFull))) \<and>
   set (map coordinates (plan planFull)) =
     {''optimistic'', ''pessimistic'', ''shard''} \<times> {1, 10, 1000} \<times> {''ramp'', ''last_second_spike''} \<times> {''immediate'', ''jitter''} \<and>
   plan planSlice = filter (\<lambda>w. pl_scenario w = ''ramp'' \<and> pl_policy w = ''immediate'') (plan planFull) \<and>
   map pl_order (plan planSlice) = [1, 2, 3, 13, 14, 15, 25, 26, 27, 37] \<and>
   hd (plan planSlice) = hd (plan planFull) \<and> coordinates (last (plan planFull)) = coordinates (hd (plan planFull))"
  using plan_orders plan_names_distinct plan_coordinates_distinct plan_all plan_slice slice_orders first_cell last_plan
  by metis

section \<open>The artefacts of a cell (main.go)\<close>

record git_report =
  gi_commit :: string
  gi_dirty :: "bool option"

record cell_report =
  ce_strategy :: string
  ce_auctions :: "i64 option"
  ce_policy :: string
  ce_scenario :: string
  ce_poolSize :: "i64 option"
  ce_interrupted :: "bool option"

text \<open>The raw blocks are byte strings; \<open>ej_saturated\<close> is the generator block and its flag.\<close>

record env_json =
  ej_git :: "git_report option"
  ej_cell :: "cell_report option"
  ej_host :: string
  ej_limits :: string
  ej_saturated :: "bool option option"

record client_json =
  cj_accepted :: "i64 option"
  cj_conflict :: "i64 option"
  cj_exhausted :: "i64 option"
  cj_attempts :: "i64 option"
  cj_durationMs :: "rat option"
  cj_p95 :: "rat option option"

record checker_json =
  kj_chaos :: string
  kj_warnings :: "i64 option"
  kj_failures :: "i64 option"
  kj_exit :: "i64 option"

record loaded =
  ld_env :: env_json
  ld_client :: client_json
  ld_checker :: checker_json

definition interrupted_cell :: "loaded \<Rightarrow> bool" where
  "interrupted_cell c \<longleftrightarrow> (\<exists>cell. ej_cell (ld_env c) = Some cell \<and> ce_interrupted cell = Some True)"

lemma interrupted_cell_code [code]:
  "interrupted_cell c \<longleftrightarrow> (case ej_cell (ld_env c) of None \<Rightarrow> False | Some cell \<Rightarrow> ce_interrupted cell = Some True)"
  by (simp add: interrupted_cell_def split: option.splits)

section \<open>The refusals (main.go)\<close>

datatype rule = R1 | R2 | R3 | R4 | R5 | R6 | R7 | R8 | R9

datatype reason =
    Unlisted
  | OutsideThePlan
  | CellMissing
  | BadArtefact string read_error
  | NoExit
  | NotVerified
  | UnknownExit i64
  | NoCounts
  | ChaosBlock
  | NoGit
  | DirtyTree
  | OtherCommit string string string
  | NoField string
  | Says string string string
  | OtherPool i64 string i64
  | BadDuration rat
  | NothingAccepted
  | UnknownScenario string
  | ControlInterrupted
  | ControlDiverged rat

type_synonym refusal = "rule \<times> string \<times> reason"

text \<open>
  The directory, as \<^verbatim>\<open>os.ReadDir\<close> lists it (\<open>None\<close> when it could not): names, and whether each
  is a directory. R1 in both directions; the second result is \<open>present\<close>.
\<close>

definition subdirectories :: "(string \<times> bool) list \<Rightarrow> string list" where
  "subdirectories entries = map fst (filter snd entries)"

definition checkDirectories :: "planned list \<Rightarrow> (string \<times> bool) list option \<Rightarrow> refusal list \<times> string list" where
  "checkDirectories p listing =
     (case listing of
        None \<Rightarrow> ([(R1, [], Unlisted)], [])
      | Some entries \<Rightarrow>
          (let dirs = subdirectories entries; wanted = map pl_name p;
               present = filter (\<lambda>n. n \<in> set wanted) dirs
           in (map (\<lambda>n. (R1, n, OutsideThePlan)) (filter (\<lambda>n. n \<notin> set wanted) dirs) @
               map (\<lambda>n. (R1, n, CellMissing)) (filter (\<lambda>n. n \<notin> set present) wanted), present)))"

text \<open>What lies in the directory of a cell.\<close>

record cell_files =
  cf_env :: "env_json artefact"
  cf_client :: "client_json artefact"
  cf_checker :: "checker_json artefact"

definition readJSON :: "string \<Rightarrow> string \<Rightarrow> 'a artefact \<Rightarrow> refusal list" where
  "readJSON name file f = (case read_file f of Inl e \<Rightarrow> [(R2, name, BadArtefact file e)] | Inr _ \<Rightarrow> [])"

text \<open>
  Two loops over a cell range over a map, whose order is the runtime's: \<open>iter loop name\<close> are the draws
  of that loop (\<open>Go_Text\<close>), over the three files here and over the four counters below.
\<close>

type_synonym iteration = "string \<Rightarrow> string \<Rightarrow> draws"

definition artefact_refusals :: "string \<Rightarrow> cell_files \<Rightarrow> string \<Rightarrow> refusal list" where
  "artefact_refusals name f file =
     (if file = ''env.json'' then readJSON name file (cf_env f)
      else if file = ''client.json'' then readJSON name file (cf_client f)
      else readJSON name file (cf_checker f))"

definition decoded_cell :: "cell_files \<Rightarrow> loaded option" where
  "decoded_cell f =
     (case (cf_env f, cf_client f, cf_checker f) of
        (Decoded e, Decoded c, Decoded k) \<Rightarrow> Some \<lparr>ld_env = e, ld_client = c, ld_checker = k\<rparr>
      | _ \<Rightarrow> None)"

definition load :: "iteration \<Rightarrow> (string \<Rightarrow> cell_files) \<Rightarrow> planned \<Rightarrow> refusal list \<times> loaded option" where
  "load iter files want =
     (let name = pl_name want; f = files name
      in (concat (map (artefact_refusals name f)
            (range_map (iter ''artefacts'' name) [''env.json'', ''client.json'', ''checker.json''])),
          decoded_cell f))"

text \<open>
  \<open>load_all\<close> is the loop of \<^verbatim>\<open>read\<close> over the plan: the cells present that loaded, by plan entry.
\<close>

fun load_all :: "iteration \<Rightarrow> (string \<Rightarrow> cell_files) \<Rightarrow> string list \<Rightarrow> planned list \<Rightarrow> refusal list \<times> (planned \<times> loaded) list" where
  "load_all iter files present [] = ([], [])"
| "load_all iter files present (want # p) =
     (case load_all iter files present p of (rs, cells) \<Rightarrow>
        (if pl_name want \<notin> set present then (rs, cells)
         else (case load iter files want of
                 (bad, None) \<Rightarrow> (bad @ rs, cells)
               | (bad, Some c) \<Rightarrow> (bad @ rs, (want, c) # cells))))"

text \<open>R2 and R3: what the checker said of the cell.\<close>

definition checker_refusals :: "string \<Rightarrow> checker_json \<Rightarrow> refusal list" where
  "checker_refusals name k =
     (case kj_exit k of
        None \<Rightarrow> [(R2, name, NoExit)]
      | Some x \<Rightarrow>
          if x = of_nat exitUnverifiable then [(R2, name, NotVerified)]
          else if x \<noteq> of_nat exitOK \<and> x \<noteq> of_nat exitViolated then [(R2, name, UnknownExit x)] else []) @
     (if kj_failures k = None \<or> kj_warnings k = None then [(R2, name, NoCounts)] else []) @
     (if kj_chaos k \<noteq> [] \<and> kj_chaos k \<noteq> ''null'' then [(R3, name, ChaosBlock)] else [])"

text \<open>
  The variables \<open>commit\<close>, \<open>commitFrom\<close>, \<open>pool\<close> and \<open>poolFrom\<close> of \<^verbatim>\<open>checkCoherence\<close>.
\<close>

record seen =
  sn_commit :: string
  sn_commit_from :: string
  sn_pool :: "i64 option"
  sn_pool_from :: string

definition nothing_seen :: seen where
  "nothing_seen = \<lparr>sn_commit = [], sn_commit_from = [], sn_pool = None, sn_pool_from = []\<rparr>"

definition git_refusals :: "string \<Rightarrow> git_report option \<Rightarrow> seen \<Rightarrow> refusal list \<times> seen" where
  "git_refusals name g s =
     (case g of
        None \<Rightarrow> ([(R4, name, NoGit)], s)
      | Some git \<Rightarrow>
          (case gi_dirty git of
             None \<Rightarrow> ([(R4, name, NoGit)], s)
           | Some dirty \<Rightarrow>
               if gi_commit git = [] then ([(R4, name, NoGit)], s)
               else
                 (let bad = (if dirty then [(R4, name, DirtyTree)] else [])
                  in if sn_commit s = [] then (bad, s\<lparr>sn_commit := gi_commit git, sn_commit_from := name\<rparr>)
                     else if gi_commit git \<noteq> sn_commit s
                     then (bad @ [(R4, name, OtherCommit (gi_commit git) (sn_commit_from s) (sn_commit s))], s)
                     else (bad, s))))"

definition cell_refusals :: "planned \<Rightarrow> cell_report option \<Rightarrow> seen \<Rightarrow> refusal list \<times> seen" where
  "cell_refusals want b s =
     (let name = pl_name want in
      case b of
        None \<Rightarrow> ([(R5, name, NoField ''cell'')], s)
      | Some cell \<Rightarrow>
          (let bad =
             (if ce_strategy cell \<noteq> pl_strategy want then [(R5, name, Says ''strategy'' (ce_strategy cell) (pl_strategy want))] else []) @
             (if ce_scenario cell \<noteq> pl_scenario want then [(R5, name, Says ''scenario'' (ce_scenario cell) (pl_scenario want))] else []) @
             (if ce_policy cell \<noteq> pl_policy want then [(R5, name, Says ''policy'' (ce_policy cell) (pl_policy want))] else []) @
             (case ce_auctions cell of
                None \<Rightarrow> [(R5, name, NoField ''cell.auctions'')]
              | Some n \<Rightarrow> if n \<noteq> pl_auctions want then [(R5, name, Says ''auctions'' (int_text (sint n)) (int_text (sint (pl_auctions want))))] else [])
           in (case ce_poolSize cell of
                 None \<Rightarrow> (bad @ [(R6, name, NoField ''cell.poolSize'')], s)
               | Some n \<Rightarrow>
                   (case sn_pool s of
                      None \<Rightarrow> (bad, s\<lparr>sn_pool := Some n, sn_pool_from := name\<rparr>)
                    | Some pool \<Rightarrow>
                        (if n \<noteq> pool then (bad @ [(R6, name, OtherPool n (sn_pool_from s) pool)], s) else (bad, s))))))"

definition client_refusals :: "iteration \<Rightarrow> string \<Rightarrow> client_json \<Rightarrow> refusal list" where
  "client_refusals iter name c =
     (case cj_durationMs c of
        None \<Rightarrow> [(R7, name, NoField ''durationMs'')]
      | Some ms \<Rightarrow> if ms \<le> 0 then [(R7, name, BadDuration ms)] else []) @
     map (\<lambda>(label, v). (R7, name, NoField label)) (filter (\<lambda>(label, v). v = None)
       (range_map (iter ''counters'' name)
         [(''accepted'', cj_accepted c), (''conflict'', cj_conflict c), (''exhausted'', cj_exhausted c),
          (''attempts'', cj_attempts c)])) @
     (case cj_p95 c of Some (Some v) \<Rightarrow> [] | _ \<Rightarrow> [(R7, name, NoField ''confirmLatencyMs.p95'')]) @
     (if cj_accepted c = Some 0 then [(R8, name, NothingAccepted)] else [])"

definition cohere :: "iteration \<Rightarrow> planned \<Rightarrow> loaded \<Rightarrow> seen \<Rightarrow> refusal list \<times> seen" where
  "cohere iter want c s =
     (let name = pl_name want; (git, s1) = git_refusals name (ej_git (ld_env c)) s;
          (cell, s2) = cell_refusals want (ej_cell (ld_env c)) s1
      in (checker_refusals name (ld_checker c) @ git @ cell @
          (case ej_saturated (ld_env c) of Some (Some f) \<Rightarrow> [] | _ \<Rightarrow> [(R2, name, NoField ''generator.saturated'')]) @
          client_refusals iter name (ld_client c), s2))"

fun checkCoherence :: "iteration \<Rightarrow> (planned \<times> loaded) list \<Rightarrow> seen \<Rightarrow> refusal list \<times> seen" where
  "checkCoherence iter [] s = ([], s)"
| "checkCoherence iter ((want, c) # cells) s =
     (case cohere iter want c s of (rs, s') \<Rightarrow>
        (case checkCoherence iter cells s' of (rs', s'') \<Rightarrow> (rs @ rs', s'')))"

section \<open>The rows (report.go)\<close>

text \<open>A quotient of the code: finite, or the infinity of the sign of its dividend.\<close>

datatype quotient = Finite rat | Infinite bool

definition quot :: "rat \<Rightarrow> rat \<Rightarrow> quotient" where
  "quot x y = (if y = 0 then Infinite (0 < x) else Finite (x / y))"

text \<open>\<^verbatim>\<open>math.Round\<close> rounds halves away from zero; \<^verbatim>\<open>round(v, 4)\<close>.\<close>

definition half_away :: "rat \<Rightarrow> int" where
  "half_away x = (if x < 0 then - \<lfloor>- x + 1 / 2\<rfloor> else \<lfloor>x + 1 / 2\<rfloor>)"

definition round4 :: "rat \<Rightarrow> rat" where
  "round4 v = of_int (half_away (v * 10000)) / 10000"

definition num_of :: "i64 \<Rightarrow> rat" where
  "num_of n = of_int (sint n)"

datatype row_warning = GeneratorSaturated | ExhaustionAbove quotient | InterruptedAfter rat

record row =
  rw_order :: nat
  rw_run :: "string \<times> string"
  rw_strategy :: string
  rw_auctions :: i64
  rw_scenario :: string
  rw_policy :: string
  rw_peakVUs :: nat
  rw_durationMs :: rat
  rw_accepted :: i64
  rw_acceptedPerSecond :: "rat option"
  rw_conflictPerSecond :: "rat option"
  rw_attemptsPerAccept :: "rat option"
  rw_confirmP95Ms :: rat
  rw_exhaustedRate :: quotient
  rw_interrupted :: bool
  rw_checker_warnings :: i64
  rw_checker_failures :: i64
  rw_warnings :: "row_warning list"

definition rate :: "rat \<Rightarrow> loaded \<Rightarrow> rat option" where
  "rate v c = (if interrupted_cell c then None else Some (round4 v))"

definition exhaustionWarn :: rat where "exhaustionWarn = 1 / 5"

definition above :: "quotient \<Rightarrow> rat \<Rightarrow> bool" where
  "above q x = (case q of Finite v \<Rightarrow> x < v | Infinite up \<Rightarrow> up)"

definition cellWarnings :: "loaded \<Rightarrow> quotient \<Rightarrow> row_warning list" where
  "cellWarnings c exhausted =
     (if ej_saturated (ld_env c) = Some (Some True) then [GeneratorSaturated] else []) @
     (if above exhausted exhaustionWarn then [ExhaustionAbove exhausted] else [])"

fun round_quotient :: "quotient \<Rightarrow> quotient" where
  "round_quotient (Finite v) = Finite (round4 v)"
| "round_quotient (Infinite up) = Infinite up"

text \<open>The name of the matrix, the base of the directory, is the parameter \<open>matrix\<close>.\<close>

definition line :: "string \<Rightarrow> planned \<Rightarrow> loaded \<Rightarrow> refusal list \<times> row option" where
  "line matrix want c =
     (let cl = ld_client c in
      case (cj_durationMs cl, cj_accepted cl, cj_conflict cl, cj_attempts cl, cj_exhausted cl, cj_p95 cl) of
        (Some ms, Some accepted, Some conflict, Some attempts, Some exhausted, Some (Some p95)) \<Rightarrow>
          if ms \<le> 0 \<or> accepted = 0 then ([], None)
          else
            (case peakVUs (pl_scenario want) of
               None \<Rightarrow> ([(R5, pl_name want, UnknownScenario (pl_scenario want))], None)
             | Some vus \<Rightarrow>
                 (let seconds = ms / 1000;
                      share = round_quotient (quot (num_of exhausted) (num_of accepted + num_of exhausted))
                  in ([], Some
                   \<lparr>rw_order = pl_order want, rw_run = (matrix, pl_name want), rw_strategy = pl_strategy want,
                    rw_auctions = pl_auctions want, rw_scenario = pl_scenario want, rw_policy = pl_policy want,
                    rw_peakVUs = vus, rw_durationMs = round4 ms, rw_accepted = accepted,
                    rw_acceptedPerSecond = rate (num_of accepted / seconds) c,
                    rw_conflictPerSecond = rate (num_of conflict / seconds) c,
                    rw_attemptsPerAccept = rate (num_of attempts / num_of accepted) c,
                    rw_confirmP95Ms = round4 p95, rw_exhaustedRate = share,
                    rw_interrupted = interrupted_cell c,
                    rw_checker_warnings = (case kj_warnings (ld_checker c) of None \<Rightarrow> 0 | Some n \<Rightarrow> n),
                    rw_checker_failures = (case kj_failures (ld_checker c) of None \<Rightarrow> 0 | Some n \<Rightarrow> n),
                    rw_warnings = cellWarnings c share @ (if interrupted_cell c then [InterruptedAfter seconds] else [])\<rparr>)))
      | _ \<Rightarrow> ([], None))"

text \<open>\<open>m.Failures\<close> adds up every cell, the control included; the control is no row.\<close>

fun rows :: "string \<Rightarrow> (planned \<times> loaded) list \<Rightarrow> refusal list \<times> i64 \<times> row list" where
  "rows matrix [] = ([], 0, [])"
| "rows matrix ((want, c) # cells) =
     (case rows matrix cells of (rs, failures, out) \<Rightarrow>
        (let failures' = (case kj_failures (ld_checker c) of None \<Rightarrow> 0 | Some n \<Rightarrow> n) + failures
         in if pl_order want = 37 then (rs, failures', out)
            else (case line matrix want c of
                    (bad, None) \<Rightarrow> (bad @ rs, failures', out)
                  | (bad, Some r) \<Rightarrow> (bad @ rs, failures', r # out))))"

section \<open>The control (report.go)\<close>

datatype control_verdict = ControlOK | ControlAviso | ControlRecusa

record control =
  co_cell :: nat
  co_repeat :: nat
  co_acceptedPerSecond :: "rat \<times> rat"
  co_divergence :: rat
  co_verdict :: control_verdict

definition controlWarn :: rat where "controlWarn = 1 / 10"
definition controlRefuse :: rat where "controlRefuse = 1 / 4"

definition perSecond :: "loaded \<Rightarrow> rat option" where
  "perSecond c =
     (case (cj_accepted (ld_client c), cj_durationMs (ld_client c)) of
        (Some accepted, Some ms) \<Rightarrow>
          if ms \<le> 0 \<or> accepted = 0 then None else Some (num_of accepted / (ms / 1000))
      | _ \<Rightarrow> None)"

text \<open>The refusals, the matrix's warnings (divergences) and the block.\<close>

definition control_of :: "planned list \<Rightarrow> (string \<rightharpoonup> loaded) \<Rightarrow> refusal list \<times> rat list \<times> control option" where
  "control_of p cells =
     (let firstName = pl_name (hd p); repeatName = pl_name (last p) in
      case (cells firstName, cells repeatName) of
        (Some first, Some repeat) \<Rightarrow>
          (let truncated = map (\<lambda>(name, c). (R9, name, ControlInterrupted))
                 (filter (\<lambda>(name, c). interrupted_cell c) [(firstName, first), (repeatName, repeat)])
           in if truncated \<noteq> [] then (truncated, [], None)
              else
                (case (perSecond first, perSecond repeat) of
                   (Some a, Some b) \<Rightarrow>
                     (let divergence = \<bar>b - a\<bar> / a;
                          block = \<lparr>co_cell = 1, co_repeat = 37, co_acceptedPerSecond = (round4 a, round4 b),
                            co_divergence = round4 divergence, co_verdict = ControlOK\<rparr>
                      in if controlRefuse < divergence
                         then ([(R9, repeatName, ControlDiverged divergence)], [], Some (block\<lparr>co_verdict := ControlRecusa\<rparr>))
                         else if controlWarn \<le> divergence
                         then ([], [divergence], Some (block\<lparr>co_verdict := ControlAviso\<rparr>))
                         else ([], [], Some block))
                 | _ \<Rightarrow> ([], [], None)))
      | _ \<Rightarrow> ([], [], None))"

section \<open>The matrix and its publication\<close>

record matrix =
  mx_matrix :: string
  mx_git :: "string \<times> bool"
  mx_poolSize :: i64
  mx_host :: string
  mx_limits :: string
  mx_cells :: "row list"
  mx_control :: "control option"
  mx_warnings :: "rat list"
  mx_publishable :: bool
  mx_failures :: i64

text \<open>\<open>stamp\<close>: the first cell of the plan with a git block and a pool size.\<close>

fun stamp :: "(planned \<times> loaded) list \<Rightarrow> matrix \<Rightarrow> matrix" where
  "stamp [] m = m"
| "stamp ((want, c) # cells) m =
     (case (ej_git (ld_env c), ej_cell (ld_env c)) of
        (Some git, Some cell) \<Rightarrow>
          (case ce_poolSize cell of
             Some n \<Rightarrow> m\<lparr>mx_git := (gi_commit git, gi_dirty git = Some True), mx_poolSize := n,
               mx_host := ej_host (ld_env c), mx_limits := ej_limits (ld_env c)\<rparr>
           | None \<Rightarrow> stamp cells m)
      | _ \<Rightarrow> stamp cells m)"

definition read_matrix ::
  "iteration \<Rightarrow> string \<Rightarrow> string \<Rightarrow> (string \<times> bool) list option \<Rightarrow> (string \<Rightarrow> cell_files) \<Rightarrow> matrix \<times> refusal list" where
  "read_matrix iter matrix kind listing files =
     (let p = plan kind;
          (r_dirs, present) = checkDirectories p listing;
          (r_load, cells) = load_all iter files present p;
          (r_coherence, s) = checkCoherence iter cells nothing_seen;
          (r_rows, failures, out) = rows matrix cells;
          (r_control, warnings, block) = control_of p (map_of (map (\<lambda>(want, c). (pl_name want, c)) cells));
          refusals = r_dirs @ r_load @ r_coherence @ r_rows @ r_control;
          m = \<lparr>mx_matrix = matrix, mx_git = ([], False), mx_poolSize = 0, mx_host = [], mx_limits = [],
               mx_cells = out, mx_control = block, mx_warnings = warnings, mx_publishable = False, mx_failures = failures\<rparr>;
          m' = (if refusals = [] then stamp cells m else m)
      in (m'\<lparr>mx_publishable := refusals = [] \<and> failures = 0\<rparr>, refusals))"

text \<open>
  Publication writes \<^verbatim>\<open>matrix.json\<close> and then \<^verbatim>\<open>matrix.md\<close>. Marshalling fails on an infinite
  quotient; \<open>json_ok\<close> and \<open>md_ok\<close> say whether the file system takes each file.
\<close>

datatype published = MatrixJson | MatrixMd

definition publish :: "matrix \<Rightarrow> bool \<Rightarrow> bool \<Rightarrow> published list \<times> bool" where
  "publish m json_ok md_ok =
     (if list_ex (\<lambda>r. case rw_exhaustedRate r of Infinite _ \<Rightarrow> True | Finite _ \<Rightarrow> False) (mx_cells m) then ([], False)
      else if \<not> json_ok then ([], False)
      else if \<not> md_ok then ([MatrixJson], False)
      else ([MatrixJson, MatrixMd], True))"

definition execute_matrix ::
  "iteration \<Rightarrow> string \<Rightarrow> string \<Rightarrow> string \<Rightarrow> (string \<times> bool) list option \<Rightarrow> (string \<Rightarrow> cell_files) \<Rightarrow> bool \<Rightarrow> bool \<Rightarrow> nat \<times> published list" where
  "execute_matrix iter dir matrix kind listing files json_ok md_ok =
     (if dir = [] then (exitUnverifiable, [])
      else if kind \<noteq> planFull \<and> kind \<noteq> planSlice then (exitUnverifiable, [])
      else
        (let (m, refusals) = read_matrix iter matrix kind listing files in
         if refusals \<noteq> [] then (if 0 <s mx_failures m then exitViolated else exitUnverifiable, [])
         else
           (let (written, ok) = publish m json_ok md_ok
            in if \<not> ok then (exitUnverifiable, written)
               else if 0 <s mx_failures m then (exitViolated, written)
               else (exitOK, written))))"

section \<open>The main graph (report.go)\<close>

definition levels :: "i64 list" where "levels = [1, 10, 1000]"
definition engines :: "string list" where "engines = [''optimistic'', ''pessimistic'', ''shard'']"

text \<open>The map \<open>at\<close>, strategy and contention to throughput; later rows overwrite.\<close>

definition graph_at :: "row list \<Rightarrow> string \<Rightarrow> i64 \<Rightarrow> rat option" where
  "graph_at rs strategy n =
     (case filter (\<lambda>r. rw_scenario r = ''ramp'' \<and> rw_policy r = ''immediate'' \<and> rw_strategy r = strategy \<and> rw_auctions r = n) rs of
        [] \<Rightarrow> None
      | r # rest \<Rightarrow> rw_acceptedPerSecond (last (r # rest)))"

text \<open>Is the first ahead of the second; \<open>None\<close> where the code's second result is false.\<close>

definition lead :: "rat option \<Rightarrow> rat option \<Rightarrow> bool option" where
  "lead a b =
     (case (a, b) of
        (Some x, Some y) \<Rightarrow> if x = y then None else Some (y < x)
      | _ \<Rightarrow> None)"

definition pairs :: "string list \<Rightarrow> (string \<times> string) list" where
  "pairs es = concat (map (\<lambda>i. map (\<lambda>j. (es ! i, es ! j)) [Suc i..<length es]) [0..<length es])"

record crossing =
  cx_between :: "i64 \<times> i64"
  cx_winner :: string
  cx_loser :: string

fun crossing_of :: "(string \<Rightarrow> i64 \<Rightarrow> rat option) \<Rightarrow> i64 \<times> i64 \<Rightarrow> string \<times> string \<Rightarrow> crossing option" where
  "crossing_of tp (n, n') (a, b) =
     (case (lead (tp a n) (tp b n), lead (tp a n') (tp b n')) of
        (Some before, Some after) \<Rightarrow>
          if before = after then None
          else (let (winner, loser) = (if after then (a, b) else (b, a))
                in Some \<lparr>cx_between = (n, n'), cx_winner = winner, cx_loser = loser\<rparr>)
      | _ \<Rightarrow> None)"

definition crossings :: "string list \<Rightarrow> i64 list \<Rightarrow> (string \<Rightarrow> i64 \<Rightarrow> rat option) \<Rightarrow> crossing list" where
  "crossings es ls tp = concat (map (\<lambda>between. List.map_filter (crossing_of tp between) (pairs es)) (zip ls (tl ls)))"

text \<open>The graph of the report: its table of throughputs and its crossings.\<close>

definition graph :: "matrix \<Rightarrow> (string \<times> rat option list) list \<times> crossing list" where
  "graph m =
     (let tp = graph_at (mx_cells m)
      in (map (\<lambda>e. (e, map (\<lambda>n. tp e n) levels)) engines, crossings engines levels tp))"

text \<open>The cell of the column Invariantes.\<close>

datatype invariants_cell = InvOK | InvFalha i64 | NaoConvergiu

definition invariants_column :: "row \<Rightarrow> invariants_cell" where
  "invariants_column r =
     (if 0 <s rw_checker_failures r then InvFalha (rw_checker_failures r)
      else if rw_interrupted r then NaoConvergiu else InvOK)"


section \<open>What a publishable directory is\<close>

definition loaded_at :: "(string \<Rightarrow> cell_files) \<Rightarrow> planned \<Rightarrow> loaded option" where
  "loaded_at files w = decoded_cell (files (pl_name w))"

definition measured :: "client_json \<Rightarrow> bool" where
  "measured c \<longleftrightarrow>
     (\<exists>ms. cj_durationMs c = Some ms \<and> 0 < ms) \<and> (\<exists>n. cj_accepted c = Some n \<and> n \<noteq> 0) \<and> cj_conflict c \<noteq> None \<and>
     cj_exhausted c \<noteq> None \<and> cj_attempts c \<noteq> None \<and> (\<exists>v. cj_p95 c = Some (Some v))"

definition verified :: "checker_json \<Rightarrow> bool" where
  "verified k \<longleftrightarrow> (kj_exit k = Some 0 \<or> kj_exit k = Some 1) \<and> kj_failures k \<noteq> None \<and> kj_warnings k \<noteq> None \<and>
     (kj_chaos k = [] \<or> kj_chaos k = ''null'')"

definition ran_as_planned :: "i64 \<Rightarrow> planned \<Rightarrow> cell_report \<Rightarrow> bool" where
  "ran_as_planned pool w cell \<longleftrightarrow>
     ce_strategy cell = pl_strategy w \<and> ce_auctions cell = Some (pl_auctions w) \<and> ce_policy cell = pl_policy w \<and>
     ce_scenario cell = pl_scenario w \<and> ce_poolSize cell = Some pool"

definition coherent :: "string \<Rightarrow> i64 \<Rightarrow> planned \<Rightarrow> loaded \<Rightarrow> bool" where
  "coherent commit pool w c \<longleftrightarrow>
     (\<exists>git. ej_git (ld_env c) = Some git \<and> gi_commit git = commit \<and> gi_dirty git = Some False) \<and>
     (\<exists>cell. ej_cell (ld_env c) = Some cell \<and> ran_as_planned pool w cell) \<and>
     (\<exists>f. ej_saturated (ld_env c) = Some (Some f)) \<and> measured (ld_client c) \<and> verified (ld_checker c)"

definition calm :: "loaded \<Rightarrow> loaded \<Rightarrow> bool" where
  "calm first repeat \<longleftrightarrow> \<not> interrupted_cell first \<and> \<not> interrupted_cell repeat \<and>
     (\<exists>a b. perSecond first = Some a \<and> perSecond repeat = Some b \<and> \<bar>b - a\<bar> / a \<le> controlRefuse)"

definition coherent_matrix :: "string \<Rightarrow> (string \<times> bool) list option \<Rightarrow> (string \<Rightarrow> cell_files) \<Rightarrow> bool" where
  "coherent_matrix kind listing files \<longleftrightarrow>
     (\<exists>entries. listing = Some entries \<and> set (subdirectories entries) = set (map pl_name (plan kind))) \<and>
     (\<exists>commit pool. commit \<noteq> [] \<and> (\<forall>w \<in> set (plan kind). \<exists>c. loaded_at files w = Some c \<and> coherent commit pool w c)) \<and>
     (\<exists>first repeat. loaded_at files (hd (plan kind)) = Some first \<and> loaded_at files (last (plan kind)) = Some repeat \<and>
        calm first repeat)"

subsection \<open>The directories and the files\<close>

lemma directories_split:
  "fst (checkDirectories p listing) = [] \<longleftrightarrow>
     (\<exists>entries. listing = Some entries \<and> set (subdirectories entries) = set (map pl_name p))"
  "fst (checkDirectories p listing) = [] \<Longrightarrow> set (snd (checkDirectories p listing)) = set (map pl_name p)"
proof -
  have "(fst (checkDirectories p listing) = [] \<longleftrightarrow>
       (\<exists>entries. listing = Some entries \<and> set (subdirectories entries) = set (map pl_name p))) \<and>
     (fst (checkDirectories p listing) = [] \<longrightarrow> set (snd (checkDirectories p listing)) = set (map pl_name p))"
    by (cases listing) (auto simp: checkDirectories_def Let_def filter_empty_conv)
  then show "fst (checkDirectories p listing) = [] \<longleftrightarrow>
      (\<exists>entries. listing = Some entries \<and> set (subdirectories entries) = set (map pl_name p))"
    and "fst (checkDirectories p listing) = [] \<Longrightarrow> set (snd (checkDirectories p listing)) = set (map pl_name p)"
    by blast+
qed

lemma load_cases:
  "(fst (load iter files w) = [] \<longleftrightarrow> loaded_at files w \<noteq> None) \<and> load iter files w = (fst (load iter files w), loaded_at files w)"
proof -
  have "fst (load iter files w) = [] \<longleftrightarrow>
      (\<forall>file \<in> {''env.json'', ''client.json'', ''checker.json''}. artefact_refusals (pl_name w) (files (pl_name w)) file = [])"
    by (simp add: load_def Let_def concat_eq_Nil_conv)
  also have "\<dots> \<longleftrightarrow> loaded_at files w \<noteq> None"
    by (cases "cf_env (files (pl_name w))"; cases "cf_client (files (pl_name w))"; cases "cf_checker (files (pl_name w))")
      (simp_all add: artefact_refusals_def readJSON_def read_file_def loaded_at_def decoded_cell_def)
  finally show ?thesis by (simp add: load_def Let_def loaded_at_def)
qed

lemma load_all_clean:
  assumes "set (map pl_name p) \<subseteq> set present"
  shows "fst (load_all iter files present p) = [] \<longleftrightarrow> (\<forall>w \<in> set p. loaded_at files w \<noteq> None)"
    and "(\<forall>w \<in> set p. loaded_at files w \<noteq> None) \<Longrightarrow>
      snd (load_all iter files present p) = map (\<lambda>w. (w, the (loaded_at files w))) p"
  using assms
proof (induction p)
  case (Cons w p)
  {
    case 1
    then show ?case using Cons.IH load_cases [of iter files w]
      by (cases "load_all iter files present p"; cases "load iter files w"; cases "loaded_at files w") auto
  next
    case 2
    then show ?case using Cons.IH load_cases [of iter files w]
      by (cases "load_all iter files present p"; cases "load iter files w"; cases "loaded_at files w") auto
  }
qed simp_all

subsection \<open>The coherence across cells\<close>

definition agrees :: "seen \<Rightarrow> string \<Rightarrow> i64 \<Rightarrow> bool" where
  "agrees s commit pool \<longleftrightarrow> (sn_commit s = [] \<or> sn_commit s = commit) \<and> (sn_pool s = None \<or> sn_pool s = Some pool)"

lemma checker_clean: "checker_refusals name k = [] \<longleftrightarrow> verified k"
  by (auto simp: checker_refusals_def verified_def exitOK_def exitViolated_def exitUnverifiable_def split: option.splits)

lemma client_clean: "client_refusals iter name c = [] \<longleftrightarrow> measured c"
  by (auto simp: client_refusals_def measured_def filter_empty_conv split: option.splits)

lemma git_clean:
  "fst (git_refusals name g s) = [] \<longleftrightarrow>
     (\<exists>git. g = Some git \<and> gi_dirty git = Some False \<and> gi_commit git \<noteq> [] \<and> (sn_commit s = [] \<or> sn_commit s = gi_commit git))"
  by (auto simp: git_refusals_def Let_def split: option.splits)

lemma git_seen:
  assumes "fst (git_refusals name (Some git) s) = []"
  shows "sn_commit (snd (git_refusals name (Some git) s)) = gi_commit git"
    and "sn_pool (snd (git_refusals name (Some git) s)) = sn_pool s"
  using assms by (auto simp: git_refusals_def Let_def split: option.splits if_splits)

lemma cell_clean:
  "fst (cell_refusals w b s) = [] \<longleftrightarrow>
     (\<exists>cell pool. b = Some cell \<and> ran_as_planned pool w cell \<and> (sn_pool s = None \<or> sn_pool s = Some pool))"
  by (auto simp: cell_refusals_def Let_def ran_as_planned_def split: option.splits)

lemma cell_seen:
  assumes "fst (cell_refusals w b s) = []" and "b = Some cell" and "ran_as_planned pool w cell"
  shows "sn_pool (snd (cell_refusals w b s)) = Some pool" and "sn_commit (snd (cell_refusals w b s)) = sn_commit s"
  using assms by (auto simp: cell_refusals_def Let_def ran_as_planned_def split: option.splits if_splits)

lemma cohere_clean:
  "fst (cohere iter w c s) = [] \<longleftrightarrow> (\<exists>commit pool. commit \<noteq> [] \<and> agrees s commit pool \<and> coherent commit pool w c)"
proof -
  have pool: "sn_pool (snd (git_refusals (pl_name w) g s)) = sn_pool s" for g
    by (auto simp: git_refusals_def Let_def split: option.splits)
  have "fst (cohere iter w c s) = [] \<longleftrightarrow>
      verified (ld_checker c) \<and> fst (git_refusals (pl_name w) (ej_git (ld_env c)) s) = [] \<and>
      (\<exists>cell pool. ej_cell (ld_env c) = Some cell \<and> ran_as_planned pool w cell \<and> (sn_pool s = None \<or> sn_pool s = Some pool)) \<and>
      (\<exists>f. ej_saturated (ld_env c) = Some (Some f)) \<and> measured (ld_client c)"
    by (auto simp: cohere_def Let_def case_prod_unfold checker_clean client_clean cell_clean pool split: option.splits)
  also have "\<dots> \<longleftrightarrow> (\<exists>commit pool. commit \<noteq> [] \<and> agrees s commit pool \<and> coherent commit pool w c)" (is "?L \<longleftrightarrow> ?R")
  proof
    assume l: ?L
    then obtain git where "ej_git (ld_env c) = Some git" "gi_dirty git = Some False" "gi_commit git \<noteq> []"
        "sn_commit s = [] \<or> sn_commit s = gi_commit git"
      by (auto simp: git_clean)
    moreover obtain cell pool where "ej_cell (ld_env c) = Some cell" "ran_as_planned pool w cell"
        "sn_pool s = None \<or> sn_pool s = Some pool"
      using l by blast
    ultimately have "gi_commit git \<noteq> [] \<and> agrees s (gi_commit git) pool \<and> coherent (gi_commit git) pool w c"
      using l by (simp add: agrees_def coherent_def)
    then show ?R by blast
  next
    assume ?R
    then show ?L by (auto simp: agrees_def coherent_def git_clean)
  qed
  finally show ?thesis .
qed

lemma cohere_seen:
  assumes "commit \<noteq> []" and "agrees s commit pool" and "coherent commit pool w c"
  shows "sn_commit (snd (cohere iter w c s)) = commit \<and> sn_pool (snd (cohere iter w c s)) = Some pool"
proof -
  let ?name = "pl_name w"
  obtain git cell where git: "ej_git (ld_env c) = Some git" "gi_commit git = commit" "gi_dirty git = Some False"
    and cell: "ej_cell (ld_env c) = Some cell" "ran_as_planned pool w cell"
    using assms(3) by (auto simp: coherent_def)
  let ?s = "snd (git_refusals ?name (Some git) s)"
  have g: "fst (git_refusals ?name (Some git) s) = []"
    using git assms(1,2) by (auto simp: git_clean agrees_def)
  note seen = git_seen [OF g]
  have "fst (cell_refusals w (Some cell) ?s) = []"
    using cell assms(2) seen(2) by (auto simp: cell_clean agrees_def)
  from cell_seen [OF this refl cell(2)] show ?thesis
    using seen(1) git by (simp add: cohere_def Let_def case_prod_unfold cell(1))
qed

lemma coherence_clean:
  "fst (checkCoherence iter cells s) = [] \<longleftrightarrow>
     (\<exists>commit pool. commit \<noteq> [] \<and> agrees s commit pool \<and> (\<forall>(w, c) \<in> set cells. coherent commit pool w c))"
proof (induction cells arbitrary: s)
  case Nil
  have "agrees s (if sn_commit s = [] then ''x'' else sn_commit s) (case sn_pool s of None \<Rightarrow> 0 | Some n \<Rightarrow> n)"
    by (simp add: agrees_def split: option.splits)
  moreover have "(if sn_commit s = [] then ''x'' else sn_commit s) \<noteq> []" by simp
  ultimately show ?case by (simp only: checkCoherence.simps fst_conv list.set ball_empty) blast
next
  case (Cons wc cells)
  obtain w c where wc: "wc = (w, c)" by fastforce
  let ?s = "snd (cohere iter w c s)"
  have "fst (checkCoherence iter (wc # cells) s) = [] \<longleftrightarrow> fst (cohere iter w c s) = [] \<and> fst (checkCoherence iter cells ?s) = []"
    by (simp add: wc case_prod_unfold)
  also have "\<dots> \<longleftrightarrow> (\<exists>commit pool. commit \<noteq> [] \<and> agrees s commit pool \<and> coherent commit pool w c \<and>
      fst (checkCoherence iter cells ?s) = [])"
    unfolding cohere_clean by blast
  also have "\<dots> \<longleftrightarrow> (\<exists>commit pool. commit \<noteq> [] \<and> agrees s commit pool \<and> coherent commit pool w c \<and>
      (\<forall>(w, c) \<in> set cells. coherent commit pool w c))"
  proof (intro ex_cong1 conj_cong refl)
    fix commit pool
    assume *: "commit \<noteq> []" "agrees s commit pool" "coherent commit pool w c"
    have "agrees ?s commit' pool' \<longleftrightarrow> commit' = commit \<and> pool' = pool" for commit' pool'
      using cohere_seen [OF *] *(1) by (auto simp: agrees_def)
    then show "fst (checkCoherence iter cells ?s) = [] \<longleftrightarrow> (\<forall>(w, c) \<in> set cells. coherent commit pool w c)"
      unfolding Cons.IH using *(1) by auto
  qed
  finally show ?case by (simp add: wc)
qed

lemma nothing_agrees: "agrees nothing_seen commit pool"
  by (simp add: agrees_def nothing_seen_def)

subsection \<open>Rows and control\<close>

lemma grid_numbers: "set (map fst grid) \<subseteq> {1..36}"
  by (simp add: grid_def)

lemma plan_in_grid:
  "w \<in> set (butlast (plan kind)) \<Longrightarrow> pl_order w \<noteq> 37 \<and> peakVUs (pl_scenario w) \<noteq> None"
proof -
  assume "w \<in> set (butlast (plan kind))"
  then obtain n a sc po st where g: "(n, a, sc, po, st) \<in> set grid" "pl_order w = n" "pl_scenario w = sc"
    by (auto simp: plan_def)
  have "n \<in> set (map fst grid)" using g(1) by force
  moreover have "(a, sc, po, st) \<in> set (map snd grid)" using g(1) by force
  ultimately show ?thesis using g(2,3) grid_numbers unfolding grid_all by (auto simp: peakVUs_def)
qed

lemma plan_nonempty: "plan kind \<noteq> []"
  by (simp add: plan_def)

lemma plan_split: "plan kind = butlast (plan kind) @ [control_cell]"
  by (simp add: plan_def)

lemma line_measured:
  assumes "measured (ld_client c)" and "peakVUs (pl_scenario w) \<noteq> None"
  shows "fst (line matrix w c) = [] \<and> snd (line matrix w c) \<noteq> None"
  using assms by (auto simp: line_def measured_def Let_def)

definition failures_of :: "loaded \<Rightarrow> i64" where
  "failures_of c = (case kj_failures (ld_checker c) of None \<Rightarrow> 0 | Some n \<Rightarrow> n)"

lemma rows_measured:
  assumes "\<forall>(w, c) \<in> set cells. measured (ld_client c) \<and> (pl_order w = 37 \<or> peakVUs (pl_scenario w) \<noteq> None)"
  shows "rows matrix cells = ([], sum_list (map (\<lambda>(w, c). failures_of c) cells),
    map (\<lambda>(w, c). the (snd (line matrix w c))) (filter (\<lambda>(w, c). pl_order w \<noteq> 37) cells))"
  using assms
proof (induction cells)
  case (Cons wc cells)
  obtain w c where "wc = (w, c)" by fastforce
  with Cons line_measured [of c w matrix] show ?case
    by (cases "line matrix w c") (auto simp: failures_of_def Let_def split: option.splits)
qed simp

lemma rows_clean_planned:
  assumes "\<forall>(w, c) \<in> set cells. pl_order w = 37 \<or> peakVUs (pl_scenario w) \<noteq> None"
  shows "fst (rows matrix cells) = []"
  using assms
proof (induction cells)
  case (Cons wc cells)
  obtain w c where "wc = (w, c)" by fastforce
  moreover have "fst (line matrix w c) = []" if "peakVUs (pl_scenario w) \<noteq> None"
    using that by (auto simp: line_def Let_def split: option.splits)
  ultimately show ?case using Cons
    by (cases "line matrix w c"; cases "rows matrix cells") (auto simp: Let_def split: option.splits)
qed simp

lemma measured_perSecond: "measured (ld_client c) \<Longrightarrow> perSecond c \<noteq> None"
  by (auto simp: measured_def perSecond_def)

lemma control_clean:
  assumes "cells (pl_name (hd p)) = Some first" and "cells (pl_name (last p)) = Some repeat"
    and "measured (ld_client first)" and "measured (ld_client repeat)"
  shows "fst (control_of p cells) = [] \<longleftrightarrow> calm first repeat"
  using measured_perSecond [OF assms(3)] measured_perSecond [OF assms(4)]
  by (auto simp: control_of_def calm_def assms(1,2) Let_def not_less split: if_splits)


section \<open>A matrix is publishable exactly when it is coherent\<close>

text \<open>The cells \<^verbatim>\<open>read\<close> works on when nothing is missing.\<close>

definition all_cells :: "string \<Rightarrow> (string \<Rightarrow> cell_files) \<Rightarrow> (planned \<times> loaded) list" where
  "all_cells kind files = map (\<lambda>w. (w, the (loaded_at files w))) (plan kind)"

definition plan_loaded :: "string \<Rightarrow> (string \<times> bool) list option \<Rightarrow> (string \<Rightarrow> cell_files) \<Rightarrow> bool" where
  "plan_loaded kind listing files \<longleftrightarrow>
     (\<exists>entries. listing = Some entries \<and> set (subdirectories entries) = set (map pl_name (plan kind))) \<and>
     (\<forall>w \<in> set (plan kind). loaded_at files w \<noteq> None)"

lemma plan_other: "kind \<noteq> planSlice \<Longrightarrow> plan kind = plan planFull"
  by (simp add: plan_def planFull_def planSlice_def)

lemma names_distinct: "distinct (map pl_name (plan kind))"
proof (cases "kind = planSlice")
  case True
  show ?thesis unfolding True plan_slice by (rule distinct_map_filter [OF plan_names_distinct])
qed (simp add: plan_other plan_names_distinct)

lemma loading_clean:
  assumes "checkDirectories (plan kind) listing = (rd, present)" and "load_all iter files present (plan kind) = (rl, cells)"
  shows "rd = [] \<and> rl = [] \<longleftrightarrow> plan_loaded kind listing files"
    and "rd = [] \<and> rl = [] \<Longrightarrow> cells = all_cells kind files"
proof -
  have present: "set (map pl_name (plan kind)) \<subseteq> set present" if "rd = []"
    using directories_split(2) [of "plan kind" listing] assms(1) that by simp
  have rd: "rd = [] \<longleftrightarrow> (\<exists>entries. listing = Some entries \<and> set (subdirectories entries) = set (map pl_name (plan kind)))"
    using directories_split(1) [of "plan kind" listing] assms(1) by simp
  have rl: "rl = [] \<longleftrightarrow> (\<forall>w \<in> set (plan kind). loaded_at files w \<noteq> None)" if "rd = []"
    using load_all_clean(1) [OF present [OF that], of iter files] assms(2) by simp
  show "rd = [] \<and> rl = [] \<longleftrightarrow> plan_loaded kind listing files"
    using rd rl unfolding plan_loaded_def by blast
  assume "rd = [] \<and> rl = []"
  then show "cells = all_cells kind files"
    using load_all_clean(2) [of "plan kind" present files iter] present rl assms(2) by (simp add: all_cells_def)
qed

lemma cells_at:
  assumes "w \<in> set (plan kind)"
  shows "map_of (map (\<lambda>(want, c). (pl_name want, c)) (all_cells kind files)) (pl_name w) = Some (the (loaded_at files w))"
  using assms names_distinct [of kind] by (intro map_of_is_SomeI) (auto simp: all_cells_def comp_def)

lemma rows_loaded: "fst (rows matrix (all_cells kind files)) = []"
proof -
  have "pl_order w = 37 \<or> peakVUs (pl_scenario w) \<noteq> None" if "w \<in> set (plan kind)" for w
    using that plan_in_grid [of w kind] by (subst (asm) plan_split) (auto simp: control_cell_def)
  then show ?thesis by (intro rows_clean_planned) (auto simp: all_cells_def)
qed

lemma coherence_loaded:
  assumes "plan_loaded kind listing files"
  shows "fst (checkCoherence iter (all_cells kind files) nothing_seen) = [] \<longleftrightarrow>
    (\<exists>commit pool. commit \<noteq> [] \<and> (\<forall>w \<in> set (plan kind). \<exists>c. loaded_at files w = Some c \<and> coherent commit pool w c))"
proof -
  have "(\<forall>(w, c) \<in> set (all_cells kind files). coherent commit pool w c) \<longleftrightarrow>
      (\<forall>w \<in> set (plan kind). \<exists>c. loaded_at files w = Some c \<and> coherent commit pool w c)" for commit pool
    using assms by (force simp: all_cells_def plan_loaded_def)
  then show ?thesis by (simp add: coherence_clean nothing_agrees)
qed

lemma control_loaded:
  assumes "plan_loaded kind listing files" and "\<forall>w \<in> set (plan kind). measured (ld_client (the (loaded_at files w)))"
  shows "fst (control_of (plan kind) (map_of (map (\<lambda>(want, c). (pl_name want, c)) (all_cells kind files)))) = [] \<longleftrightarrow>
    (\<exists>first repeat. loaded_at files (hd (plan kind)) = Some first \<and> loaded_at files (last (plan kind)) = Some repeat \<and>
      calm first repeat)"
proof -
  note ends = hd_in_set [OF plan_nonempty, of kind] last_in_set [OF plan_nonempty, of kind]
  obtain first repeat where fr: "loaded_at files (hd (plan kind)) = Some first" "loaded_at files (last (plan kind)) = Some repeat"
    using assms(1) ends unfolding plan_loaded_def by (metis option.exhaust)
  have "measured (ld_client first)" "measured (ld_client repeat)" using assms(2) ends fr by force+
  from control_clean [OF cells_at [OF ends(1), of files, unfolded fr option.sel] cells_at [OF ends(2), of files, unfolded fr option.sel] this]
  show ?thesis by (simp only: fr option.inject simp_thms ex_simps)
qed

lemma coherent_loaded: "coherent_matrix kind listing files \<Longrightarrow> plan_loaded kind listing files"
  by (force simp: coherent_matrix_def plan_loaded_def)

lemma coherent_measured:
  assumes "\<forall>w \<in> set (plan kind). \<exists>c. loaded_at files w = Some c \<and> coherent commit pool w c"
  shows "\<forall>w \<in> set (plan kind). measured (ld_client (the (loaded_at files w)))"
  using assms by (force simp: coherent_def)

lemma read_matrix_eq:
  assumes "plan_loaded kind listing files"
  shows "snd (read_matrix iter matrix kind listing files) =
      fst (checkCoherence iter (all_cells kind files) nothing_seen) @
      fst (control_of (plan kind) (map_of (map (\<lambda>(want, c). (pl_name want, c)) (all_cells kind files))))"
    and "mx_cells (fst (read_matrix iter matrix kind listing files)) = snd (snd (rows matrix (all_cells kind files)))"
    and "mx_failures (fst (read_matrix iter matrix kind listing files)) = fst (snd (rows matrix (all_cells kind files)))"
proof -
  obtain rd present where dirs: "checkDirectories (plan kind) listing = (rd, present)" by fastforce
  obtain rl cells where loads: "load_all iter files present (plan kind) = (rl, cells)" by fastforce
  have "rd = [] \<and> rl = []" using loading_clean(1) [OF dirs loads] assms by blast
  moreover from this have "cells = all_cells kind files" by (rule loading_clean(2) [OF dirs loads])
  moreover have stamps: "mx_cells (stamp cs m) = mx_cells m \<and> mx_failures (stamp cs m) = mx_failures m" for cs m
    by (induction cs m rule: stamp.induct) (auto split: option.splits)
  ultimately show "snd (read_matrix iter matrix kind listing files) =
      fst (checkCoherence iter (all_cells kind files) nothing_seen) @
      fst (control_of (plan kind) (map_of (map (\<lambda>(want, c). (pl_name want, c)) (all_cells kind files))))"
    and "mx_cells (fst (read_matrix iter matrix kind listing files)) = snd (snd (rows matrix (all_cells kind files)))"
    and "mx_failures (fst (read_matrix iter matrix kind listing files)) = fst (snd (rows matrix (all_cells kind files)))"
    using rows_loaded [of matrix kind files]
    by (simp_all add: read_matrix_def Let_def dirs loads case_prod_unfold stamps)
qed

lemma refusals_core:
  "snd (read_matrix iter matrix kind listing files) = [] \<longleftrightarrow> coherent_matrix kind listing files"
proof (cases "plan_loaded kind listing files")
  case True
  note r = read_matrix_eq(1) [OF True]
  show ?thesis
  proof (cases "fst (checkCoherence iter (all_cells kind files) nothing_seen) = []")
    case clean: True
    note one = coherence_loaded [OF True, THEN iffD1, OF clean]
    then have "\<forall>w \<in> set (plan kind). measured (ld_client (the (loaded_at files w)))" using coherent_measured by blast
    note control = control_loaded [OF True this]
    have listed: "\<exists>entries. listing = Some entries \<and> set (subdirectories entries) = set (map pl_name (plan kind))"
      using True by (simp only: plan_loaded_def)
    show ?thesis
      by (simp only: r append_is_Nil_conv clean control one listed coherent_matrix_def simp_thms)
  next
    case False
    then show ?thesis
      using coherence_loaded [OF True] by (simp only: r append_is_Nil_conv coherent_matrix_def simp_thms)
  qed
next
  case False
  obtain rd present where dirs: "checkDirectories (plan kind) listing = (rd, present)" by fastforce
  obtain rl cells where loads: "load_all iter files present (plan kind) = (rl, cells)" by fastforce
  have "rd \<noteq> [] \<or> rl \<noteq> []" using loading_clean(1) [OF dirs loads] False by blast
  then have "snd (read_matrix iter matrix kind listing files) \<noteq> []"
    by (auto simp: read_matrix_def Let_def dirs loads case_prod_unfold)
  then show ?thesis using False coherent_loaded by blast
qed

text \<open>
  Claim C19. The nine refusals are the coherence of the matrix. Nothing is refused exactly when
  the directory holds the subdirectories of the plan and no other, and one commit and one pool size exist
  such that every cell loads, was built from that clean commit, ran the coordinates its name says on
  that pool, was verified, without chaos, and is measured; and the control, uninterrupted, came within
  a quarter of the first cell's throughput.
\<close>
theorem refusals_decide_coherence:
  "snd (read_matrix iter matrix kind listing files) = [] \<longleftrightarrow> coherent_matrix kind listing files"
  by (rule refusals_core)

section \<open>What the rows say\<close>

lemma round4_near: "\<bar>round4 v - v\<bar> \<le> 1 / 20000"
proof -
  have up: "\<bar>of_int \<lfloor>x + 1 / 2\<rfloor> - x\<bar> \<le> 1 / 2" for x :: rat
    using floor_correct [of "x + 1 / 2"] by (intro abs_leI) linarith+
  define x where "x = v * 10000"
  have "\<bar>of_int (half_away x) - x\<bar> \<le> 1 / 2"
    using up [of x] up [of "- x"] by (auto simp: half_away_def abs_if split: if_splits)
  moreover define d where "d = of_int (half_away x) - x"
  moreover have e: "round4 v - v = d / 10000"
    by (simp add: round4_def x_def d_def diff_divide_distrib)
  ultimately have "\<bar>d\<bar> \<le> 1 / 2" by simp
  then show ?thesis unfolding e by (simp add: abs_divide)
qed

text \<open>A published number, or none when the cell was interrupted.\<close>

definition says :: "loaded \<Rightarrow> rat option \<Rightarrow> rat \<Rightarrow> bool" where
  "says c p v \<longleftrightarrow>
     (if interrupted_cell c then p = None else \<exists>x. p = Some x \<and> \<bar>x - v\<bar> \<le> 1 / 20000)"

lemma says_rate: "says c (rate v c) v"
  using round4_near [of v] by (auto simp: says_def rate_def)

definition row_reports :: "(string \<Rightarrow> cell_files) \<Rightarrow> planned \<Rightarrow> row \<Rightarrow> bool" where
  "row_reports files w r \<longleftrightarrow>
     (\<exists>c ms accepted conflict attempts.
        loaded_at files w = Some c \<and> cj_durationMs (ld_client c) = Some ms \<and> cj_accepted (ld_client c) = Some accepted \<and>
        cj_conflict (ld_client c) = Some conflict \<and> cj_attempts (ld_client c) = Some attempts \<and>
        rw_order r = pl_order w \<and> snd (rw_run r) = pl_name w \<and> rw_strategy r = pl_strategy w \<and>
        rw_auctions r = pl_auctions w \<and> rw_scenario r = pl_scenario w \<and> rw_policy r = pl_policy w \<and>
        peakVUs (pl_scenario w) = Some (rw_peakVUs r) \<and> rw_accepted r = accepted \<and> rw_interrupted r = interrupted_cell c \<and>
        says c (rw_acceptedPerSecond r) (1000 * num_of accepted / ms) \<and>
        says c (rw_conflictPerSecond r) (1000 * num_of conflict / ms) \<and>
        says c (rw_attemptsPerAccept r) (num_of attempts / num_of accepted) \<and>
        rw_checker_failures r = failures_of c)"

lemma line_reports:
  assumes "measured (ld_client c)" and "peakVUs (pl_scenario w) \<noteq> None" and "loaded_at files w = Some c"
  shows "row_reports files w (the (snd (line matrix w c)))"
proof -
  have *: "says c (rate (x / (ms / 1000)) c) (1000 * x / ms)" for x ms
    using says_rate [of c "1000 * x / ms"] by (simp add: mult.commute)
  show ?thesis
    using assms * says_rate
    by (auto simp: row_reports_def measured_def line_def Let_def failures_of_def)
qed

lemma coherent_rows:
  assumes "coherent_matrix kind listing files"
  shows "mx_cells (fst (read_matrix iter matrix kind listing files)) =
      map (\<lambda>w. the (snd (line matrix w (the (loaded_at files w))))) (butlast (plan kind))"
    and "mx_failures (fst (read_matrix iter matrix kind listing files)) =
      sum_list (map (\<lambda>w. failures_of (the (loaded_at files w))) (plan kind))"
proof -
  obtain commit pool where coh: "\<forall>w \<in> set (plan kind). \<exists>c. loaded_at files w = Some c \<and> coherent commit pool w c"
    using assms by (auto simp: coherent_matrix_def)
  note m = coherent_measured [OF coh]
  have "pl_order w = 37 \<or> peakVUs (pl_scenario w) \<noteq> None" if "w \<in> set (plan kind)" for w
    using that plan_in_grid [of w kind] by (subst (asm) plan_split) (auto simp: control_cell_def)
  then have rows: "rows matrix (all_cells kind files) =
      ([], sum_list (map (\<lambda>(w, c). failures_of c) (all_cells kind files)),
       map (\<lambda>(w, c). the (snd (line matrix w c))) (filter (\<lambda>(w, c). pl_order w \<noteq> 37) (all_cells kind files)))"
    using m by (intro rows_measured) (auto simp: all_cells_def)
  have "filter (\<lambda>w. pl_order w \<noteq> 37) (plan kind) = butlast (plan kind)"
    using plan_in_grid [of _ kind] by (subst plan_split) (auto simp: control_cell_def filter_id_conv)
  then have "map (\<lambda>(w, c). the (snd (line matrix w c))) (filter (\<lambda>(w, c). pl_order w \<noteq> 37) (all_cells kind files)) =
      map (\<lambda>w. the (snd (line matrix w (the (loaded_at files w))))) (butlast (plan kind))"
    by (simp add: all_cells_def filter_map comp_def)
  then show "mx_cells (fst (read_matrix iter matrix kind listing files)) =
      map (\<lambda>w. the (snd (line matrix w (the (loaded_at files w))))) (butlast (plan kind))"
    by (simp add: read_matrix_eq(2) [OF coherent_loaded [OF assms]] rows)
  show "mx_failures (fst (read_matrix iter matrix kind listing files)) =
      sum_list (map (\<lambda>w. failures_of (the (loaded_at files w))) (plan kind))"
    by (simp only: read_matrix_eq(3) [OF coherent_loaded [OF assms]] rows fst_conv snd_conv) (simp add: all_cells_def comp_def)
qed

text \<open>
  Claim C25. The rows say what the cells measured. Of a coherent matrix there is one row per
  cell of the plan but the control, in the order of the plan, with the cell's coordinates, its peak
  load, its accepts and its failures; its three rates are within 1/20000 of the client's counts over
  the client's own window (accepted and conflicts per second, attempts per accept), and all three are
  absent exactly when the cell was interrupted.
\<close>
theorem rows_report_the_cells:
  assumes "coherent_matrix kind listing files"
  shows "list_all2 (row_reports files) (butlast (plan kind)) (mx_cells (fst (read_matrix iter matrix kind listing files)))"
proof -
  obtain commit pool where coh: "\<forall>w \<in> set (plan kind). \<exists>c. loaded_at files w = Some c \<and> coherent commit pool w c"
    using assms by (auto simp: coherent_matrix_def)
  have "row_reports files w (the (snd (line matrix w (the (loaded_at files w)))))" if w: "w \<in> set (butlast (plan kind))" for w
  proof -
    obtain c where "loaded_at files w = Some c" "measured (ld_client c)"
      using coh in_set_butlastD [OF w] by (auto simp: coherent_def)
    with plan_in_grid [OF w] show ?thesis by (auto intro: line_reports)
  qed
  then show ?thesis by (simp add: coherent_rows(1) [OF assms] list_all2_map2 list_all2_same)
qed

section \<open>The exit code\<close>

definition finite_rows :: "row list \<Rightarrow> bool" where
  "finite_rows rs \<longleftrightarrow> list_all (\<lambda>r. case rw_exhaustedRate r of Infinite _ \<Rightarrow> False | Finite _ \<Rightarrow> True) rs"

lemma publish_ok: "snd (publish m json_ok md_ok) \<longleftrightarrow> finite_rows (mx_cells m) \<and> json_ok \<and> md_ok"
  by (auto simp: publish_def finite_rows_def list_all_iff list_ex_iff split: quotient.splits)



section \<open>A sample matrix\<close>

definition sample_cell_files :: "i64 \<Rightarrow> planned \<Rightarrow> cell_files" where
  "sample_cell_files failures w =
     \<lparr>cf_env = Decoded \<lparr>ej_git = Some \<lparr>gi_commit = ''c0'', gi_dirty = Some False\<rparr>,
        ej_cell = Some \<lparr>ce_strategy = pl_strategy w, ce_auctions = Some (pl_auctions w), ce_policy = pl_policy w,
          ce_scenario = pl_scenario w, ce_poolSize = Some 10, ce_interrupted = None\<rparr>,
        ej_host = [], ej_limits = [], ej_saturated = Some (Some False)\<rparr>,
      cf_client = Decoded \<lparr>cj_accepted = Some 100, cj_conflict = Some 20, cj_exhausted = Some 0,
        cj_attempts = Some 120, cj_durationMs = Some 2000, cj_p95 = Some (Some 3)\<rparr>,
      cf_checker = Decoded \<lparr>kj_chaos = [], kj_warnings = Some 0, kj_failures = Some failures,
        kj_exit = Some (if failures = 0 then 0 else 1)\<rparr>\<rparr>"

definition sample_files :: "i64 \<Rightarrow> string \<Rightarrow> cell_files" where
  "sample_files failures n = sample_cell_files failures (the (find (\<lambda>w. pl_name w = n) (plan planSlice)))"

text \<open>The order of every range: the order of the source.\<close>

definition in_order :: iteration where
  "in_order = (\<lambda>loop name. [])"

definition sample_listing :: "(string \<times> bool) list option" where
  "sample_listing = Some (map (\<lambda>w. (pl_name w, True)) (plan planSlice))"

lemma sample_at:
  assumes "w \<in> set (plan planSlice)"
  shows "\<exists>c. loaded_at (sample_files failures) w = Some c \<and> coherent ''c0'' 10 w c \<and> perSecond c = Some 50 \<and>
    \<not> interrupted_cell c \<and> failures_of c = failures"
proof -
  have "find (\<lambda>v. pl_name v = pl_name w) (plan planSlice) = Some w"
    using assms names_distinct [of planSlice] by (simp add: find_Some_iff_mem)
  then show ?thesis
    by (simp add: loaded_at_def decoded_cell_def sample_files_def sample_cell_files_def coherent_def ran_as_planned_def
        measured_def verified_def perSecond_def interrupted_cell_def failures_of_def num_of_def
        ex_bool_eq)
qed

lemma subdirectories_all: "subdirectories (map (\<lambda>w. (pl_name w, True)) p) = map pl_name p"
  by (induction p) (simp_all add: subdirectories_def)

lemma sample_coherent: "coherent_matrix planSlice sample_listing (sample_files failures)"
proof -
  have "\<exists>entries. sample_listing = Some entries \<and> set (subdirectories entries) = set (map pl_name (plan planSlice))"
    by (simp add: sample_listing_def subdirectories_all)
  moreover have "\<forall>w \<in> set (plan planSlice). \<exists>c. loaded_at (sample_files failures) w = Some c \<and> coherent ''c0'' 10 w c"
    using sample_at by blast
  moreover have "\<exists>first repeat. loaded_at (sample_files failures) (hd (plan planSlice)) = Some first \<and>
      loaded_at (sample_files failures) (last (plan planSlice)) = Some repeat \<and> calm first repeat"
    using sample_at [OF hd_in_set [OF plan_nonempty], of failures] sample_at [OF last_in_set [OF plan_nonempty], of failures]
    by (force simp: calm_def controlRefuse_def)
  ultimately show ?thesis unfolding coherent_matrix_def by blast
qed

lemma sample_finite: "finite_rows (mx_cells (fst (read_matrix iter matrix planSlice sample_listing (sample_files failures))))"
proof -
  have "case rw_exhaustedRate (the (snd (line matrix w (the (loaded_at (sample_files failures) w))))) of
      Infinite _ \<Rightarrow> False | Finite _ \<Rightarrow> True" if w: "w \<in> set (butlast (plan planSlice))" for w
  proof -
    have "find (\<lambda>v. pl_name v = pl_name w) (plan planSlice) = Some w"
      using in_set_butlastD [OF w] names_distinct [of planSlice] by (simp add: find_Some_iff_mem)
    then show ?thesis
      using plan_in_grid [OF w]
      by (auto simp: loaded_at_def decoded_cell_def sample_files_def sample_cell_files_def line_def quot_def num_of_def Let_def)
  qed
  then show ?thesis by (simp add: coherent_rows(1) [OF sample_coherent] finite_rows_def list_all_iff)
qed

lemma slice_length: "length (plan planSlice) = 10"
  using arg_cong [OF slice_orders, of length] by simp

theorem rows_report_the_cells_witness:
  "length (mx_cells (fst (read_matrix in_order ''m'' planSlice sample_listing (sample_files 0)))) = 9"
  using list_all2_lengthD [OF rows_report_the_cells [OF sample_coherent [of 0], of in_order "''m''"]] slice_length by simp


section \<open>The crossings of the graph\<close>

lemma map_filter_set: "y \<in> set (List.map_filter f xs) \<longleftrightarrow> (\<exists>x \<in> set xs. f x = Some y)"
  by (force simp: List.map_filter_def)

text \<open>\<open>flips\<close>: \<open>w\<close> is behind \<open>l\<close> at the first contention and ahead of it at the second.\<close>

definition flips :: "(string \<Rightarrow> i64 \<Rightarrow> rat option) \<Rightarrow> i64 \<Rightarrow> i64 \<Rightarrow> string \<Rightarrow> string \<Rightarrow> bool" where
  "flips tp n n' w l \<longleftrightarrow>
     (\<exists>x y x' y'. tp w n = Some x \<and> tp l n = Some y \<and> x < y \<and> tp w n' = Some x' \<and> tp l n' = Some y' \<and> y' < x')"

lemma crossing_of_Some:
  "crossing_of tp between p = Some \<lparr>cx_between = (n, n'), cx_winner = w, cx_loser = l\<rparr> \<longleftrightarrow>
   between = (n, n') \<and> (p = (w, l) \<or> p = (l, w)) \<and> flips tp n n' w l"
proof -
  obtain k k' a b where "between = (k, k')" "p = (a, b)" by fastforce
  then show ?thesis
    by (cases "tp a k"; cases "tp b k"; cases "tp a k'"; cases "tp b k'") (auto simp: lead_def flips_def Let_def split: if_splits)
qed

lemma pairs_engines: "pairs engines = [(''optimistic'', ''pessimistic''), (''optimistic'', ''shard''), (''pessimistic'', ''shard'')]"
  by code_simp

lemma levels_adjacent: "zip levels (tl levels) = [(1, 10), (10, 1000)]"
  by (simp add: levels_def)

lemma crossings_mem:
  "\<lparr>cx_between = (n, n'), cx_winner = w, cx_loser = l\<rparr> \<in> set (crossings es ls tp) \<longleftrightarrow>
     (n, n') \<in> set (zip ls (tl ls)) \<and> ((w, l) \<in> set (pairs es) \<or> (l, w) \<in> set (pairs es)) \<and> flips tp n n' w l"
  unfolding crossings_def set_concat set_map UN_iff image_image map_filter_set crossing_of_Some
  by blast

text \<open>
  A crossing is a flip. The graph marks a crossing between two contentions, with a
  winner and a loser, exactly when the two are adjacent contentions and different engines, both have a number at
  both, and the winner was strictly behind at the lower contention and is strictly ahead at the higher:
  an absent number or a tie takes part in none.
\<close>
theorem crossings_mark_the_flips:
  "\<lparr>cx_between = (n, n'), cx_winner = w, cx_loser = l\<rparr> \<in> set (snd (graph m)) \<longleftrightarrow>
     ((n, n') = (1, 10) \<or> (n, n') = (10, 1000)) \<and> {w, l} \<subseteq> set engines \<and> w \<noteq> l \<and> flips (graph_at (mx_cells m)) n n' w l"
  unfolding graph_def Let_def snd_conv crossings_mem pairs_engines levels_adjacent
  by (auto simp: engines_def)

end
