(* ===== verification/Publication.thy ===== *)
theory Publication
  imports Matrix
begin

text \<open>
  What \<^verbatim>\<open>cmd/matrix\<close> prints and writes: the texts of the refusals, sorted (\<^verbatim>\<open>main.go\<close>), the warnings,
  the table, the main graph and the rest of \<^verbatim>\<open>matrix.md\<close>, and its publication (\<^verbatim>\<open>report.go\<close>).

  A document is the list of its lines. Parameters: the texts of the errors of the file system and
  of \<^verbatim>\<open>encoding/json\<close>, the verb \<^verbatim>\<open>%g\<close>, and \<open>gen\<close>, the time of publication as text.
\<close>

section \<open>The texts of the refusals (main.go, report.go)\<close>

definition short :: "string \<Rightarrow> string" where
  "short commit = (if 12 < length commit then take 12 commit else commit)"

definition rule_text :: "rule \<Rightarrow> string" where
  "rule_text r = (case r of R1 \<Rightarrow> ''R1'' | R2 \<Rightarrow> ''R2'' | R3 \<Rightarrow> ''R3'' | R4 \<Rightarrow> ''R4'' | R5 \<Rightarrow> ''R5'' | R6 \<Rightarrow> ''R6''
     | R7 \<Rightarrow> ''R7'' | R8 \<Rightarrow> ''R8'' | R9 \<Rightarrow> ''R9'')"

record refusal_texts =
  rx_dir :: string
  rx_listing :: string
  rx_read :: "string \<Rightarrow> string \<Rightarrow> string"
  rx_decode :: "string \<Rightarrow> string \<Rightarrow> string"
  rx_g :: "rat \<Rightarrow> string"

definition field_text :: "string \<Rightarrow> string" where
  "field_text label =
     (if label = ''cell'' then ''env.json sem o bloco cell''
      else if label \<in> {''cell.auctions'', ''cell.poolSize'', ''generator.saturated''} then ''env.json sem '' @ label
      else if label = ''durationMs'' then ''client.json sem durationMs: toda taxa por segundo sairia zero''
      else if label = ''confirmLatencyMs.p95'' then ''client.json sem confirmLatencyMs.p95''
      else ''client.json sem '' @ label @ '': ausente n'' @ a_tilde @ ''o pode ser lido como zero'')"

fun artefact_text :: "refusal_texts \<Rightarrow> string \<Rightarrow> string \<Rightarrow> read_error \<Rightarrow> string" where
  "artefact_text rx name file ReadFailed = ''read '' @ file @ '': '' @ rx_read rx name file"
| "artefact_text rx name file DecodeFailed = ''decode '' @ file @ '': '' @ rx_decode rx name file"
| "artefact_text rx name file (Missing names) = []"

fun reason_text :: "refusal_texts \<Rightarrow> string \<Rightarrow> reason \<Rightarrow> string" where
  "reason_text rx name Unlisted = ''n'' @ a_tilde @ ''o consegui ler '' @ rx_dir rx @ '': '' @ rx_listing rx"
| "reason_text rx name OutsideThePlan = ''diret'' @ o_acute @ ''rio fora do plano: c'' @ e_acute @ ''lula de origem desconhecida''"
| "reason_text rx name CellMissing = ''c'' @ e_acute @ ''lula faltando: uma matriz com lacuna n'' @ a_tilde @ ''o desenha curva''"
| "reason_text rx name (BadArtefact file e) = artefact_text rx name file e"
| "reason_text rx name NoExit = ''checker.json sem exit''"
| "reason_text rx name NotVerified = ''checker.json com exit 2: c'' @ e_acute @ ''lula n'' @ a_tilde @ ''o verificada''"
| "reason_text rx name (UnknownExit x) = ''checker.json com exit '' @ int_text (sint x) @ '': c'' @ o_acute @ ''digo desconhecido''"
| "reason_text rx name NoCounts = ''checker.json sem failures ou warnings''"
| "reason_text rx name ChaosBlock = ''bloco chaos presente: esta c'' @ e_acute @ ''lula mediu outro sistema''"
| "reason_text rx name NoGit = ''env.json sem git.commit ou git.dirty''"
| "reason_text rx name DirtyTree = ''medida de '' @ a_acute @ ''rvore suja (dirty: true)''"
| "reason_text rx name (OtherCommit commit from first) =
     ''commit '' @ short commit @ '', e '' @ from @ '' foi medida em '' @ short first"
| "reason_text rx name (NoField label) = field_text label"
| "reason_text rx name (Says field found wanted) =
     ''env.json diz '' @ field @ ''='' @ found @ '' e o diret'' @ o_acute @ ''rio diz '' @ wanted"
| "reason_text rx name (OtherPool n from pool) =
     ''poolSize '' @ int_text (sint n) @ '', e '' @ from @ '' mediu com '' @ int_text (sint pool)"
| "reason_text rx name (BadDuration ms) = ''durationMs='' @ rx_g rx ms @ '': toda taxa por segundo sairia infinita''"
| "reason_text rx name NothingAccepted = ''accepted=0: toda taxa da linha sai zero e tentativas/aceito divide por zero''"
| "reason_text rx name (UnknownScenario s) = ''cen'' @ a_acute @ ''rio desconhecido: '' @ s"
| "reason_text rx name ControlInterrupted =
     ''c'' @ e_acute @ ''lula do controle interrompida: um controle medido sobre uma janela truncada n'' @ a_tilde @ ''o '' @ e_acute @ '' um controle''"
| "reason_text rx name (ControlDiverged d) =
     ''controle divergiu '' @ percent 1 d @ '' (>'' @ percent 1 controlRefuse @
     ''): a dist'' @ a_circumflex @ ''ncia entre duas curvas do gr'' @ a_acute @ ''fico poderia ser inteiramente explicada pela ordem de execu'' @ c_cedilla @ a_tilde @ ''o''"

text \<open>\<open>refuse\<close>.\<close>

definition refusal_text :: "refusal_texts \<Rightarrow> refusal \<Rightarrow> string" where
  "refusal_text rx r =
     (case r of (i, name, reason) \<Rightarrow>
        rule_text i @ '' '' @ mid_dot @ (if name \<noteq> [] then '' '' @ name @ '':'' else []) @ '' '' @ reason_text rx name reason)"

text \<open>\<open>read\<close> sorts the texts last.\<close>

definition read_texts ::
  "iteration \<Rightarrow> refusal_texts \<Rightarrow> string \<Rightarrow> string \<Rightarrow> (string \<times> bool) list option \<Rightarrow> (string \<Rightarrow> cell_files) \<Rightarrow> matrix \<times> string list" where
  "read_texts iter rx matrix kind listing files =
     (case read_matrix iter matrix kind listing files of (m, refusals) \<Rightarrow> (m, sort (map (refusal_text rx) refusals)))"

section \<open>The document (report.go)\<close>

definition engineName :: "string \<Rightarrow> string" where
  "engineName strategy =
     (if strategy = ''optimistic'' then ''Otimista'' else if strategy = ''pessimistic'' then ''Pessimista''
      else if strategy = ''shard'' then ''Single-writer'' else [])"

definition dirtyWord :: "bool \<Rightarrow> string" where
  "dirtyWord dirty = (if dirty then ''SUJA'' else ''limpa'')"

definition num :: "rat option \<Rightarrow> string" where
  "num v = (case v of None \<Rightarrow> em_dash | Some x \<Rightarrow> fixed 2 x)"

definition infinity_text :: "bool \<Rightarrow> string" where
  "infinity_text up = (if up then ''+Inf'' else ''-Inf'')"

definition quotient_percent :: "quotient \<Rightarrow> string" where
  "quotient_percent q = (case q of Finite v \<Rightarrow> percent 1 v | Infinite up \<Rightarrow> infinity_text up @ ''%'')"

definition warning_text :: "row_warning \<Rightarrow> string" where
  "warning_text w =
     (case w of
        GeneratorSaturated \<Rightarrow> ''gerador saturado''
      | ExhaustionAbove q \<Rightarrow> ''exaust'' @ a_tilde @ ''o acima de 20%: '' @ quotient_percent q
      | InterruptedAfter seconds \<Rightarrow> ''interrompida em '' @ fixed 0 seconds @ ''s: n'' @ a_tilde @ ''o convergiu dentro do or'' @ c_cedilla @ ''amento'')"

definition warningCell :: "row \<Rightarrow> string" where
  "warningCell r =
     (let parts = map warning_text (rw_warnings r) @
        (if 0 <s rw_checker_warnings r
         then [plural (sint (rw_checker_warnings r)) ''aviso do checker'' ''avisos do checker''] else [])
      in if parts = [] then em_dash else joinNonEmpty parts ''; '')"

definition invariants_text :: "row \<Rightarrow> string" where
  "invariants_text r =
     (case invariants_column r of
        InvOK \<Rightarrow> ''OK''
      | InvFalha n \<Rightarrow> ''FALHA ('' @ int_text (sint n) @ '')''
      | NaoConvergiu \<Rightarrow> ''n'' @ a_tilde @ ''o convergiu'')"

definition row_cells :: "row \<Rightarrow> string list" where
  "row_cells r =
     [engineName (rw_strategy r), int_text (sint (rw_auctions r)), rw_policy r, int_text (int (rw_peakVUs r)),
      num (rw_acceptedPerSecond r), fixed 1 (rw_confirmP95Ms r), num (rw_conflictPerSecond r),
      num (rw_attemptsPerAccept r), quotient_percent (rw_exhaustedRate r), invariants_text r, warningCell r]"

definition table_line :: "string list \<Rightarrow> string" where
  "table_line cells = concat (map (\<lambda>s. ''| '' @ s @ '' '') cells) @ ''|''"

definition table_header :: "string list" where
  "table_header = [''Estrat'' @ e_acute @ ''gia'', ''Leil'' @ o_tilde @ ''es'', ''Retry'', ''VUs no pico'', ''Aceitos/s'', ''p95 confirma'' @ c_cedilla @ a_tilde @ ''o'',
     ''Conflitos/s'', ''Tentativas por aceito'', ''Exauridos'', ''Invariantes'', ''Avisos'']"

definition labelWidth :: nat where "labelWidth = 15"
definition columnWidth :: nat where "columnWidth = 14"

definition crossing_text :: "crossing \<Rightarrow> string" where
  "crossing_text c =
     ''cruzamento entre '' @ int_text (sint (fst (cx_between c))) @ '' e '' @ int_text (sint (snd (cx_between c))) @
     '' leil'' @ o_tilde @ ''es: '' @ engineName (cx_winner c) @ '' passa '' @ engineName (cx_loser c)"

definition graph_table :: "matrix \<Rightarrow> string list" where
  "graph_table m =
     (padRight [] labelWidth @ concat (map (\<lambda>n. padLeft (plural (sint n) (''leil'' @ a_tilde @ ''o'') (''leil'' @ o_tilde @ ''es'')) columnWidth) levels)) #
     map (\<lambda>(e, vs). padRight (engineName e) labelWidth @ concat (map (\<lambda>v. padLeft (num v) columnWidth) vs)) (fst (graph m))"

definition graph_lines :: "matrix \<Rightarrow> string list" where
  "graph_lines m =
     [[], ''## Gr'' @ a_acute @ ''fico principal'', [], ''```text'', ''aceitos/s por conten'' @ c_cedilla @ a_tilde @ ''o '' @ mid_dot @ '' ramp '' @ mid_dot @ '' immediate'', []] @ graph_table m @
     concat (map (\<lambda>c. [[], crossing_text c]) (snd (graph m))) @ [''```'']"

definition verdict_word :: "control_verdict \<Rightarrow> string" where
  "verdict_word v = (case v of ControlOK \<Rightarrow> ''OK'' | ControlAviso \<Rightarrow> ''AVISO'' | ControlRecusa \<Rightarrow> ''RECUSA'')"

definition control_text :: "control option \<Rightarrow> string" where
  "control_text b =
     (case b of
        None \<Rightarrow> ''N'' @ a_tilde @ ''o rodou: a c'' @ e_acute @ ''lula 01 ou a 37 n'' @ a_tilde @ ''o produziu n'' @ u_acute @ ''mero.''
      | Some c \<Rightarrow> ''A c'' @ e_acute @ ''lula 01 repetida por '' @ u_acute @ ''ltimo (37): '' @ fixed 2 (fst (co_acceptedPerSecond c)) @ '' vs '' @
          fixed 2 (snd (co_acceptedPerSecond c)) @ '' aceitos/s '' @ mid_dot @ '' diverg'' @ e_circumflex @ ''ncia '' @ percent 1 (co_divergence c) @ '' '' @ mid_dot @ '' **'' @
          verdict_word (co_verdict c) @ ''**'')"

definition warning_lines :: "matrix \<Rightarrow> string list" where
  "warning_lines m =
     map (\<lambda>d. ''controle divergente: '' @ percent 1 d) (mx_warnings m) @
     concat (map (\<lambda>r. map (\<lambda>w. ''c'' @ e_acute @ ''lula '' @ two_digits (rw_order r) @ '' '' @ mid_dot @ '' '' @ warning_text w) (rw_warnings r)) (mx_cells m))"

definition title_lines :: "string \<Rightarrow> matrix \<Rightarrow> string list" where
  "title_lines gen m =
     [''# Matriz '' @ mx_matrix m, [],
      ''Commit `'' @ short (fst (mx_git m)) @ ''` '' @ mid_dot @ '' '' @ a_acute @ ''rvore '' @ dirtyWord (snd (mx_git m)) @ '' '' @ mid_dot @ '' pool '' @
        int_text (sint (mx_poolSize m)) @ '' '' @ mid_dot @ '' '' @
        plural (int (length (mx_cells m))) (''c'' @ e_acute @ ''lula publicada'') (''c'' @ e_acute @ ''lulas publicadas'') @ '' '' @ mid_dot @ '' gerado em '' @ gen, []]"

definition table_lines :: "matrix \<Rightarrow> string list" where
  "table_lines m =
     table_line table_header # (concat (replicate 11 ''| --- '') @ ''|'') # map (\<lambda>r. table_line (row_cells r)) (mx_cells m)"

definition markdown :: "string \<Rightarrow> matrix \<Rightarrow> string list" where
  "markdown gen m =
     title_lines gen m @ table_lines m @ graph_lines m @
     [[], ''## Controle'', [], control_text (mx_control m), [], ''## Avisos'', []] @
     (let ws = warning_lines m in if ws = [] then [''Nenhum.''] else map (\<lambda>l. ''- '' @ l) ws)"

section \<open>The publication and the command (report.go, main.go)\<close>

text \<open>
  \<open>publish\<close> works on its own copy of the matrix, and stamps that one. Marshalling fails on the
  first infinite quotient; \<open>json_err\<close> and \<open>md_err\<close> are the errors of the two writes.
\<close>

datatype published_file = JsonFile string matrix | MdFile "string list"

definition first_infinity :: "row list \<Rightarrow> bool option" where
  "first_infinity rs =
     (case List.map_filter (\<lambda>r. case rw_exhaustedRate r of Infinite up \<Rightarrow> Some up | Finite v \<Rightarrow> None) rs of
        [] \<Rightarrow> None
      | up # ups \<Rightarrow> Some up)"

definition publish_files ::
  "string \<Rightarrow> matrix \<Rightarrow> string option \<Rightarrow> string option \<Rightarrow> published_file list \<times> string option" where
  "publish_files gen m json_err md_err =
     (case first_infinity (mx_cells m) of
        Some up \<Rightarrow> ([], Some (''json: unsupported value: '' @ infinity_text up))
      | None \<Rightarrow>
          (case json_err of
             Some e \<Rightarrow> ([], Some e)
           | None \<Rightarrow>
               (case md_err of
                  Some e \<Rightarrow> ([JsonFile gen m], Some e)
                | None \<Rightarrow> ([JsonFile gen m, MdFile (markdown gen m)], None))))"

definition not_publishable :: string where
  "not_publishable = ''matriz N'' @ A_tilde @ ''O PUBLIC'' @ A_acute @ ''VEL:''"

text \<open>\<open>execute\<close>: the exit code, the lines printed, the files written.\<close>

definition execute_output ::
  "iteration \<Rightarrow> refusal_texts \<Rightarrow> string \<Rightarrow> string \<Rightarrow> string \<Rightarrow> string \<Rightarrow> (string \<times> bool) list option \<Rightarrow> (string \<Rightarrow> cell_files)
   \<Rightarrow> string option \<Rightarrow> string option \<Rightarrow> nat \<times> string list \<times> published_file list" where
  "execute_output iter rx gen dir matrix kind listing files json_err md_err =
     (if dir = [] then (exitUnverifiable, [not_publishable, ''  -dir '' @ e_acute @ '' obrigat'' @ o_acute @ ''rio''], [])
      else if kind \<noteq> planFull \<and> kind \<noteq> planSlice
      then (exitUnverifiable,
            [not_publishable, ''  -plan '' @ e_acute @ '' '' @ planFull @ '' ou '' @ planSlice @ '', n'' @ a_tilde @ ''o '' @ quoted kind], [])
      else
        (case read_texts iter rx matrix kind listing files of (m, refusals) \<Rightarrow>
           if refusals \<noteq> []
           then (let said = not_publishable # map (\<lambda>r. ''  '' @ r) refusals
                 in if 0 <s mx_failures m
                    then (exitViolated,
                          said @ [''e '' @ plural (sint (mx_failures m)) (''c'' @ e_acute @ ''lula'') (''c'' @ e_acute @ ''lulas'') @ '' com invariante violado''], [])
                    else (exitUnverifiable, said, []))
           else
             (case publish_files gen m json_err md_err of
                (written, Some e) \<Rightarrow> (exitUnverifiable, [not_publishable, ''  '' @ e], written)
              | (written, None) \<Rightarrow>
                  (if 0 <s mx_failures m then exitViolated else exitOK, markdown [] m, written))))"

section \<open>The order of the ranges does not show\<close>

lemma mset_concat_map: "mset xs = mset ys \<Longrightarrow> mset (concat (map f xs)) = mset (concat (map f ys))"
  by (metis mset_concat mset_map multiset.map_comp sum_mset_sum_list)

lemma load_orders: "mset (fst (load iter files w)) = mset (fst (load iter' files w)) \<and> snd (load iter files w) = snd (load iter' files w)"
  unfolding load_def Let_def by (auto intro: mset_concat_map)

lemma load_all_orders:
  "mset (fst (load_all iter files present p)) = mset (fst (load_all iter' files present p)) \<and>
   snd (load_all iter files present p) = snd (load_all iter' files present p)"
proof (induction p)
  case (Cons w p)
  then show ?case
    using load_orders [of iter files w iter']
    by (cases "load iter files w"; cases "load iter' files w"; cases "load_all iter files present p";
        cases "load_all iter' files present p") (auto split: option.split)
qed simp

lemma client_orders: "mset (client_refusals iter name c) = mset (client_refusals iter' name c)"
  by (simp add: client_refusals_def)

lemma cohere_orders:
  "mset (fst (cohere iter w c s)) = mset (fst (cohere iter' w c s)) \<and> snd (cohere iter w c s) = snd (cohere iter' w c s)"
  using client_orders [of iter "pl_name w" "ld_client c" iter'] by (simp add: cohere_def Let_def case_prod_unfold)

lemma coherence_orders:
  "mset (fst (checkCoherence iter cells s)) = mset (fst (checkCoherence iter' cells s)) \<and>
   snd (checkCoherence iter cells s) = snd (checkCoherence iter' cells s)"
proof (induction cells arbitrary: s)
  case (Cons wc cells)
  obtain w c where wc: "wc = (w, c)" by (cases wc)
  show ?case
    using cohere_orders [of iter w c s iter'] Cons.IH [of "snd (cohere iter' w c s)"]
    by (simp add: wc case_prod_unfold)
qed simp

lemma read_orders:
  "mset (snd (read_matrix iter matrix kind listing files)) = mset (snd (read_matrix iter' matrix kind listing files)) \<and>
   fst (read_matrix iter matrix kind listing files) = fst (read_matrix iter' matrix kind listing files)"
proof -
  define present where "present = snd (checkDirectories (plan kind) listing)"
  note l = load_all_orders [of iter files present "plan kind" iter']
  note c = coherence_orders [of iter "snd (load_all iter' files present (plan kind))" nothing_seen iter']
  have same: "mset (snd (read_matrix iter matrix kind listing files)) = mset (snd (read_matrix iter' matrix kind listing files))"
    using l c by (simp add: read_matrix_def Let_def case_prod_unfold present_def)
  have "fst (load_all iter files present (plan kind)) = [] \<longleftrightarrow> fst (load_all iter' files present (plan kind)) = []"
    using l by (metis mset_zero_iff)
  moreover have "fst (checkCoherence iter (snd (load_all iter' files present (plan kind))) nothing_seen) = [] \<longleftrightarrow>
      fst (checkCoherence iter' (snd (load_all iter' files present (plan kind))) nothing_seen) = []"
    using c by (metis mset_zero_iff)
  ultimately have "fst (read_matrix iter matrix kind listing files) = fst (read_matrix iter' matrix kind listing files)"
    using l by (simp add: read_matrix_def Let_def case_prod_unfold present_def)
  with same show ?thesis by blast
qed

lemma sort_mset: "mset xs = mset ys \<Longrightarrow> sort xs = sort ys"
  by (rule properties_for_sort) simp_all

lemma texts_orders: "read_texts iter rx matrix kind listing files = read_texts iter' rx matrix kind listing files"
proof -
  have "mset (map (refusal_text rx) (snd (read_matrix iter matrix kind listing files))) =
      mset (map (refusal_text rx) (snd (read_matrix iter' matrix kind listing files)))"
    using read_orders by (metis mset_map)
  from sort_mset [OF this] show ?thesis
    using read_orders [of iter matrix kind listing files iter'] by (simp add: read_texts_def case_prod_unfold)
qed

text \<open>The exit code, and whether the files were written, are those of \<open>execute_matrix\<close> and \<open>publish\<close>.\<close>

lemma first_infinity_None: "first_infinity rs = None \<longleftrightarrow> finite_rows rs"
  by (induction rs) (auto simp: first_infinity_def finite_rows_def List.map_filter_simps split: quotient.splits list.splits)

lemma publish_files_ok:
  "snd (publish_files gen m json_err md_err) = None \<longleftrightarrow> snd (publish m (json_err = None) (md_err = None))"
  unfolding publish_ok
  using first_infinity_None [of "mx_cells m"] by (auto simp: publish_files_def split: option.split)

lemma output_code:
  "fst (execute_output iter rx gen dir matrix kind listing files json_err md_err) =
     fst (execute_matrix iter dir matrix kind listing files (json_err = None) (md_err = None))"
proof -
  obtain m rs where r: "read_matrix iter matrix kind listing files = (m, rs)" by fastforce
  obtain written e where p: "publish_files gen m json_err md_err = (written, e)" by fastforce
  obtain written' ok where q: "publish m (json_err = None) (md_err = None) = (written', ok)" by fastforce
  have "e = None \<longleftrightarrow> ok" using publish_files_ok [of gen m json_err md_err] p q by simp
  moreover have "sort (map (refusal_text rx) rs) = [] \<longleftrightarrow> rs = []"
    by (metis length_0_conv length_map length_sort)
  ultimately have good: "fst (execute_output iter rx gen dir matrix kind listing files json_err md_err) =
      fst (execute_matrix iter dir matrix kind listing files (json_err = None) (md_err = None))"
    if d: "dir \<noteq> []" and k: "\<not> (kind \<noteq> planFull \<and> kind \<noteq> planSlice)"
    unfolding execute_output_def execute_matrix_def if_not_P [OF d] if_not_P [OF k] read_texts_def r prod.case
    by (cases e) (auto simp: p q Let_def)
  show ?thesis
  proof (cases "dir = [] \<or> kind \<noteq> planFull \<and> kind \<noteq> planSlice")
    case True
    then show ?thesis by (auto simp: execute_output_def execute_matrix_def)
  qed (use good in blast)
qed

text \<open>
  Claim C20. Two runs over the same directory report the same thing in the same order. Whatever the
  orders in which the two runs range over the maps of a cell, they end with the same exit code,
  print the same lines and write the same files; and the refusals are reported all of them, each as
  many times as it was made, in the order of their bytes, and with the exit code of \<open>execute_matrix\<close>.
\<close>
theorem runs_report_the_same:
  "execute_output iter rx gen dir matrix kind listing files json_err md_err =
     execute_output iter' rx gen dir matrix kind listing files json_err md_err \<and>
   fst (execute_output iter rx gen dir matrix kind listing files json_err md_err) =
     fst (execute_matrix iter'' dir matrix kind listing files (json_err = None) (md_err = None)) \<and>
   sorted (snd (read_texts iter rx matrix kind listing files)) \<and>
   mset (snd (read_texts iter rx matrix kind listing files)) =
     image_mset (refusal_text rx) (mset (snd (read_matrix iter'' matrix kind listing files)))"
proof (intro conjI)
  show same: "execute_output iter rx gen dir matrix kind listing files json_err md_err =
     execute_output iter' rx gen dir matrix kind listing files json_err md_err" for iter'
    unfolding execute_output_def texts_orders [of iter rx matrix kind listing files iter'] by (rule refl)
  show "fst (execute_output iter rx gen dir matrix kind listing files json_err md_err) =
     fst (execute_matrix iter'' dir matrix kind listing files (json_err = None) (md_err = None))"
    unfolding same [of iter''] by (rule output_code)
  show "sorted (snd (read_texts iter rx matrix kind listing files))"
    by (simp add: read_texts_def case_prod_unfold)
  show "mset (snd (read_texts iter rx matrix kind listing files)) =
     image_mset (refusal_text rx) (mset (snd (read_matrix iter'' matrix kind listing files)))"
    using read_orders [of iter matrix kind listing files iter''] by (simp add: read_texts_def case_prod_unfold)
qed

section \<open>The table reads back\<close>

text \<open>A line of the table, cut at its bars, each piece without the space on either side.\<close>

definition read_table_line :: "string \<Rightarrow> string list" where
  "read_table_line s = map (\<lambda>p. butlast (tl p)) (butlast (tl (split_at (CHR ''|'') s)))"

lemma split_pieces:
  "c \<notin> set q \<Longrightarrow> \<forall>p \<in> set ps. c \<notin> set p \<Longrightarrow>
   split_at c (q @ concat (map (\<lambda>p. c # p) ps) @ [c]) = q # ps @ [[]]"
  by (induction ps arbitrary: q) (simp_all add: split_at_append)

lemma read_table:
  assumes "\<forall>s \<in> set cells. CHR ''|'' \<notin> set s"
  shows "read_table_line (table_line cells) = cells"
proof -
  have line: "table_line cells = [] @ concat (map (\<lambda>p. CHR ''|'' # p) (map (\<lambda>s. '' '' @ s @ '' '') cells)) @ [CHR ''|'']"
    by (simp add: table_line_def comp_def)
  have "split_at (CHR ''|'') (table_line cells) = [] # map (\<lambda>s. '' '' @ s @ '' '') cells @ [[]]"
    unfolding line using assms by (intro split_pieces) auto
  then show ?thesis by (simp add: read_table_line_def comp_def)
qed

text \<open>No text of a cell has a bar in it.\<close>

lemma digits_no_bar: "\<forall>c \<in> set s. is_digit c \<Longrightarrow> CHR ''|'' \<notin> set s"
  by (auto simp: is_digit_def)

lemma number_no_bar [simp]:
  "CHR ''|'' \<notin> set (decimal n)" "CHR ''|'' \<notin> set (int_text z)" "CHR ''|'' \<notin> set (fixed p v)"
  "CHR ''|'' \<notin> set (percent p v)" "CHR ''|'' \<notin> set (num w)" "CHR ''|'' \<notin> set (quotient_percent q)"
proof -
  show d: "CHR ''|'' \<notin> set (decimal n)" for n by (rule digits_no_bar [OF decimal_digits(1)])
  then show "CHR ''|'' \<notin> set (int_text z)" by (simp add: int_text_def)
  have l: "CHR ''|'' \<notin> set (last_digits p n)" for p n by (rule digits_no_bar [OF last_digits_props(2)])
  show f: "CHR ''|'' \<notin> set (fixed p v)" for p v using d l by (simp add: fixed_def Let_def)
  show p: "CHR ''|'' \<notin> set (percent p v)" for p v
    using f [of p "v * 100"] TrimRight_set [of "CHR ''.''" "TrimRight (CHR ''0'') (fixed p (v * 100))"]
      TrimRight_set [of "CHR ''0''" "fixed p (v * 100)"]
    by (auto simp: percent_def)
  show "CHR ''|'' \<notin> set (num w)" using f by (simp add: num_def split: option.split)
  show "CHR ''|'' \<notin> set (quotient_percent q)" using p by (simp add: quotient_percent_def infinity_text_def split: quotient.split)
qed

lemma warning_text_head: "\<exists>c cs. warning_text w = c # cs \<and> c \<noteq> CHR 0xE2"
  by (cases w) (simp_all add: warning_text_def)

lemma warning_text_bar: "CHR ''|'' \<notin> set (warning_text w)"
  by (cases w) (simp_all add: warning_text_def)

lemma plural_head: "\<exists>c cs. plural n one many = c # cs \<and> c \<noteq> CHR 0xE2"
proof -
  have "\<exists>c cs. int_text n = c # cs \<and> c \<noteq> CHR 0xE2"
    using decimal_head [of "nat \<bar>n\<bar>"] by (cases "decimal (nat \<bar>n\<bar>)") (auto simp: int_text_def is_digit_def)
  then show ?thesis by (auto simp: plural_def)
qed

definition warning_parts :: "row \<Rightarrow> string list" where
  "warning_parts r = map warning_text (rw_warnings r) @
    (if 0 <s rw_checker_warnings r
     then [plural (sint (rw_checker_warnings r)) ''aviso do checker'' ''avisos do checker''] else [])"

lemma warning_parts_each: "p \<in> set (warning_parts r) \<Longrightarrow> CHR ''|'' \<notin> set p \<and> (\<exists>c cs. p = c # cs \<and> c \<noteq> CHR 0xE2)"
proof -
  have "CHR ''|'' \<notin> set (plural n ''aviso do checker'' ''avisos do checker'')" for n by (simp add: plural_def)
  then show "p \<in> set (warning_parts r) \<Longrightarrow> CHR ''|'' \<notin> set p \<and> (\<exists>c cs. p = c # cs \<and> c \<noteq> CHR 0xE2)"
    using warning_text_head warning_text_bar plural_head unfolding warning_parts_def by (auto split: if_splits)
qed

lemma join_head: "\<exists>x. join sep (p # ps) = p @ x"
  by (cases ps) auto

lemma warningCell_parts:
  "warningCell r = (if warning_parts r = [] then em_dash else join ''; '' (warning_parts r))"
proof -
  have "filter (\<lambda>p. p \<noteq> []) (warning_parts r) = warning_parts r"
    using warning_parts_each by (fastforce simp: filter_id_conv)
  then show ?thesis by (simp only: warningCell_def warning_parts_def Let_def joinNonEmpty_def)
qed

lemma warningCell_dash: "warningCell r = em_dash \<longleftrightarrow> rw_warnings r = [] \<and> \<not> 0 <s rw_checker_warnings r"
proof -
  have "join ''; '' (warning_parts r) \<noteq> em_dash" if some: "warning_parts r \<noteq> []"
  proof -
    obtain p ps where p: "warning_parts r = p # ps" using some by (cases "warning_parts r") auto
    then show ?thesis using warning_parts_each [of p r] join_head [of "''; ''" p ps] by auto
  qed
  then show ?thesis unfolding warningCell_parts by (auto simp: warning_parts_def)
qed

lemma warning_no_bar: "CHR ''|'' \<notin> set (warningCell r)"
  unfolding warningCell_parts
  using join_set [of "''; ''" "warning_parts r"] warning_parts_each by auto

lemma cells_no_bar: "CHR ''|'' \<notin> set (rw_policy r) \<Longrightarrow> \<forall>s \<in> set (row_cells r). CHR ''|'' \<notin> set s"
  using warning_no_bar [of r]
  by (simp add: row_cells_def engineName_def invariants_text_def split: invariants_cell.split)

text \<open>What a row's cells say of it: an absent number is a dash, the others are near.\<close>

definition absent_or_near :: "rat option \<Rightarrow> string \<Rightarrow> bool" where
  "absent_or_near v s =
     (case v of None \<Rightarrow> s = em_dash | Some x \<Rightarrow> s \<noteq> em_dash \<and> \<bar>read_signed s - x\<bar> \<le> 1 / 200)"

lemma num_near: "absent_or_near v (num v)"
proof (cases v)
  case (Some x)
  have "fixed 2 x \<noteq> em_dash" using fixed_head [of 2 x] by (auto simp: is_digit_def)
  then show ?thesis using fixed_near [of 2 x] by (simp add: absent_or_near_def num_def Some)
qed (simp add: absent_or_near_def num_def)

definition row_read_back :: "row \<Rightarrow> string list \<Rightarrow> bool" where
  "row_read_back r cs \<longleftrightarrow>
     length cs = 11 \<and> cs ! 0 = engineName (rw_strategy r) \<and> read_signed (cs ! 1) = num_of (rw_auctions r) \<and>
     cs ! 2 = rw_policy r \<and> read_signed (cs ! 3) = of_nat (rw_peakVUs r) \<and>
     absent_or_near (rw_acceptedPerSecond r) (cs ! 4) \<and> \<bar>read_signed (cs ! 5) - rw_confirmP95Ms r\<bar> \<le> 1 / 20 \<and>
     absent_or_near (rw_conflictPerSecond r) (cs ! 6) \<and> absent_or_near (rw_attemptsPerAccept r) (cs ! 7) \<and>
     (case rw_exhaustedRate r of
        Finite v \<Rightarrow> \<bar>read_signed (butlast (cs ! 8)) - 100 * v\<bar> \<le> 1 / 20
      | Infinite up \<Rightarrow> cs ! 8 = infinity_text up @ ''%'') \<and>
     (cs ! 9 = ''OK'' \<longleftrightarrow> \<not> 0 <s rw_checker_failures r \<and> \<not> rw_interrupted r) \<and>
     (cs ! 10 = em_dash \<longleftrightarrow> rw_warnings r = [] \<and> \<not> 0 <s rw_checker_warnings r)"

lemma cells_read_back: "row_read_back r (row_cells r)"
proof -
  have "invariants_text r = ''OK'' \<longleftrightarrow> \<not> 0 <s rw_checker_failures r \<and> \<not> rw_interrupted r"
    by (simp add: invariants_text_def invariants_column_def)
  moreover have "case rw_exhaustedRate r of
      Finite v \<Rightarrow> \<bar>read_signed (butlast (quotient_percent (rw_exhaustedRate r))) - 100 * v\<bar> \<le> 1 / 20
    | Infinite up \<Rightarrow> quotient_percent (rw_exhaustedRate r) = infinity_text up @ ''%''"
    using percent_near [of 1] by (simp add: quotient_percent_def split: quotient.split)
  moreover have "\<bar>read_signed (fixed 1 (rw_confirmP95Ms r)) - rw_confirmP95Ms r\<bar> \<le> 1 / 20"
    using fixed_near [of 1] by simp
  ultimately show ?thesis
    unfolding row_read_back_def row_cells_def
    by (cases "rw_exhaustedRate r") (simp_all add: nth_Cons_numeral int_reads num_of_def num_near warningCell_dash)
qed

text \<open>The rows come from the plan.\<close>

lemma load_all_plan: "(w, c) \<in> set (snd (load_all iter files present p)) \<Longrightarrow> w \<in> set p"
  by (induction p) (auto split: prod.splits if_splits option.splits)

lemma rows_plan: "r \<in> set (snd (snd (rows matrix cells))) \<Longrightarrow> \<exists>w c. (w, c) \<in> set cells \<and> rw_policy r = pl_policy w"
proof (induction cells)
  case (Cons wc cells)
  obtain w c where wc: "wc = (w, c)" by (cases wc)
  show ?case
  proof (cases "r \<in> set (snd (snd (rows matrix cells)))")
    case False
    then have "snd (line matrix w c) = Some r"
      using Cons.prems by (auto simp: wc Let_def split: prod.splits if_splits option.splits)
    then have "rw_policy r = pl_policy w" by (auto simp: line_def Let_def split: option.splits if_splits)
    then show ?thesis using wc by auto
  qed (use Cons.IH wc in auto)
qed simp

lemma matrix_rows: "mx_cells (fst (read_matrix iter matrix kind listing files)) =
    snd (snd (rows matrix (snd (load_all iter files (snd (checkDirectories (plan kind) listing)) (plan kind)))))"
proof -
  have stamps: "mx_cells (stamp cs m) = mx_cells m" for cs m
    by (induction cs m rule: stamp.induct) (auto split: option.splits)
  show ?thesis by (simp add: read_matrix_def Let_def case_prod_unfold stamps)
qed

lemma plan_policies: "w \<in> set (plan kind) \<Longrightarrow> CHR ''|'' \<notin> set (pl_policy w)"
proof -
  assume "w \<in> set (plan kind)"
  then have "w \<in> set (plan planFull)"
    by (cases "kind = planSlice") (simp_all add: plan_slice plan_other)
  then have "coordinates w \<in> set (map coordinates (plan planFull))" by simp
  then have "pl_policy w \<in> {''immediate'', ''jitter''}" unfolding plan_all by (auto simp: coordinates_def)
  then show "CHR ''|'' \<notin> set (pl_policy w)" by auto
qed

lemma rows_read_back:
  assumes "r \<in> set (mx_cells (fst (read_matrix iter matrix kind listing files)))"
  shows "row_read_back r (read_table_line (table_line (row_cells r)))"
proof -
  obtain w c where "(w, c) \<in> set (snd (load_all iter files (snd (checkDirectories (plan kind) listing)) (plan kind)))"
      "rw_policy r = pl_policy w"
    using rows_plan assms unfolding matrix_rows by blast
  then have "CHR ''|'' \<notin> set (rw_policy r)" using load_all_plan plan_policies by metis
  then show ?thesis by (simp add: read_table cells_no_bar cells_read_back)
qed

text \<open>
  Claim C26. The published table reads back. Of any directory and whatever the numbers, the document
  holds the header, the rule and one line per row of the matrix; each line cut at its bars has the eleven
  columns of the header, and they say what the row is: the engine, the contention, the policy and
  the peak load, the three rates to half a hundredth, a dash and never a number where the rate is
  absent, the 95th percentile and the share of exhausted bids to a twentieth, OK exactly when no
  invariant failed and the cell was not interrupted, and a dash exactly when there is no warning.
\<close>
theorem published_table_reads_back:
  "let m = fst (read_matrix iter matrix kind listing files)
   in \<exists>before rule lines after.
        markdown gen m = before @ table_line table_header # rule # lines @ after \<and>
        read_table_line (table_line table_header) = table_header \<and> length (read_table_line rule) = 11 \<and>
        list_all2 row_read_back (mx_cells m) (map read_table_line lines)"
proof -
  define m where "m = fst (read_matrix iter matrix kind listing files)"
  define rule where "rule = concat (replicate 11 ''| --- '') @ ''|''"
  have "rule = table_line (replicate 11 ''---'')" by (simp add: rule_def table_line_def eval_nat_numeral)
  then have "length (read_table_line rule) = 11" by (simp add: read_table)
  moreover have "read_table_line (table_line table_header) = table_header" by (rule read_table) (simp add: table_header_def)
  moreover have "list_all2 row_read_back (mx_cells m) (map read_table_line (map (\<lambda>r. table_line (row_cells r)) (mx_cells m)))"
    using rows_read_back unfolding m_def by (simp add: list_all2_map2 list_all2_same)
  moreover have "markdown gen m = title_lines gen m @ table_line table_header # rule # map (\<lambda>r. table_line (row_cells r)) (mx_cells m) @
      (graph_lines m @ [[], ''## Controle'', [], control_text (mx_control m), [], ''## Avisos'', []] @
       (let ws = warning_lines m in if ws = [] then [''Nenhum.''] else map (\<lambda>l. ''- '' @ l) ws))"
    by (simp only: markdown_def table_lines_def rule_def append_assoc append_Cons append_Nil)
  ultimately show ?thesis unfolding Let_def m_def [symmetric] by blast
qed

section \<open>The columns of the graph\<close>

lemma decimal_length: "n < 10 ^ Suc k \<Longrightarrow> length (decimal n) \<le> Suc k"
proof (induction k arbitrary: n)
  case (Suc k)
  then have "n div 10 < 10 ^ Suc k" by (simp add: less_mult_imp_div_less)
  from Suc.IH [OF this] show ?case by (subst decimal.simps) simp
qed (simp add: decimal.simps)

lemma digit_starts: "is_digit c \<Longrightarrow> starts_rune c"
  by (simp add: is_digit_def starts_rune_def Let_def)

lemma rune_count_digits: "\<forall>c \<in> set s. is_digit c \<Longrightarrow> rune_count s = length s"
  by (simp add: rune_count_def digit_starts)

lemma num_width:
  assumes "\<forall>x. v = Some x \<longrightarrow> \<bar>x\<bar> < 10 ^ 9"
  shows "rune_count (num v) \<le> columnWidth"
proof (cases v)
  case (Some x)
  define n where "n = scaled 2 x"
  have "of_nat n / 100 \<le> \<bar>x\<bar> + 1 / 200" using abs_le_D1 [OF scaled_near [of 2 x]] by (simp add: n_def)
  then have "(of_nat n :: rat) < of_nat (100 * 10 ^ 9 + 100)" using assms Some by simp
  then have "n < 100 * 10 ^ 9 + 100" by (simp only: of_nat_less_iff)
  then have "n div 10 ^ 2 < 10 ^ Suc 9" by (simp add: less_mult_imp_div_less)
  then have "length (decimal (n div 10 ^ 2)) \<le> 10" using decimal_length by fastforce
  moreover have "rune_count (fixed 2 x) = (if x < 0 then 1 else 0) + length (decimal (n div 10 ^ 2)) + 3"
    using decimal_digits(1) [of "n div 10 ^ 2"] last_digits_props(1,2) [of 2 n]
    by (simp add: fixed_def n_def [symmetric] Let_def rune_count_digits starts_rune_def)
  ultimately show ?thesis by (simp add: num_def Some columnWidth_def)
qed (simp add: num_def columnWidth_def starts_rune_def)

lemma rune_count_concat: "rune_count (concat ss) = sum_list (map rune_count ss)"
  by (induction ss) simp_all

lemma decimal_small: "decimal 1 = ''1''" "decimal (Suc 0) = ''1''" "decimal 10 = ''10''" "decimal 1000 = ''1000''"
  by code_simp+

text \<open>
  Every line of the graph is as wide as every other, in runes, as long as no throughput reaches a
  thousand million.
\<close>

lemma graph_is_aligned:
  assumes "\<forall>e n x. graph_at (mx_cells m) e n = Some x \<longrightarrow> \<bar>x\<bar> < 10 ^ 9"
  shows "\<forall>l \<in> set (graph_table m). rune_count l = labelWidth + 3 * columnWidth"
proof -
  have names: "rune_count (engineName e) \<le> labelWidth" for e
    by (simp add: engineName_def labelWidth_def starts_rune_def)
  have width: "max columnWidth (rune_count (num (graph_at (mx_cells m) e n))) = columnWidth" for e n
    using num_width [of "graph_at (mx_cells m) e n"] assms by (simp add: max_absorb1)
  have header: "rune_count (plural (sint n) (''leil'' @ a_tilde @ ''o'') (''leil'' @ o_tilde @ ''es'')) \<le> columnWidth" if "n \<in> set levels" for n
    using that by (auto simp: levels_def plural_def int_text_def decimal_small columnWidth_def starts_rune_def)
  then have head: "max columnWidth (rune_count (plural (sint n) (''leil'' @ a_tilde @ ''o'') (''leil'' @ o_tilde @ ''es''))) = columnWidth" if "n \<in> set levels" for n
    using that by (simp add: max_absorb1)
  have three: "sum_list (map (\<lambda>n. columnWidth) levels) = 3 * columnWidth" by (simp add: levels_def)
  have "sum_list (map (\<lambda>n. rune_count (padLeft (plural (sint n) (''leil'' @ a_tilde @ ''o'') (''leil'' @ o_tilde @ ''es'')) columnWidth)) levels) =
      sum_list (map (\<lambda>n. columnWidth) levels)"
    using head by (intro arg_cong [of _ _ sum_list] map_cong refl) (simp only: runes_padded)
  moreover have "sum_list (map (\<lambda>n. rune_count (padLeft (num (graph_at (mx_cells m) e n)) columnWidth)) levels) =
      sum_list (map (\<lambda>n. columnWidth) levels)" for e
    using width by (intro arg_cong [of _ _ sum_list] map_cong refl) (simp only: runes_padded)
  ultimately show ?thesis
    using names
    by (simp add: graph_table_def graph_def Let_def rune_count_concat runes_padded comp_def three max_absorb1)
qed

section \<open>What the reader is told, and what the files say\<close>

lemma markdown_time: "markdown gen m = markdown gen' m \<longleftrightarrow> gen = gen'"
  by (simp add: markdown_def title_lines_def)

text \<open>
  The table that is printed is not the one that is written: \<open>publish\<close> stamps its own copy of the
  matrix, so the line \<open>gerado em\<close> of the printed table has no time.
\<close>

theorem printed_table_has_no_time:
  assumes "execute_output iter rx gen dir matrix kind listing files json_err md_err = (code, printed, written)"
    and "MdFile doc \<in> set written"
  shows "\<exists>m. doc = markdown gen m \<and> printed = markdown [] m \<and> (gen \<noteq> [] \<longrightarrow> printed \<noteq> doc)"
proof -
  obtain m rs where r: "read_texts iter rx matrix kind listing files = (m, rs)" by fastforce
  obtain ws e where p: "publish_files gen m json_err md_err = (ws, e)" by fastforce
  have some: "written \<noteq> []" using assms(2) by auto
  have d: "dir \<noteq> []" using assms(1) some by (auto simp: execute_output_def)
  have k: "\<not> (kind \<noteq> planFull \<and> kind \<noteq> planSlice)"
  proof
    assume bad: "kind \<noteq> planFull \<and> kind \<noteq> planSlice"
    have "written = []"
      using assms(1) unfolding execute_output_def if_not_P [OF d] if_P [OF bad] by (simp only: prod.inject)
    then show False using some by blast
  qed
  have rs: "\<not> rs \<noteq> []"
  proof
    assume bad: "rs \<noteq> []"
    have "written = []"
      using assms(1) unfolding execute_output_def if_not_P [OF d] if_not_P [OF k] r prod.case if_P [OF bad] Let_def
      by (simp only: prod.inject split: if_splits)
    then show False using some by blast
  qed
  note run = assms(1) [unfolded execute_output_def if_not_P [OF d] if_not_P [OF k] r prod.case if_not_P [OF rs] p]
  have "MdFile doc \<in> set ws" using run assms(2) by (cases e) simp_all
  then have "doc = markdown gen m" and "e = None"
    using p unfolding publish_files_def by (auto split: option.splits)
  then have "doc = markdown gen m \<and> printed = markdown [] m" using run by simp
  then show ?thesis using markdown_time [of "[]" m gen] by (intro exI [of _ m]) simp
qed

text \<open>
  The last line of a refused matrix with failures counts the violated invariants of the cells that
  loaded, and calls them cells.
\<close>

lemma rows_failures: "fst (snd (rows matrix cells)) = sum_list (map (\<lambda>(w, c). failures_of c) cells)"
  by (induction cells) (auto simp: failures_of_def Let_def split: prod.splits option.splits)

lemma matrix_failures: "mx_failures (fst (read_matrix iter matrix kind listing files)) =
    sum_list (map (\<lambda>(w, c). failures_of c) (snd (load_all iter files (snd (checkDirectories (plan kind) listing)) (plan kind))))"
proof -
  have stamps: "mx_failures (stamp cs m) = mx_failures m" for cs m
    by (induction cs m rule: stamp.induct) (auto split: option.splits)
  show ?thesis by (simp add: read_matrix_def Let_def case_prod_unfold stamps rows_failures)
qed

theorem failures_are_told_as_cells:
  assumes "dir \<noteq> []" and "kind = planFull \<or> kind = planSlice"
    and "snd (read_matrix iter matrix kind listing files) \<noteq> []"
    and "violated = sum_list (map (\<lambda>(w, c). failures_of c)
      (snd (load_all iter files (snd (checkDirectories (plan kind) listing)) (plan kind))))" and "0 <s violated"
  shows "last (fst (snd (execute_output iter rx gen dir matrix kind listing files json_err md_err))) =
    ''e '' @ plural (sint violated) (''c'' @ e_acute @ ''lula'') (''c'' @ e_acute @ ''lulas'') @ '' com invariante violado''"
proof -
  have m: "mx_failures (fst (read_matrix iter matrix kind listing files)) = violated"
    by (simp add: matrix_failures assms(4))
  obtain m' rs where r: "read_matrix iter matrix kind listing files = (m', rs)" by fastforce
  have "sort (map (refusal_text rx) rs) \<noteq> []" using assms(3) r by (metis length_0_conv length_map length_sort snd_conv)
  moreover have k: "\<not> (kind \<noteq> planFull \<and> kind \<noteq> planSlice)" using assms(2) by blast
  ultimately show ?thesis
    unfolding execute_output_def if_not_P [OF assms(1)] if_not_P [OF k] read_texts_def r prod.case
    using assms(5) m r by (simp add: Let_def)
qed

end
