(* ===== verification/Boot.thy ===== *)
theory Boot
  imports Service Go_Text
begin

text \<open>
  What a process does before the first bid: \<^verbatim>\<open>internal/config/config.go\<close>, the clients of
  \<^verbatim>\<open>internal/db/pool.go\<close> and \<^verbatim>\<open>redis.go\<close>, the schema guard of
  \<^verbatim>\<open>internal/db/schema.go\<close>, the strategy switch of \<^verbatim>\<open>internal/app/engine.go\<close>, the boot sequence of
  \<^verbatim>\<open>cmd/auctiond/main.go\<close>, and \<^verbatim>\<open>cmd/seed\<close>, which fills the auctions of a cell.

  Parameters of the model: the environment variables (an unset one reads as empty), what the two
  drivers answer to a URL, a configuration and a ping (\<open>drivers\<close>), and the ids of \<^verbatim>\<open>uuid.New\<close>.
\<close>

section \<open>Numbers of the environment (strconv.Atoi)\<close>

definition digit :: "char \<Rightarrow> nat option" where
  "digit c = (let n = of_char c :: nat in if 48 \<le> n \<and> n \<le> 57 then Some (n - 48) else None)"

fun digits :: "nat \<Rightarrow> string \<Rightarrow> nat option" where
  "digits acc [] = Some acc"
| "digits acc (c # cs) = (case digit c of None \<Rightarrow> None | Some k \<Rightarrow> digits (10 * acc + k) cs)"

text \<open>
  \<^verbatim>\<open>strconv.Atoi\<close> on a 64-bit platform: an optional sign, at least one digit, nothing else, and an
  error when the value leaves \<open>int\<close>.
\<close>

definition Atoi :: "string \<Rightarrow> i64 option" where
  "Atoi s =
     (let (negative, ds) = (if s \<noteq> [] \<and> hd s = CHR ''-'' then (True, tl s)
                            else if s \<noteq> [] \<and> hd s = CHR ''+'' then (False, tl s) else (False, s))
      in if ds = [] then None
         else (case digits 0 ds of
                 None \<Rightarrow> None
               | Some n \<Rightarrow>
                   (let v = (if negative then - int n else int n)
                    in if - (2 ^ 63) \<le> v \<and> v < 2 ^ 63 then Some (word_of_int v) else None)))"

section \<open>The configuration (config.go)\<close>

record config =
  cfg_database_url :: string
  cfg_redis_url :: string
  cfg_http_addr :: string
  cfg_pool_size :: "32 word"
  cfg_strategy :: string

datatype config_error = DatabaseUrlRequired | BadPoolSize string

definition valueOr :: "(string \<Rightarrow> string) \<Rightarrow> string \<Rightarrow> string \<Rightarrow> string" where
  "valueOr env key fallback = (if env key \<noteq> [] then env key else fallback)"

text \<open>\<open>scast\<close> is Go's conversion \<^verbatim>\<open>int32(n)\<close>: it keeps the low 32 bits.\<close>

definition load_config :: "(string \<Rightarrow> string) \<Rightarrow> config_error + config" where
  "load_config env =
     (let c = \<lparr>cfg_database_url = env ''DATABASE_URL'',
               cfg_redis_url = valueOr env ''REDIS_URL'' ''redis://localhost:6379/0'',
               cfg_http_addr = valueOr env ''HTTP_ADDR'' '':8080'',
               cfg_pool_size = 25,
               cfg_strategy = valueOr env ''BID_STRATEGY'' ''optimistic''\<rparr>;
          raw = env ''DB_POOL_SIZE''
      in if cfg_database_url c = [] then Inl DatabaseUrlRequired
         else if raw \<noteq> [] then
           (case Atoi raw of
              None \<Rightarrow> Inl (BadPoolSize raw)
            | Some n \<Rightarrow> if n \<le>s 0 then Inl (BadPoolSize raw) else Inr (c\<lparr>cfg_pool_size := scast n\<rparr>))
         else Inr c)"

lemma sint_scast_i64: "sint (scast (n :: i64) :: 32 word) = (sint n + 2 ^ 31) mod 2 ^ 32 - 2 ^ 31"
proof -
  have "sint (word_of_int (sint n) :: 32 word) = (sint n + 2 ^ (LENGTH(32) - 1)) mod 2 ^ LENGTH(32) - 2 ^ (LENGTH(32) - 1)"
    by (rule int_word_sint)
  then show ?thesis by (simp only: scast_eq len_num0 len_bit0 len_bit1 len_num1) simp
qed

text \<open>
  Claim C34. The pool size is the environment's number modulo \<open>2 ^ 32\<close>. When \<open>Load\<close> succeeds with
  \<^verbatim>\<open>DB_POOL_SIZE\<close> set, the variable is a positive 64-bit integer, and the size handed to the pool is
  its low 32 bits, signed: the number itself below \<open>2 ^ 31\<close>, and another number, possibly zero or
  negative, from there on, although the guard is there to fail on anything it cannot honour.
\<close>
theorem pool_size_is_truncated:
  assumes "load_config env = Inr c" and "env ''DB_POOL_SIZE'' \<noteq> []"
  shows "\<exists>n. Atoi (env ''DB_POOL_SIZE'') = Some n \<and> 0 < sint n \<and>
    sint (cfg_pool_size c) = (sint n + 2 ^ 31) mod 2 ^ 32 - 2 ^ 31 \<and>
    (sint (cfg_pool_size c) = sint n \<longleftrightarrow> sint n < 2 ^ 31)"
proof -
  obtain n where n: "Atoi (env ''DB_POOL_SIZE'') = Some n" "0 < sint n" "cfg_pool_size c = scast n"
    using assms by (auto simp: load_config_def Let_def sle_iff_sint split: option.splits if_splits)
  define m where "m = (sint n + 2 ^ 31) mod 2 ^ 32"
  have m: "m < 4294967296" by (simp add: m_def)
  have "m - 2 ^ 31 = sint n \<longleftrightarrow> sint n < 2 ^ 31"
  proof
    assume "sint n < 2 ^ 31"
    then have "m = sint n + 2 ^ 31" unfolding m_def using n(2) by (intro mod_pos_pos_trivial) simp_all
    then show "m - 2 ^ 31 = sint n" by simp
  qed (use m in simp)
  then show ?thesis using n sint_scast_i64 [of n] unfolding m_def by metis
qed

definition sample_environment :: "string \<Rightarrow> string \<Rightarrow> string" where
  "sample_environment raw key =
     (if key = ''DATABASE_URL'' then ''postgres://db'' else if key = ''DB_POOL_SIZE'' then raw else [])"

theorem pool_size_is_truncated_witness:
  "\<exists>c n. load_config (sample_environment ''4294967297'') = Inr c \<and>
     Atoi ''4294967297'' = Some n \<and> sint n = 4294967297 \<and> sint (cfg_pool_size c) = 1"
proof -
  have "map_option sint (Atoi ''4294967297'') = Some 4294967297"
    by (simp add: Atoi_def digit_def Let_def)
  then obtain n where n: "Atoi ''4294967297'' = Some n" "sint n = 4294967297" by auto
  obtain c where c: "load_config (sample_environment ''4294967297'') = Inr c"
    using n by (simp add: load_config_def Let_def sample_environment_def sle_iff_sint)
  have env: "sample_environment ''4294967297'' ''DB_POOL_SIZE'' = ''4294967297''" by (simp add: sample_environment_def)
  from pool_size_is_truncated [OF c] n have "sint (cfg_pool_size c) = 1" unfolding env by simp
  with c n show ?thesis by blast
qed

text \<open>The error of \<open>Load\<close> as text.\<close>

fun config_text :: "config_error \<Rightarrow> string" where
  "config_text DatabaseUrlRequired = ''DATABASE_URL is required and has no default''"
| "config_text (BadPoolSize raw) = ''DB_POOL_SIZE must be a positive integer, got '' @ quoted raw"

section \<open>The clients (pool.go, redis.go)\<close>

text \<open>
  What pgx and go-redis answer: a URL parses to a configuration or fails with a text, and \<open>None\<close> is
  a nil error of the construction or of the ping. Of a pool's configuration the code sets one field.
\<close>

record pool_config =
  pc_url :: string
  pc_MaxConns :: "32 word"

record drivers =
  dr_parse_pool :: "string \<Rightarrow> string + pool_config"
  dr_new_pool :: "pool_config \<Rightarrow> string option"
  dr_parse_redis :: "string \<Rightarrow> string option"
  dr_ping :: "string \<Rightarrow> string option"

definition NewPool :: "drivers \<Rightarrow> string \<Rightarrow> 32 word \<Rightarrow> string + pool_config" where
  "NewPool dr url conns =
     (case dr_parse_pool dr url of
        Inl e \<Rightarrow> Inl (''parse DATABASE_URL: '' @ e)
      | Inr cfg \<Rightarrow>
          (let cfg = cfg\<lparr>pc_MaxConns := conns\<rparr>
           in case dr_new_pool dr cfg of Some e \<Rightarrow> Inl (''create pool: '' @ e) | None \<Rightarrow> Inr cfg))"

text \<open>The second result counts the clients that were built and not closed.\<close>

definition NewRedis :: "drivers \<Rightarrow> string \<Rightarrow> (string + string) \<times> nat" where
  "NewRedis dr url =
     (case dr_parse_redis dr url of
        Some e \<Rightarrow> (Inl (''parse REDIS_URL: '' @ e), 0)
      | None \<Rightarrow>
          (let opened = 1
           in case dr_ping dr url of
                Some e \<Rightarrow> (let opened = opened - 1 in (Inl (''ping redis: '' @ e), opened))
              | None \<Rightarrow> (Inr url, opened)))"

lemma NewPool_size: "NewPool dr url conns = Inr cfg \<Longrightarrow> pc_MaxConns cfg = conns"
  by (auto simp: NewPool_def Let_def split: sum.splits option.splits)

lemma NewRedis_open: "snd (NewRedis dr url) = (if isl (fst (NewRedis dr url)) then 0 else 1)"
  by (simp add: NewRedis_def Let_def split: option.split)

lemma NewRedis_pinged: "fst (NewRedis dr url) = Inr c \<Longrightarrow> c = url \<and> dr_ping dr url = None"
  by (auto simp: NewRedis_def Let_def split: option.splits)

definition open_drivers :: drivers where
  "open_drivers = \<lparr>dr_parse_pool = (\<lambda>url. Inr \<lparr>pc_url = url, pc_MaxConns = 4\<rparr>), dr_new_pool = (\<lambda>_. None),
     dr_parse_redis = (\<lambda>_. None), dr_ping = (\<lambda>_. None)\<rparr>"

section \<open>The schema guard (schema.go)\<close>

text \<open>What \<^verbatim>\<open>SELECT version, dirty FROM schema_migrations\<close> gives.\<close>

datatype migrations = Unanswered | NoTable | NoVersion | Version i64 bool

datatype schema_fault = SchemaMissing | SchemaDirty | SchemaMismatch

datatype schema_error = SchemaError schema_fault i64 i64 | SchemaUnread

definition ExpectedSchemaVersion :: i64 where "ExpectedSchemaVersion = 1"

definition CheckSchema :: "migrations \<Rightarrow> schema_error option" where
  "CheckSchema m =
     (case m of
        NoVersion \<Rightarrow> Some (SchemaError SchemaMissing ExpectedSchemaVersion 0)
      | NoTable \<Rightarrow> Some (SchemaError SchemaMissing ExpectedSchemaVersion 0)
      | Unanswered \<Rightarrow> Some SchemaUnread
      | Version v dirty \<Rightarrow>
          if dirty then Some (SchemaError SchemaDirty ExpectedSchemaVersion v)
          else if v \<noteq> ExpectedSchemaVersion then Some (SchemaError SchemaMismatch ExpectedSchemaVersion v)
          else None)"

lemma CheckSchema_None: "CheckSchema m = None \<longleftrightarrow> m = Version 1 False"
  by (auto simp: CheckSchema_def ExpectedSchemaVersion_def split: migrations.splits)

section \<open>Choosing the engine and booting (app/engine.go, auctiond/main.go)\<close>

datatype engine_kind = OptimisticEngine | PessimisticEngine | ShardEngine

definition NewEngine :: "string \<Rightarrow> string + engine_kind" where
  "NewEngine strategy =
     (if strategy = ''optimistic'' then Inr OptimisticEngine
      else if strategy = ''pessimistic'' then Inr PessimisticEngine
      else if strategy = ''shard'' then Inr ShardEngine
      else Inl strategy)"

text \<open>
  The environment of a boot: the variables, the drivers, what the schema query gives, and whether
  the consumer group could be created.
\<close>

record boot_env =
  bo_env :: "string \<Rightarrow> string"
  bo_drivers :: drivers
  bo_schema :: migrations
  bo_group :: bool

datatype boot_error = ConfigFailed config_error | PoolFailed string | RedisFailed string | GroupFailed | UnknownStrategy string

record booted =
  bd_engine :: engine_kind
  bd_pool :: pool_config
  bd_redis :: string
  bd_schema_found :: i64
  bd_schema_error :: "schema_error option"

definition run_auctiond :: "boot_env \<Rightarrow> boot_error + booted" where
  "run_auctiond e =
     (case load_config (bo_env e) of
        Inl err \<Rightarrow> Inl (ConfigFailed err)
      | Inr cfg \<Rightarrow>
          (case NewPool (bo_drivers e) (cfg_database_url cfg) (cfg_pool_size cfg) of
             Inl err \<Rightarrow> Inl (PoolFailed err)
           | Inr pool \<Rightarrow>
          (case fst (NewRedis (bo_drivers e) (cfg_redis_url cfg)) of
             Inl err \<Rightarrow> Inl (RedisFailed err)
           | Inr rdb \<Rightarrow>
            (let schema = CheckSchema (bo_schema e);
                 found = (case schema of Some (SchemaError f x v) \<Rightarrow> v | _ \<Rightarrow> ExpectedSchemaVersion)
             in if \<not> bo_group e then Inl GroupFailed
                else (case NewEngine (cfg_strategy cfg) of
                        Inl s \<Rightarrow> Inl (UnknownStrategy s)
                      | Inr k \<Rightarrow> Inr \<lparr>bd_engine = k, bd_pool = pool, bd_redis = rdb,
                          bd_schema_found = found, bd_schema_error = schema\<rparr>)))))"

text \<open>The error \<^verbatim>\<open>run\<close> returns, as text; \<open>grp\<close> is that of \<^verbatim>\<open>EnsureGroup\<close>.\<close>

fun boot_text :: "string \<Rightarrow> boot_error \<Rightarrow> string" where
  "boot_text grp (ConfigFailed e) = config_text e"
| "boot_text grp (PoolFailed e) = e"
| "boot_text grp (RedisFailed e) = e"
| "boot_text grp GroupFailed = grp"
| "boot_text grp (UnknownStrategy s) =
     ''BID_STRATEGY='' @ quoted s @ '' is not a strategy: want optimistic, pessimistic or shard''"

text \<open>A wrong schema does not stop the boot; it is the readiness probe that turns red.\<close>

lemma boot_ignores_the_schema:
  "isl (run_auctiond (e\<lparr>bo_schema := m\<rparr>)) \<longleftrightarrow> isl (run_auctiond e)"
  by (simp add: run_auctiond_def Let_def split: sum.splits)

section \<open>Seeding a cell (cmd/seed)\<close>

record seed_options =
  so_auctions :: int
  so_ends_in :: duration
  so_min_increment :: i64
  so_starting_bid :: i64
  so_truncate :: bool

record auction_ref =
  rf_id :: uuid
  rf_version :: i64
  rf_min_next_bid :: i64

record seed_env =
  sd_ids :: "nat \<Rightarrow> uuid"
  sd_now :: time
  sd_truncate_fault :: fault
  sd_copy_fault :: fault

datatype seed_result = Seeded "auction_ref list" | TruncateFailed sql_error | CopyFailed sql_error | SeedPanic

definition seed_row :: "seed_env \<Rightarrow> seed_options \<Rightarrow> nat \<Rightarrow> auction_row" where
  "seed_row e opts i =
     \<lparr>a_id = sd_ids e i, a_title = ''auction-'' @ decimal (i + 1), a_status = ColOpen, a_highest = so_starting_bid opts,
      a_bidder = None, a_min_inc = so_min_increment opts, a_version = 0, a_ends_at = sd_now e + so_ends_in opts, a_closed_at = None\<rparr>"

definition seed_ref :: "seed_env \<Rightarrow> seed_options \<Rightarrow> nat \<Rightarrow> auction_ref" where
  "seed_ref e opts i =
     \<lparr>rf_id = sd_ids e i, rf_version = 0, rf_min_next_bid = so_starting_bid opts + so_min_increment opts\<rparr>"

text \<open>\<^verbatim>\<open>CopyFrom\<close>: every row, or an error and none.\<close>

fun copy_auctions :: "auction_row list \<Rightarrow> db \<Rightarrow> sql_error + db" where
  "copy_auctions [] d = Inr d"
| "copy_auctions (a # as) d =
     (if \<not> check_auction a then Inl CheckViolation
      else if find_auction d (a_id a) \<noteq> None then Inl UniqueViolation
      else copy_auctions as (add_auction a d))"

definition copy_stmt :: "auction_row list \<Rightarrow> unit stmt" where
  "copy_stmt as d = (case copy_auctions as d of Inl e \<Rightarrow> Inl e | Inr d' \<Rightarrow> Inr ((), d'))"

definition truncate_stmt :: "unit stmt" where
  "truncate_stmt d = Inr ((), empty_db)"

text \<open>\<^verbatim>\<open>make\<close> panics on a negative length, after the truncation has been committed.\<close>

definition seed :: "seed_env \<Rightarrow> seed_options \<Rightarrow> db \<Rightarrow> seed_result \<times> db" where
  "seed e opts d =
     (case (if so_truncate opts then run_stmt (sd_truncate_fault e) truncate_stmt d else (Inr (), d)) of
        (Inl err, d1) \<Rightarrow> (TruncateFailed err, d1)
      | (Inr _, d1) \<Rightarrow>
          if so_auctions opts < 0 then (SeedPanic, d1)
          else
            (let n = nat (so_auctions opts)
             in case run_stmt (sd_copy_fault e) (copy_stmt (map (seed_row e opts) [0..<n])) d1 of
                  (Inl err, d2) \<Rightarrow> (CopyFailed err, d2)
                | (Inr _, d2) \<Rightarrow> (Seeded (map (seed_ref e opts) [0..<n]), d2)))"

definition fresh_auction :: "auction_row \<Rightarrow> bool" where
  "fresh_auction a \<longleftrightarrow> a_version a = 0 \<and> a_bidder a = None \<and> a_status a = ColOpen \<and> a_closed_at a = None"

lemma copy_step:
  assumes "copy_auctions (a # as) d = Inr d'"
  shows "check_auction a" and "find_auction d (a_id a) = None" and "copy_auctions as (add_auction a d) = Inr d'"
  using assms by (simp_all split: if_splits)

lemma copy_evolves:
  "copy_auctions as d = Inr d' \<Longrightarrow> list_all fresh_auction as \<Longrightarrow> evolves d d' \<and> db_bids d' = db_bids d"
proof (induction as arbitrary: d)
  case (Cons a as)
  note step = copy_step [OF Cons.prems(1)]
  have "fresh_row d a" using step(1,2) Cons.prems(2) by (simp add: fresh_row_def fresh_auction_def)
  then have "evolves d (add_auction a d)" by (intro evolves_one ledger_create)
  then show ?case using Cons.IH [OF step(3)] Cons.prems(2) evolves_trans by fastforce
qed simp

lemma copy_keeps:
  "copy_auctions as d = Inr d' \<Longrightarrow> find_auction d x = Some r \<Longrightarrow> find_auction d' x = Some r"
proof (induction as arbitrary: d)
  case (Cons a as)
  show ?case
    by (rule Cons.IH [OF copy_step(3) [OF Cons.prems(1)]]) (simp add: row_simps Cons.prems(2))
qed simp

lemma copy_only:
  "copy_auctions as d = Inr d' \<Longrightarrow> a \<in> set as \<Longrightarrow> find_auction d (a_id a) = None \<and> check_auction a"
proof (induction as arbitrary: d)
  case (Cons a' as)
  note step = copy_step [OF Cons.prems(1)]
  show ?case
    using Cons.prems(2) step(1,2) Cons.IH [OF step(3)] by (auto simp: row_simps split: option.splits if_splits)
qed simp

lemma copy_finds:
  "copy_auctions as d = Inr d' \<Longrightarrow> a \<in> set as \<Longrightarrow> find_auction d' (a_id a) = Some a"
proof (induction as arbitrary: d)
  case (Cons a' as)
  note step = copy_step [OF Cons.prems(1)]
  have "find_auction d' (a_id a') = Some a'"
    by (rule copy_keeps [OF step(3)]) (simp add: row_simps step(2))
  then show ?case using Cons.prems(2) Cons.IH [OF step(3)] by auto
qed simp

lemma copy_distinct: "copy_auctions as d = Inr d' \<Longrightarrow> distinct (map a_id as)"
proof (induction as arbitrary: d)
  case (Cons a as)
  note step = copy_step [OF Cons.prems(1)]
  have "a_id a \<notin> a_id ` set as"
  proof
    assume "a_id a \<in> a_id ` set as"
    then obtain b where "b \<in> set as" "a_id b = a_id a" by auto
    then show False using copy_only [OF step(3), of b] by (simp add: row_simps step(2))
  qed
  then show ?case using Cons.IH [OF step(3)] by simp
qed simp

lemma no_bids_without_auction:
  assumes "schema_ok d" and "find_auction d x = None"
  shows "bids_of d x = []"
  using assms by (auto simp: schema_ok_def list_all_iff bids_of_def filter_empty_conv)

text \<open>A fresh auction's first bid, aimed with the minimum and version 0.\<close>

lemma first_bid_lands:
  assumes inv: "schema_ok d" and a: "find_auction d x = Some a" "check_auction a" "fresh_auction a" "bids_of d x = []"
    and room: "sint (a_highest a) + sint (a_min_inc a) < 2 ^ 63" and now: "now < a_ends_at a"
    and fresh: "bid_id \<notin> set (map b_id (db_bids d))"
  shows "\<exists>d'. opt_place_bid (min_next_bid (state_of_row a)) user x 0 bid_id [] now d = Inr ((1, a_min_inc a), d')"
proof -
  define b where "b = \<lparr>b_id = bid_id, b_auction = x, b_user = user, b_amount = min_next_bid (state_of_row a), b_seq = 1,
    b_key = None, b_created_at = now\<rparr>"
  have pos: "0 \<le> sint (a_highest a)" "0 < sint (a_min_inc a)"
    using a(2) by (simp_all add: check_auction_def sless_iff_sint sle_iff_sint)
  have amount: "sint (b_amount b) = sint (a_highest a) + sint (a_min_inc a)"
    unfolding b_def bid_row.simps min_next_bid_def state_of_row_simps using pos room by (intro sint_add_in_range) linarith+
  have "(x, 1) \<notin> set (map (\<lambda>c. (b_auction c, b_seq c)) (db_bids d))"
    using a(4) by (auto simp: bids_of_def filter_empty_conv)
  then have "bid_violation d b = None"
    using pos amount fresh a(1) by (simp add: bid_violation_def sless_iff_sint) (simp add: b_def)
  then have "next_bid_ok d a b"
    using a amount now by (simp add: next_bid_ok_def fresh_auction_def) (simp add: b_def)
  from opt_place_bid_lands [OF inv this, of "[]"] show ?thesis
    using a(3) now by (simp add: b_def fresh_auction_def nullif_empty_def)
qed

text \<open>What a successful \<open>seed\<close> left, and what its references say of it.\<close>

definition manifest_true :: "seed_env \<Rightarrow> seed_options \<Rightarrow> auction_ref list \<Rightarrow> db \<Rightarrow> bool" where
  "manifest_true e opts refs d' \<longleftrightarrow> int (length refs) = so_auctions opts \<and> distinct (map rf_id refs) \<and>
    list_all (\<lambda>r. \<exists>a. find_auction d' (rf_id r) = Some a \<and> a_status a = ColOpen \<and> bids_of d' (rf_id r) = [] \<and>
      a_version a = rf_version r \<and> min_next_bid (state_of_row a) = rf_min_next_bid r \<and>
      (\<forall>now bid_id user. sint (so_starting_bid opts) + sint (so_min_increment opts) < 2 ^ 63 \<and>
         now < sd_now e + so_ends_in opts \<and> bid_id \<notin> set (map b_id (db_bids d')) \<longrightarrow>
       (\<exists>d''. opt_place_bid (rf_min_next_bid r) user (rf_id r) (rf_version r) bid_id [] now d' =
          Inr ((1, so_min_increment opts), d'')))) refs"

lemma seed_manifest:
  assumes "db_inv d" and "seed e opts d = (Seeded refs, d')"
  shows "db_inv d' \<and> manifest_true e opts refs d'"
proof -
  obtain d1 where d1: "db_inv d1" and nonneg: "0 \<le> so_auctions opts"
    and copy: "copy_auctions (map (seed_row e opts) [0..<nat (so_auctions opts)]) d1 = Inr d'"
    and refs: "refs = map (seed_ref e opts) [0..<nat (so_auctions opts)]"
    using assms db_inv_empty
    by (auto simp: seed_def Let_def truncate_stmt_def copy_stmt_def split: prod.splits sum.splits if_splits dest!: run_stmt_InrD)
  let ?rows = "map (seed_row e opts) [0..<nat (so_auctions opts)]"
  have fresh: "list_all fresh_auction ?rows" by (simp add: list_all_iff fresh_auction_def seed_row_def)
  note ev = copy_evolves [OF copy fresh]
  then have inv: "db_inv d'" using db_inv_evolves d1 by blast
  have "map rf_id refs = map a_id ?rows" by (simp add: refs seed_ref_def seed_row_def)
  then have "distinct (map rf_id refs)" using copy_distinct [OF copy] by simp
  moreover have "\<exists>a. find_auction d' (rf_id r) = Some a \<and> a_status a = ColOpen \<and> bids_of d' (rf_id r) = [] \<and>
      a_version a = rf_version r \<and> min_next_bid (state_of_row a) = rf_min_next_bid r \<and>
      (\<forall>now bid_id user. sint (so_starting_bid opts) + sint (so_min_increment opts) < 2 ^ 63 \<and>
         now < sd_now e + so_ends_in opts \<and> bid_id \<notin> set (map b_id (db_bids d')) \<longrightarrow>
       (\<exists>d''. opt_place_bid (rf_min_next_bid r) user (rf_id r) (rf_version r) bid_id [] now d' =
          Inr ((1, so_min_increment opts), d'')))" if r: "r \<in> set refs" for r
  proof -
    obtain i where i: "r = seed_ref e opts i" "seed_row e opts i \<in> set ?rows" using r by (auto simp: refs)
    let ?a = "seed_row e opts i"
    have a: "find_auction d' (rf_id r) = Some ?a" "check_auction ?a" "fresh_auction ?a"
      using copy_finds [OF copy i(2)] copy_only [OF copy i(2)] by (simp_all add: i(1) seed_ref_def seed_row_def fresh_auction_def)
    have "find_auction d1 (rf_id r) = None"
      using copy_only [OF copy i(2)] by (simp add: i(1) seed_ref_def seed_row_def)
    then have "bids_of d1 (rf_id r) = []" using no_bids_without_auction db_invD(1) [OF d1] by blast
    then have none: "bids_of d' (rf_id r) = []" using ev by (simp add: bids_of_def)
    have next': "min_next_bid (state_of_row ?a) = rf_min_next_bid r" "rf_version r = 0"
      "a_highest ?a = so_starting_bid opts" "a_min_inc ?a = so_min_increment opts" "a_ends_at ?a = sd_now e + so_ends_in opts"
      "a_version ?a = 0" "a_status ?a = ColOpen"
      by (simp_all add: i(1) seed_ref_def seed_row_def min_next_bid_def)
    show ?thesis
      using a(1) none next' first_bid_lands [OF db_invD(1) [OF inv] a none] by auto
  qed
  ultimately show ?thesis using inv nonneg by (simp add: manifest_true_def list_all_iff refs)
qed

lemma truncate_keeps_inv: "db_inv d \<Longrightarrow> db_inv (snd (run_stmt f truncate_stmt d))"
  by (cases f) (simp_all add: run_stmt_def truncate_stmt_def db_inv_empty)

lemma copy_keeps_inv:
  assumes "db_inv d" and "list_all fresh_auction as"
  shows "db_inv (snd (run_stmt f (copy_stmt as) d))"
proof -
  have "copy_auctions as d = Inr d' \<Longrightarrow> db_inv d'" for d'
    using copy_evolves [OF _ assms(2)] db_inv_evolves [OF _ assms(1)] by blast
  then show ?thesis
    using assms(1) by (cases f) (auto simp: run_stmt_def copy_stmt_def split: sum.splits)
qed

lemma seed_keeps_inv:
  assumes "db_inv d"
  shows "db_inv (snd (seed e opts d))"
proof -
  obtain x d1 where t: "(if so_truncate opts then run_stmt (sd_truncate_fault e) truncate_stmt d else (Inr (), d)) = (x, d1)"
    by fastforce
  then have "db_inv d1"
    using truncate_keeps_inv [OF assms, of "sd_truncate_fault e"] assms by (auto split: if_splits)
  from copy_keeps_inv [OF this, of "map (seed_row e opts) [0..<nat (so_auctions opts)]" "sd_copy_fault e"] show ?thesis
    using t \<open>db_inv d1\<close>
    by (auto simp: seed_def Let_def list_all_iff fresh_auction_def seed_row_def split: sum.split prod.split)
qed

text \<open>
  \<^verbatim>\<open>main\<close> and \<^verbatim>\<open>execute\<close>: the flags' defaults, the steps up to the manifest, and the exit code with the
  manifest written, if any. The disk answers to the directory's creation, which is skipped in the
  working directory, and to the write; the encoder cannot fail on these values.
\<close>

definition default_options :: seed_options where
  "default_options = \<lparr>so_auctions = 1, so_ends_in = 300000000000, so_min_increment = 100, so_starting_bid = 0,
     so_truncate = False\<rparr>"

record disk =
  dk_dir :: string
  dk_mkdir :: bool
  dk_write :: bool

definition writeManifest :: "disk \<Rightarrow> auction_ref list \<Rightarrow> string + auction_ref list" where
  "writeManifest k refs =
     (if dk_dir k \<noteq> ''.'' \<and> \<not> dk_mkdir k then Inl ''create manifest directory''
      else if \<not> dk_write k then Inl ''write manifest''
      else Inr refs)"

definition seed_execute ::
  "(string \<Rightarrow> string) \<Rightarrow> drivers \<Rightarrow> disk \<Rightarrow> seed_env \<Rightarrow> seed_options \<Rightarrow> db \<Rightarrow> (nat \<times> auction_ref list option) \<times> db" where
  "seed_execute env dr k e opts d =
     (case load_config env of
        Inl err \<Rightarrow> ((1, None), d)
      | Inr cfg \<Rightarrow>
          if isl (NewPool dr (cfg_database_url cfg) (cfg_pool_size cfg)) then ((1, None), d)
          else
            (case seed e opts d of
               (Seeded refs, d') \<Rightarrow>
                 (case writeManifest k refs of Inl err \<Rightarrow> ((1, None), d') | Inr refs \<Rightarrow> ((0, Some refs), d'))
             | (SeedPanic, d') \<Rightarrow> ((2, None), d')
             | (failed, d') \<Rightarrow> ((1, None), d')))"

text \<open>
  Claim C33. The manifest of a seeded cell is true. When \<^verbatim>\<open>cmd/seed\<close> exits 0 on a database that keeps
  the invariant, the database still keeps it and a manifest was written: it has the number of
  auctions asked for, all different, and each reference is an open auction without bids whose version
  and minimum next bid are the manifest's; and if the minimum did not wrap, a keyless bid aimed with
  nothing but the reference, before the end and under a fresh id, is accepted at sequence 1 by the
  optimistic statement. When it exits otherwise no manifest was written, and the ledger's invariant holds.
\<close>
theorem seeded_manifest_is_true:
  assumes "db_inv d" and "seed_execute env dr k e opts d = ((code, manifest), d')"
  shows "db_inv d' \<and>
    (case manifest of None \<Rightarrow> code \<noteq> 0 | Some refs \<Rightarrow> code = 0 \<and> manifest_true e opts refs d')"
proof (cases "\<exists>refs d''. seed e opts d = (Seeded refs, d'')")
  case True
  then obtain refs d'' where s: "seed e opts d = (Seeded refs, d'')" by blast
  from seed_manifest [OF assms(1) s] assms s show ?thesis
    by (auto simp: seed_execute_def writeManifest_def split: sum.splits if_splits)
next
  case False
  have "db_inv (snd (seed e opts d))" using seed_keeps_inv [OF assms(1)] .
  with False assms show ?thesis
    by (cases "seed e opts d") (auto simp: seed_execute_def split: sum.splits if_splits seed_result.splits)
qed

definition sample_options :: seed_options where
  "sample_options = \<lparr>so_auctions = 2, so_ends_in = 300, so_min_increment = 100, so_starting_bid = 0, so_truncate = True\<rparr>"

definition sample_seed_env :: seed_env where
  "sample_seed_env = \<lparr>sd_ids = (\<lambda>i. word_of_nat (i + 1)), sd_now = 1000, sd_truncate_fault = NoFault, sd_copy_fault = NoFault\<rparr>"

theorem seeded_manifest_is_true_witness:
  "\<exists>refs d'. seed_execute (sample_environment []) open_drivers \<lparr>dk_dir = ''bench'', dk_mkdir = True, dk_write = True\<rparr>
       sample_seed_env sample_options sample_db = ((0, Some refs), d') \<and> db_inv d' \<and> length refs = 2 \<and>
     list_all (\<lambda>r. \<exists>d''. opt_place_bid (rf_min_next_bid r) 7 (rf_id r) (rf_version r) 9 [] 1200 d' = Inr ((1, 100), d'')) refs"
proof -
  let ?run = "seed_execute (sample_environment []) open_drivers \<lparr>dk_dir = ''bench'', dk_mkdir = True, dk_write = True\<rparr>
       sample_seed_env sample_options sample_db"
  have "case fst ?run of (code, m) \<Rightarrow> m \<noteq> None" and bids: "db_bids (snd ?run) = []" by code_simp+
  then obtain code refs d' where run: "?run = ((code, Some refs), d')"
    by (cases ?run) (auto split: prod.splits)
  from seeded_manifest_is_true [OF sample_inv run] have "db_inv d'" "code = 0"
      "manifest_true sample_seed_env sample_options refs d'" by simp_all
  with bids run show ?thesis
    by (fastforce simp: sample_options_def sample_seed_env_def list_all_iff manifest_true_def)
qed

section \<open>Readiness (schema.go, main.go, health.go)\<close>

definition signed_decimal :: "i64 \<Rightarrow> string" where
  "signed_decimal n = (if sint n < 0 then CHR ''-'' # decimal (nat (- sint n)) else decimal (nat (sint n)))"

text \<open>\<^verbatim>\<open>SchemaError.Error\<close>, and the wrapped error of a failed read; \<open>driver\<close> is the driver's own text.\<close>

fun schema_text :: "string \<Rightarrow> schema_error \<Rightarrow> string" where
  "schema_text driver (SchemaError SchemaMissing expected found) =
     ''schema_migrations not found: migrations have not been applied''"
| "schema_text driver (SchemaError SchemaDirty expected found) =
     ''schema is dirty at version '' @ signed_decimal found @ '': a migration failed halfway''"
| "schema_text driver (SchemaError SchemaMismatch expected found) =
     ''schema version mismatch: expected '' @ signed_decimal expected @ '', found '' @ signed_decimal found"
| "schema_text driver SchemaUnread = ''read schema_migrations: '' @ driver"

text \<open>What the three dependencies answer to one probe; \<open>None\<close> is a nil error.\<close>

record probes =
  pr_database :: "string option"
  pr_schema :: migrations
  pr_driver :: string
  pr_redis :: "string option"

definition auctiond_ready :: "probes \<Rightarrow> nat \<times> body" where
  "auctiond_ready p =
     Readyz [(''database'', pr_database p), (''schema'', map_option (schema_text (pr_driver p)) (CheckSchema (pr_schema p))),
             (''redis'', pr_redis p)]"

text \<open>The worker does not look at the schema.\<close>

definition closerd_ready :: "probes \<Rightarrow> nat \<times> body" where
  "closerd_ready p = Readyz [(''database'', pr_database p), (''redis'', pr_redis p)]"

section \<open>The worker's process (cmd/closerd) and the two shutdowns\<close>

definition worker_pool_size :: "32 word" where "worker_pool_size = 4"

definition boot_closerd :: "boot_env \<Rightarrow> boot_error + config" where
  "boot_closerd e =
     (case load_config (bo_env e) of
        Inl err \<Rightarrow> Inl (ConfigFailed err)
      | Inr cfg \<Rightarrow>
          (case NewPool (bo_drivers e) (cfg_database_url cfg) worker_pool_size of
             Inl err \<Rightarrow> Inl (PoolFailed err)
           | Inr pool \<Rightarrow>
               (case fst (NewRedis (bo_drivers e) (cfg_redis_url cfg)) of
                  Inl err \<Rightarrow> Inl (RedisFailed err)
                | Inr rdb \<Rightarrow> Inr cfg)))"

text \<open>
  The \<^verbatim>\<open>select\<close> at the end of \<^verbatim>\<open>run\<close>: the server failed, the loop returned, or the signal
  came, and then the loop's own result is awaited. \<open>drain\<close> is the error of \<^verbatim>\<open>srv.Shutdown\<close>.
\<close>

datatype ending = ServeFailed string | LoopReturned "string option" | Signalled "string option"

definition closerd_end :: "string option \<Rightarrow> ending \<Rightarrow> string option" where
  "closerd_end drain e =
     (case e of
        ServeFailed err \<Rightarrow> Some err
      | LoopReturned (Some err) \<Rightarrow> Some err
      | LoopReturned None \<Rightarrow> drain
      | Signalled (Some err) \<Rightarrow> Some err
      | Signalled None \<Rightarrow> drain)"

definition auctiond_end :: "string option \<Rightarrow> string option \<Rightarrow> string option" where
  "auctiond_end drain serve_failed = (case serve_failed of Some err \<Rightarrow> Some err | None \<Rightarrow> drain)"

text \<open>
  \<^verbatim>\<open>main\<close> of either process: a nil error exits 0, any other is logged and exits 1. \<open>auctiond_main\<close> and
  \<open>closerd_main\<close> run a process from its boot to its end: the exit code and the error logged.
\<close>

definition main_exit :: "string option \<Rightarrow> nat" where
  "main_exit err = (case err of None \<Rightarrow> 0 | Some e \<Rightarrow> 1)"

definition auctiond_main :: "boot_env \<Rightarrow> string \<Rightarrow> string option \<Rightarrow> string option \<Rightarrow> nat \<times> string option" where
  "auctiond_main e grp drain serve_failed =
     (let err = (case run_auctiond e of Inl b \<Rightarrow> Some (boot_text grp b) | Inr b \<Rightarrow> auctiond_end drain serve_failed)
      in (main_exit err, err))"

definition closerd_main :: "boot_env \<Rightarrow> string option \<Rightarrow> ending \<Rightarrow> nat \<times> string option" where
  "closerd_main e drain ended =
     (let err = (case boot_closerd e of Inl b \<Rightarrow> Some (boot_text [] b) | Inr cfg \<Rightarrow> closerd_end drain ended)
      in (main_exit err, err))"

text \<open>The strategy is no business of the worker: it boots whatever the variable says.\<close>

lemma load_config_strategy:
  "load_config (env(''BID_STRATEGY'' := s)) =
     map_sum id (\<lambda>c. c\<lparr>cfg_strategy := (if s = [] then ''optimistic'' else s)\<rparr>) (load_config env)"
  by (simp add: load_config_def Let_def valueOr_def split: option.split)

lemma closerd_ignores_the_strategy:
  "closerd_main (e\<lparr>bo_env := (bo_env e)(''BID_STRATEGY'' := s)\<rparr>) drain ended = closerd_main e drain ended"
  by (simp add: closerd_main_def boot_closerd_def load_config_strategy split: sum.split)

lemma ready_iff:
  "fst (auctiond_ready p) = 200 \<longleftrightarrow> pr_database p = None \<and> pr_schema p = Version 1 False \<and> pr_redis p = None"
  unfolding CheckSchema_None [symmetric] by (auto simp: auctiond_ready_def split: option.split)


definition sample_boot :: boot_env where
  "sample_boot = \<lparr>bo_env = sample_environment ''25'', bo_drivers = open_drivers,
     bo_schema = Version 2 False, bo_group = True\<rparr>"


end
