(* ===== verification/Inbox.thy ===== *)
theory Inbox
  imports Shard_Journal
begin

text \<open>
  The engine as it runs: eight goroutines, each with its bounded inbox and its map, and any number
  of callers of \<^verbatim>\<open>PlaceBid\<close>, interleaved. A caller is named by its call, which is also its reply
  channel (\<open>cmd_caller\<close>): capacity one, one sender, one reader. \<open>shard_step\<close> is one move of a caller, of
  a goroutine, or of another session of the database. What a decision or a commit takes from outside
  satisfies \<open>D\<close> and \<open>C\<close>; both are unrestricted unless a theorem says otherwise.
\<close>

section \<open>Goroutines and callers\<close>

definition inboxCap :: nat where
  "inboxCap = 1024"

text \<open>
  Where \<^verbatim>\<open>run\<close> is: an empty \<open>go_batch\<close> is the outer receive, an open one the accumulation, and
  \<open>go_sealed\<close> that the accumulation broke off and the commit is next.
\<close>

record goroutine =
  go_inbox :: "command list"
  go_mem :: "uuid \<Rightarrow> mem_auction option"
  go_batch :: "pending_bid list"
  go_sealed :: bool

text \<open>
  A call of \<^verbatim>\<open>PlaceBid\<close>: not made, in its select, waiting for its answer, ended by its context in
  the select, answered.
\<close>

datatype call =
    Idle
  | Sending command
  | Waiting command
  | GaveUp
  | Answered command response

record shard_sys =
  sy_db :: db
  sy_obs :: observers
  sy_go :: "nat \<Rightarrow> goroutine"
  sy_call :: "nat \<Rightarrow> call"
  sy_replies :: "(command \<times> response) list"

definition newShard :: goroutine where
  "newShard = \<lparr>go_inbox = [], go_mem = (\<lambda>_. None), go_batch = [], go_sealed = False\<rparr>"

definition shard_New :: "db \<Rightarrow> shard_sys" where
  "shard_New d = \<lparr>sy_db = d, sy_obs = \<lparr>obs_accept = [], obs_lag = [], obs_batch = []\<rparr>,
     sy_go = (\<lambda>_. newShard), sy_call = (\<lambda>_. Idle), sy_replies = []\<rparr>"

text \<open>\<^verbatim>\<open>InboxDepths\<close>: the commands queued for each shard, in shard order.\<close>

definition InboxDepths :: "shard_sys \<Rightarrow> nat list" where
  "InboxDepths h = map (\<lambda>k. length (go_inbox (sy_go h k))) [0..<numShards]"

section \<open>One move\<close>

definition routed :: "command \<Rightarrow> nat" where
  "routed c = shardFor (req_auction (cmd_req c)) numShards"

definition set_go :: "nat \<Rightarrow> goroutine \<Rightarrow> shard_sys \<Rightarrow> shard_sys" where
  "set_go k g h = h\<lparr>sy_go := (sy_go h)(k := g)\<rparr>"

definition set_call :: "nat \<Rightarrow> call \<Rightarrow> shard_sys \<Rightarrow> shard_sys" where
  "set_call i st h = h\<lparr>sy_call := (sy_call h)(i := st)\<rparr>"

text \<open>\<^verbatim>\<open>PlaceBid\<close>: the command is made, the select takes the inbox while it has room or the context.\<close>

definition begin_call :: "nat \<Rightarrow> bid_request \<Rightarrow> time \<Rightarrow> shard_sys \<Rightarrow> shard_sys" where
  "begin_call i req now h = set_call i (Sending \<lparr>cmd_req = req, cmd_started_at = now, cmd_caller = i\<rparr>) h"

definition has_room :: "command \<Rightarrow> shard_sys \<Rightarrow> bool" where
  "has_room c h \<longleftrightarrow> length (go_inbox (sy_go h (routed c))) < inboxCap"

definition enqueue :: "nat \<Rightarrow> command \<Rightarrow> shard_sys \<Rightarrow> shard_sys" where
  "enqueue i c h =
     (let k = routed c; g = sy_go h k in
      set_call i (Waiting c) (set_go k (g\<lparr>go_inbox := go_inbox g @ [c]\<rparr>) h))"

text \<open>What \<^verbatim>\<open>decide\<close> and \<^verbatim>\<open>commit\<close> of the \<open>k\<close>-th goroutine see, and what they leave.\<close>

definition view :: "nat \<Rightarrow> shard_sys \<Rightarrow> shard" where
  "view k h = \<lparr>ss_db = sy_db h, ss_auctions = go_mem (sy_go h k), ss_obs = sy_obs h, ss_replies = sy_replies h\<rparr>"

definition leave :: "nat \<Rightarrow> goroutine \<Rightarrow> shard \<Rightarrow> shard_sys \<Rightarrow> shard_sys" where
  "leave k g s h = set_go k (g\<lparr>go_mem := ss_auctions s\<rparr>)
     (h\<lparr>sy_db := ss_db s, sy_obs := ss_obs s, sy_replies := ss_replies s\<rparr>)"

text \<open>
  \<^verbatim>\<open>run\<close>, one receive: the outer one, or that of the accumulation, which alone looks at the linger
  afterwards. The accumulation is left when the batch is full, when the inbox is empty, or late.
\<close>

definition receives :: "goroutine \<Rightarrow> bool" where
  "receives g \<longleftrightarrow> go_inbox g \<noteq> [] \<and> \<not> go_sealed g \<and> length (go_batch g) < batchMax"

definition receive :: "nat \<Rightarrow> decide_env \<Rightarrow> bool \<Rightarrow> shard_sys \<Rightarrow> shard_sys" where
  "receive k e late h =
     (let g = sy_go h k; (p, s) = sh_decide e (hd (go_inbox g)) (view k h) in
      leave k (g\<lparr>go_inbox := tl (go_inbox g), go_batch := decided (go_batch g) p,
                 go_sealed := (go_batch g \<noteq> [] \<and> late)\<rparr>) s h)"

definition breaks :: "goroutine \<Rightarrow> bool" where
  "breaks g \<longleftrightarrow> go_batch g \<noteq> [] \<and> \<not> go_sealed g \<and> (go_inbox g = [] \<or> length (go_batch g) = batchMax)"

definition seal :: "nat \<Rightarrow> shard_sys \<Rightarrow> shard_sys" where
  "seal k h = set_go k ((sy_go h k)\<lparr>go_sealed := True\<rparr>) h"

definition commits :: "nat \<Rightarrow> commit_env \<Rightarrow> shard_sys \<Rightarrow> shard_sys" where
  "commits k ce h =
     (let g = sy_go h k in
      leave k (g\<lparr>go_batch := [], go_sealed := False\<rparr>) (sh_commit ce (go_batch g) (view k h)) h)"

inductive shard_step ::
  "(decide_env \<Rightarrow> command \<Rightarrow> bool) \<Rightarrow> (commit_env \<Rightarrow> pending_bid list \<Rightarrow> bool) \<Rightarrow> shard_sys \<Rightarrow> shard_sys \<Rightarrow> bool"
  for D C where
  step_call: "sy_call h i = Idle \<Longrightarrow> shard_step D C h (begin_call i req now h)"
| step_enqueue: "sy_call h i = Sending c \<Longrightarrow> has_room c h \<Longrightarrow> shard_step D C h (enqueue i c h)"
| step_give_up: "sy_call h i = Sending c \<Longrightarrow> shard_step D C h (set_call i GaveUp h)"
| step_receive: "k < numShards \<Longrightarrow> receives (sy_go h k) \<Longrightarrow> D e (hd (go_inbox (sy_go h k))) \<Longrightarrow>
    shard_step D C h (receive k e late h)"
| step_seal: "k < numShards \<Longrightarrow> breaks (sy_go h k) \<Longrightarrow> shard_step D C h (seal k h)"
| step_commit: "k < numShards \<Longrightarrow> go_sealed (sy_go h k) \<Longrightarrow> C ce (go_batch (sy_go h k)) \<Longrightarrow>
    shard_step D C h (commits k ce h)"
| step_answer: "sy_call h i = Waiting c \<Longrightarrow> (c, r) \<in> set (sy_replies h) \<Longrightarrow>
    shard_step D C h (set_call i (Answered c r) h)"
| step_stamp: "shard_step D C h (h\<lparr>sy_db := stamped x t (sy_db h)\<rparr>)"
| step_create: "sint (a_highest a) \<le> money_cap \<Longrightarrow> sint (a_min_inc a) < money_cap \<Longrightarrow>
    shard_step D C h (h\<lparr>sy_db := created a (sy_db h)\<rparr>)"

inductive shard_reachable ::
  "(decide_env \<Rightarrow> command \<Rightarrow> bool) \<Rightarrow> (commit_env \<Rightarrow> pending_bid list \<Rightarrow> bool) \<Rightarrow> shard_sys \<Rightarrow> shard_sys \<Rightarrow> bool"
  for D C h0 where
  reach_start: "shard_reachable D C h0 h0"
| reach_step: "shard_reachable D C h0 h \<Longrightarrow> shard_step D C h h' \<Longrightarrow> shard_reachable D C h0 h'"

inductive_cases shard_stepE: "shard_step D C h h'"

lemma reach_trans: "shard_reachable D C h h' \<Longrightarrow> shard_reachable D C h0 h \<Longrightarrow> shard_reachable D C h0 h'"
  by (induction rule: shard_reachable.induct) (auto intro: reach_step)

lemma reach_one: "shard_step D C h h' \<Longrightarrow> shard_reachable D C h h'"
  by (rule reach_step [OF reach_start])

lemma set_go_simps [simp]:
  "sy_db (set_go k g h) = sy_db h" "sy_obs (set_go k g h) = sy_obs h" "sy_call (set_go k g h) = sy_call h"
  "sy_replies (set_go k g h) = sy_replies h" "sy_go (set_go k g h) = (sy_go h)(k := g)"
  by (simp_all add: set_go_def)

lemma set_call_simps [simp]:
  "sy_db (set_call i st h) = sy_db h" "sy_obs (set_call i st h) = sy_obs h" "sy_go (set_call i st h) = sy_go h"
  "sy_replies (set_call i st h) = sy_replies h" "sy_call (set_call i st h) = (sy_call h)(i := st)"
  by (simp_all add: set_call_def)

lemma view_simps [simp]:
  "ss_db (view k h) = sy_db h" "ss_auctions (view k h) = go_mem (sy_go h k)" "ss_obs (view k h) = sy_obs h"
  "ss_replies (view k h) = sy_replies h"
  by (simp_all add: view_def)

lemma leave_simps [simp]:
  "sy_db (leave k g s h) = ss_db s" "sy_obs (leave k g s h) = ss_obs s" "sy_call (leave k g s h) = sy_call h"
  "sy_replies (leave k g s h) = ss_replies s"
  "sy_go (leave k g s h) = (sy_go h)(k := g\<lparr>go_mem := ss_auctions s\<rparr>)"
  by (simp_all add: leave_def)

text \<open>The moves with their reads of the state taken apart.\<close>

lemma receive_eq:
  assumes "go_inbox (sy_go h k) = c # cs" and "sh_decide e c (view k h) = (p, s)"
  shows "receive k e late h = leave k ((sy_go h k)\<lparr>go_inbox := cs, go_batch := decided (go_batch (sy_go h k)) p,
    go_sealed := (go_batch (sy_go h k) \<noteq> [] \<and> late)\<rparr>) s h"
  using assms by (simp add: receive_def Let_def)

lemma commits_simps [simp]:
  "sy_call (commits k ce h) = sy_call h"
  "sy_replies (commits k ce h) = ss_replies (sh_commit ce (go_batch (sy_go h k)) (view k h))"
  "sy_db (commits k ce h) = ss_db (sh_commit ce (go_batch (sy_go h k)) (view k h))"
  "sy_obs (commits k ce h) = ss_obs (sh_commit ce (go_batch (sy_go h k)) (view k h))"
  "sy_go (commits k ce h) = (sy_go h)(k := (sy_go h k)\<lparr>go_batch := [], go_sealed := False,
     go_mem := ss_auctions (sh_commit ce (go_batch (sy_go h k)) (view k h))\<rparr>)"
  by (simp_all add: commits_def Let_def)

lemma enqueue_simps [simp]:
  "sy_db (enqueue i c h) = sy_db h" "sy_obs (enqueue i c h) = sy_obs h" "sy_replies (enqueue i c h) = sy_replies h"
  "sy_call (enqueue i c h) = (sy_call h)(i := Waiting c)"
  "sy_go (enqueue i c h) = (sy_go h)(routed c := (sy_go h (routed c))\<lparr>go_inbox := go_inbox (sy_go h (routed c)) @ [c]\<rparr>)"
  by (simp_all add: enqueue_def Let_def)

section \<open>Every caller is in one place\<close>

text \<open>The commands the engine holds: queued, decided and not committed, or answered.\<close>

definition held_by :: "goroutine \<Rightarrow> command multiset" where
  "held_by g = mset (go_inbox g) + mset (map pb_cmd (go_batch g))"

definition in_flight :: "shard_sys \<Rightarrow> command multiset" where
  "in_flight h = (\<Sum>k<numShards. held_by (sy_go h k)) + mset (map fst (sy_replies h))"

fun entered :: "call \<Rightarrow> command multiset" where
  "entered (Waiting c) = {#c#}"
| "entered (Answered c r) = {#c#}"
| "entered st = {#}"

definition of_caller :: "nat \<Rightarrow> command multiset \<Rightarrow> command multiset" where
  "of_caller i M = filter_mset (\<lambda>c. cmd_caller c = i) M"

definition accounted :: "shard_sys \<Rightarrow> bool" where
  "accounted h \<longleftrightarrow>
     (\<forall>i. of_caller i (in_flight h) = entered (sy_call h i)) \<and>
     (\<forall>i c. sy_call h i = Sending c \<longrightarrow> cmd_caller c = i) \<and>
     (\<forall>i c r. sy_call h i = Answered c r \<longrightarrow> (c, r) \<in> set (sy_replies h))"

lemma routed_less [simp]: "routed c < numShards"
  by (simp add: routed_def shardFor_def numShards_def unat_mod)

lemma sum_set_go:
  assumes "k < numShards"
  shows "(\<Sum>j<numShards. f ((G(k := g)) j)) + f (G k) = (\<Sum>j<numShards. f (G j)) + (f g :: 'a::comm_monoid_add)"
proof -
  have k: "k \<in> {..<numShards}" using assms by simp
  have "(\<Sum>j<numShards. f ((G(k := g)) j)) = f g + (\<Sum>j\<in>{..<numShards} - {k}. f (G j))"
    using k by (subst sum.remove [OF _ k]) simp_all
  moreover have "(\<Sum>j<numShards. f (G j)) = f (G k) + (\<Sum>j\<in>{..<numShards} - {k}. f (G j))"
    using k by (subst sum.remove [OF _ k]) simp_all
  ultimately show ?thesis by (simp add: ac_simps)
qed

lemma in_flight_set_go:
  assumes "k < numShards" and "sy_go h' = (sy_go h)(k := g)"
    and "mset (map fst (sy_replies h')) + held_by g = mset (map fst (sy_replies h)) + held_by (sy_go h k) + N"
  shows "in_flight h' = in_flight h + N"
proof -
  let ?A' = "\<Sum>j<numShards. held_by (sy_go h' j)" and ?A = "\<Sum>j<numShards. held_by (sy_go h j)"
  have "?A' + held_by (sy_go h k) = ?A + held_by g"
    using sum_set_go [OF assms(1), of held_by "sy_go h" g] by (simp add: assms(2))
  with assms(3) have "(?A' + held_by (sy_go h k)) + (mset (map fst (sy_replies h')) + held_by g) =
      (?A + held_by g) + (mset (map fst (sy_replies h)) + held_by (sy_go h k) + N)"
    by (simp only:)
  then have "(in_flight h' + held_by g) + held_by (sy_go h k) = (in_flight h + N + held_by g) + held_by (sy_go h k)"
    by (simp only: in_flight_def ac_simps)
  then show ?thesis by simp
qed

lemma receive_in_flight:
  assumes "k < numShards" and "receives (sy_go h k)"
  shows "in_flight (receive k e late h) = in_flight h"
    and "set (sy_replies h) \<subseteq> set (sy_replies (receive k e late h))"
    and "sy_call (receive k e late h) = sy_call h"
proof -
  obtain c cs where c: "go_inbox (sy_go h k) = c # cs"
    using assms(2) by (auto simp: receives_def neq_Nil_conv)
  obtain p s where d: "sh_decide e c (view k h) = (p, s)" by fastforce
  define g where "g = (sy_go h k)\<lparr>go_inbox := cs, go_batch := decided (go_batch (sy_go h k)) p,
    go_sealed := (go_batch (sy_go h k) \<noteq> [] \<and> late), go_mem := ss_auctions s\<rparr>"
  have r: "sy_go (receive k e late h) = (sy_go h)(k := g)" "sy_replies (receive k e late h) = ss_replies s"
      "sy_call (receive k e late h) = sy_call h"
    by (simp_all add: receive_eq [OF c d] g_def)
  have "mset (map fst (ss_replies s)) + held_by g = mset (map fst (sy_replies h)) + held_by (sy_go h k)"
    using d by (elim sh_decide_cases) (auto simp: held_by_def g_def c)
  then show "in_flight (receive k e late h) = in_flight h"
    using in_flight_set_go [OF assms(1) r(1), of "{#}"] by (simp add: r(2))
  show "set (sy_replies h) \<subseteq> set (sy_replies (receive k e late h))"
    using d by (elim sh_decide_cases) (auto simp: r)
  show "sy_call (receive k e late h) = sy_call h" by (rule r)
qed

lemma sh_commit_replies:
  "\<exists>rs. ss_replies (sh_commit ce batch s) = ss_replies s @ rs \<and> map fst rs = map pb_cmd batch"
  by (auto simp: sh_commit_eq Let_def comp_def split: prod.splits sum.splits)

lemma commits_in_flight:
  assumes "k < numShards"
  shows "in_flight (commits k ce h) = in_flight h"
    and "set (sy_replies h) \<subseteq> set (sy_replies (commits k ce h))"
proof -
  obtain rs where rs: "sy_replies (commits k ce h) = sy_replies h @ rs" "map fst rs = map pb_cmd (go_batch (sy_go h k))"
    using sh_commit_replies [of ce "go_batch (sy_go h k)" "view k h"] by auto
  show "set (sy_replies h) \<subseteq> set (sy_replies (commits k ce h))" unfolding rs(1) by simp
  have "mset (map fst (sy_replies (commits k ce h))) + held_by (sy_go (commits k ce h) k) =
      mset (map fst (sy_replies h)) + held_by (sy_go h k)"
    unfolding rs(1) by (simp add: held_by_def rs(2))
  then show "in_flight (commits k ce h) = in_flight h"
    using in_flight_set_go [OF assms, of "commits k ce h" h _ "{#}"] by simp
qed

lemma enqueue_in_flight: "in_flight (enqueue i c h) = add_mset c (in_flight h)"
  using in_flight_set_go [OF routed_less, of "enqueue i c h" h c _ "{#c#}"] by (simp add: held_by_def)

lemma seal_simps [simp]:
  "sy_db (seal k h) = sy_db h" "sy_obs (seal k h) = sy_obs h" "sy_replies (seal k h) = sy_replies h"
  "sy_call (seal k h) = sy_call h" "sy_go (seal k h) = (sy_go h)(k := (sy_go h k)\<lparr>go_sealed := True\<rparr>)"
  by (simp_all add: seal_def)

lemma seal_in_flight: "in_flight (seal k h) = in_flight h"
proof -
  have "(\<lambda>j. held_by (sy_go (seal k h) j)) = (\<lambda>j. held_by (sy_go h j))"
    by (auto simp: held_by_def)
  then show ?thesis by (simp only: in_flight_def seal_simps)
qed

lemma accounted_cong:
  assumes "accounted h" and "in_flight h' = in_flight h" and "sy_call h' = sy_call h"
    and "set (sy_replies h) \<subseteq> set (sy_replies h')"
  shows "accounted h'"
  using assms unfolding accounted_def by (metis subsetD)

lemma accounted_call:
  assumes a: "accounted h" and i: "in_flight h' = in_flight h + M" "of_caller i M + entered (sy_call h i) = entered st"
    and j: "\<And>j. j \<noteq> i \<Longrightarrow> of_caller j M = {#}"
    and h': "sy_call h' = (sy_call h)(i := st)" "sy_replies h' = sy_replies h"
    and st: "\<And>c. st = Sending c \<Longrightarrow> cmd_caller c = i" "\<And>c r. st = Answered c r \<Longrightarrow> (c, r) \<in> set (sy_replies h)"
  shows "accounted h'"
  unfolding accounted_def
proof (intro conjI allI impI)
  fix n
  have "of_caller n (in_flight h) = entered (sy_call h n)" using a by (simp add: accounted_def)
  then show "of_caller n (in_flight h') = entered (sy_call h' n)"
    using i(2) j [of n] by (cases "n = i") (simp_all add: h' i(1) of_caller_def add.commute)
qed (use a st h' in \<open>auto simp: accounted_def split: if_splits\<close>)

lemma step_accounted:
  assumes "shard_step D C h h'" and a: "accounted h"
  shows "accounted h'"
  using assms(1)
proof (cases rule: shard_step.cases)
  case (step_call i req now)
  show ?thesis unfolding step_call(1)
    by (rule accounted_call [OF a, where M = "{#}" and i = i])
      (use step_call(2) in \<open>auto simp: begin_call_def in_flight_def of_caller_def\<close>)
next
  case (step_enqueue i c)
  have "cmd_caller c = i" using a step_enqueue(2) by (simp add: accounted_def)
  then show ?thesis unfolding step_enqueue(1)
    by (intro accounted_call [OF a, where M = "{#c#}" and i = i])
      (use step_enqueue(2) in \<open>auto simp: enqueue_in_flight of_caller_def\<close>)
next
  case (step_give_up i c)
  show ?thesis unfolding step_give_up(1)
    by (rule accounted_call [OF a, where M = "{#}" and i = i])
      (use step_give_up(2) in \<open>auto simp: in_flight_def of_caller_def\<close>)
next
  case (step_answer i c r)
  show ?thesis unfolding step_answer(1)
    by (rule accounted_call [OF a, where M = "{#}" and i = i])
      (use step_answer(2,3) in \<open>auto simp: in_flight_def of_caller_def\<close>)
next
  case (step_receive k e late)
  show ?thesis unfolding step_receive(1)
    by (rule accounted_cong [OF a]) (use receive_in_flight [OF step_receive(2,3)] in simp_all)
next
  case (step_commit k ce)
  show ?thesis unfolding step_commit(1)
    by (rule accounted_cong [OF a]) (use commits_in_flight [OF step_commit(2)] in simp_all)
next
  case (step_seal k)
  show ?thesis unfolding step_seal(1)
    by (rule accounted_cong [OF a]) (simp_all add: seal_in_flight)
qed (auto intro!: accounted_cong [OF a] simp: in_flight_def)

lemma reachable_accounted: "shard_reachable D C h0 h \<Longrightarrow> accounted h0 \<Longrightarrow> accounted h"
  by (induction rule: shard_reachable.induct) (auto intro: step_accounted)

lemma New_accounted: "accounted (shard_New d)"
  by (simp add: accounted_def shard_New_def newShard_def in_flight_def held_by_def of_caller_def)

text \<open>What the loop keeps of each goroutine: the inbox's capacity, the batch's, the routing.\<close>

definition orderly :: "nat \<Rightarrow> goroutine \<Rightarrow> bool" where
  "orderly k g \<longleftrightarrow> length (go_inbox g) \<le> inboxCap \<and> length (go_batch g) \<le> batchMax \<and>
     (go_sealed g \<longrightarrow> go_batch g \<noteq> []) \<and>
     (\<forall>c \<in> set (go_inbox g). routed c = k) \<and>
     (\<forall>p \<in> set (go_batch g). routed (pb_cmd p) = k \<and> shardFor (pb_auction p) numShards = k) \<and>
     (\<forall>x. go_mem g x \<noteq> None \<longrightarrow> shardFor x numShards = k)"

definition orderly_all :: "shard_sys \<Rightarrow> bool" where
  "orderly_all h \<longleftrightarrow> (\<forall>k<numShards. orderly k (sy_go h k))"

lemma decide_mem:
  "sh_decide e c s = (p, s') \<Longrightarrow> ss_auctions s' x \<noteq> None \<Longrightarrow> ss_auctions s x \<noteq> None \<or> x = req_auction (cmd_req c)"
  by (auto simp: sh_decide_def sh_state_of_def Let_def split: option.splits sum.splits if_splits prod.splits)

lemma commit_mem: "ss_auctions (sh_commit ce batch s) x \<noteq> None \<Longrightarrow> ss_auctions s x \<noteq> None"
  by (auto simp: sh_commit_eq Let_def split: prod.splits sum.splits if_splits)

lemma orderly_set_go:
  "orderly_all h \<Longrightarrow> sy_go h' = (sy_go h)(k := g) \<Longrightarrow> orderly k g \<Longrightarrow> orderly_all h'"
  by (simp add: orderly_all_def)

lemma orderly_receive:
  assumes ord: "orderly_all h" and k: "k < numShards" and r: "receives (sy_go h k)"
  shows "orderly_all (receive k e late h)"
proof -
  obtain c cs where c: "go_inbox (sy_go h k) = c # cs"
    using r by (auto simp: receives_def neq_Nil_conv)
  obtain p s where d: "sh_decide e c (view k h) = (p, s)" by fastforce
  have g: "orderly k (sy_go h k)" using ord k by (simp add: orderly_all_def)
  then have ck: "routed c = k" by (simp add: orderly_def c)
  have "\<forall>x. go_mem (sy_go h k) x \<noteq> None \<longrightarrow> shardFor x numShards = k" using g by (simp add: orderly_def)
  moreover have "shardFor (req_auction (cmd_req c)) numShards = k" using ck by (simp add: routed_def)
  ultimately have mem: "\<forall>x. ss_auctions s x \<noteq> None \<longrightarrow> shardFor x numShards = k"
    using decide_mem [OF d] unfolding view_simps by metis
  have batch: "\<forall>q \<in> set (decided (go_batch (sy_go h k)) p). routed (pb_cmd q) = k \<and> shardFor (pb_auction q) numShards = k"
    using d g ck by (elim sh_decide_cases) (auto simp: orderly_def routed_def)
  have len: "length (decided (go_batch (sy_go h k)) p) \<le> batchMax"
    using r by (cases p) (simp_all add: receives_def)
  have seal: "go_batch (sy_go h k) \<noteq> [] \<longrightarrow> decided (go_batch (sy_go h k)) p \<noteq> []"
    by (cases p) simp_all
  show ?thesis
    by (rule orderly_set_go [OF ord receive_eq [OF c d, THEN arg_cong [where f = sy_go], unfolded leave_simps]])
      (use g c mem batch len seal in \<open>simp add: orderly_def\<close>)
qed

lemma orderly_commit: "orderly k (sy_go h k) \<Longrightarrow> orderly k (sy_go (commits k ce h) k)"
  using commit_mem [of ce "go_batch (sy_go h k)" "view k h"] by (simp add: orderly_def)

lemma step_orderly:
  assumes "shard_step D C h h'" and ord: "orderly_all h"
  shows "orderly_all h'"
  using assms(1)
proof (cases rule: shard_step.cases)
  case (step_enqueue i c)
  have "orderly (routed c) (sy_go h (routed c))" using ord by (simp add: orderly_all_def)
  with step_enqueue(3) show ?thesis unfolding step_enqueue(1)
    by (intro orderly_set_go [OF ord enqueue_simps(5)]) (simp add: orderly_def has_room_def)
next
  case (step_receive k e late)
  show ?thesis unfolding step_receive(1) by (rule orderly_receive [OF ord step_receive(2,3)])
next
  case (step_seal k)
  have "orderly k (sy_go h k)" using ord step_seal(2) by (simp add: orderly_all_def)
  with step_seal(3) show ?thesis unfolding step_seal(1)
    by (intro orderly_set_go [OF ord seal_simps(5)]) (simp add: orderly_def breaks_def)
next
  case (step_commit k ce)
  have "orderly k (sy_go h k)" using ord step_commit(2) by (simp add: orderly_all_def)
  then show ?thesis unfolding step_commit(1)
    by (intro orderly_set_go [OF ord commits_simps(5)]) (use orderly_commit in fastforce)
qed (use ord in \<open>auto simp: orderly_all_def begin_call_def\<close>)

lemma reachable_orderly: "shard_reachable D C h0 h \<Longrightarrow> orderly_all h0 \<Longrightarrow> orderly_all h"
  by (induction rule: shard_reachable.induct) (auto intro: step_orderly)

lemma New_orderly: "orderly_all (shard_New d)"
  by (simp add: orderly_all_def orderly_def shard_New_def newShard_def)

section \<open>Eight goroutines over one database\<close>

text \<open>
  A goroutine owns the auctions that route to it. Its open batch and its map stand against the
  database as in the run of one goroutine, and survive whatever leaves those auctions alone:
  another session's stamp, another goroutine's commit.
\<close>

definition owned :: "nat \<Rightarrow> uuid set" where
  "owned k = {x. shardFor x numShards = k}"

definition clear :: "goroutine \<Rightarrow> db \<Rightarrow> bool" where
  "clear g d \<longleftrightarrow>
     batch_ok (go_batch g) d \<and> list_all (\<lambda>p. sint (pb_amount p) \<le> money_cap \<and> aligned p) (go_batch g) \<and>
     coherent (go_mem g) (journal (go_batch g) d) \<and> (\<forall>p \<in> set (go_batch g). go_mem g (pb_auction p) \<noteq> None)"

lemma clear_covers:
  assumes "clear g d" and "orderly k g" and c: "covers_on (owned k) d d'"
  shows "clear g d'"
proof -
  have "pb_auction ` set (go_batch g) \<subseteq> owned k" using assms(2) by (auto simp: orderly_def owned_def)
  from covers_on_batch [OF c _ this] assms(1) have "batch_ok (go_batch g) d'"
      "covers_on (owned k) (journal (go_batch g) d) (journal (go_batch g) d')"
    by (simp_all add: clear_def)
  moreover have "coherent (go_mem g) (journal (go_batch g) d')"
    by (rule coherent_covers_on [of _ "journal (go_batch g) d"])
      (use assms(1,2) calculation(2) in \<open>auto simp: clear_def orderly_def owned_def\<close>)
  ultimately show ?thesis using assms(1) by (simp add: clear_def)
qed

definition recorded :: "shard_sys \<Rightarrow> nat" where
  "recorded h = length (db_bids (sy_db h)) + (\<Sum>k<numShards. length (go_batch (sy_go h k)))"

definition lawful :: "db \<Rightarrow> shard_sys \<Rightarrow> bool" where
  "lawful d0 h \<longleftrightarrow> orderly_all h \<and>
     db_inv (sy_db h) \<and> evolves d0 (sy_db h) \<and> capped (sy_db h) \<and> (\<forall>k<numShards. clear (sy_go h k) (sy_db h)) \<and>
     list_all (kept (sy_db h)) (sy_replies h) \<and>
     recorded h \<le> length (db_bids d0) + length (obs_accept (sy_obs h))"

lemma recorded_set_go:
  assumes "k < numShards" and "sy_go h' = (sy_go h)(k := g)"
    and "length (db_bids (sy_db h')) + length (go_batch g) \<le> length (db_bids (sy_db h)) + length (go_batch (sy_go h k)) + n"
  shows "recorded h' \<le> recorded h + n"
  using sum_set_go [OF assms(1), of "\<lambda>g. length (go_batch g)" "sy_go h" g] assms(2,3)
  by (simp add: recorded_def)

lemma recorded_member: "k < numShards \<Longrightarrow> length (db_bids (sy_db h)) + length (go_batch (sy_go h k)) \<le> recorded h"
  unfolding recorded_def
  using member_le_sum [of k "{..<numShards}" "\<lambda>k. length (go_batch (sy_go h k))"] by simp

text \<open>Everything but the moved goroutine is kept by a move the others cannot tell from none.\<close>

lemma lawful_set_go:
  assumes l: "lawful d0 h" and k: "k < numShards" and go: "sy_go h' = (sy_go h)(k := g)"
    and ord: "orderly k g" and g: "clear g (sy_db h')"
    and cov: "\<And>j. j \<noteq> k \<Longrightarrow> covers_on (owned j) (sy_db h) (sy_db h')"
    and db: "evolves (sy_db h) (sy_db h')" "capped (sy_db h')" "list_all (kept (sy_db h')) (sy_replies h')"
    and n: "recorded h' + length (obs_accept (sy_obs h)) \<le> recorded h + length (obs_accept (sy_obs h'))"
  shows "lawful d0 h'"
proof -
  have old: "orderly_all h" "db_inv (sy_db h)" "evolves d0 (sy_db h)" "\<forall>j<numShards. clear (sy_go h j) (sy_db h)"
      "recorded h \<le> length (db_bids d0) + length (obs_accept (sy_obs h))"
    using l by (simp_all add: lawful_def)
  have "clear (sy_go h' j) (sy_db h')" if j: "j < numShards" for j
  proof (cases "j = k")
    case False
    have "clear (sy_go h j) (sy_db h')"
      by (rule clear_covers [OF _ _ cov [OF False]]) (use old(1,4) j in \<open>simp_all add: orderly_all_def\<close>)
    with False show ?thesis by (simp add: go)
  qed (simp add: go g)
  moreover have "orderly_all h'" using old(1) ord by (simp add: orderly_all_def go)
  ultimately show ?thesis
    using old(2,3,5) db n evolves_trans [OF old(3) db(1)] db_inv_evolves [OF db(1) old(2)] by (simp add: lawful_def)
qed

lemma lawful_receive:
  assumes l: "lawful d0 h" and k: "k < numShards" and r: "receives (sy_go h k)"
    and ok: "decide_ok e (hd (go_inbox (sy_go h k)))"
    and n: "length (db_bids d0) + length (obs_accept (sy_obs h)) < 2 ^ 63 - 1"
  shows "lawful d0 (receive k e late h)"
proof -
  obtain c cs where c: "go_inbox (sy_go h k) = c # cs"
    using r by (auto simp: receives_def neq_Nil_conv)
  obtain p s where d: "sh_decide e c (view k h) = (p, s)" by fastforce
  let ?b = "go_batch (sy_go h k)" and ?h = "receive k e late h"
  note r' = receive_eq [OF c d, of late]
  have old: "db_inv (sy_db h)" "capped (sy_db h)" "clear (sy_go h k) (sy_db h)" "list_all (kept (sy_db h)) (sy_replies h)"
      "recorded h \<le> length (db_bids d0) + length (obs_accept (sy_obs h))"
    using l k by (simp_all add: lawful_def)
  have b: "batch_ok ?b (sy_db h)" "list_all (\<lambda>p. sint (pb_amount p) \<le> money_cap) ?b" "list_all aligned ?b"
      "coherent (go_mem (sy_go h k)) (journal ?b (sy_db h))" "\<And>q. q \<in> set ?b \<Longrightarrow> go_mem (sy_go h k) (pb_auction q) \<noteq> None"
    using old(3) by (simp_all add: clear_def list_all_iff)
  let ?n = "int (length (db_bids (sy_db h)) + length ?b)"
  have "length (db_bids (sy_db h)) + length ?b < 2 ^ 63 - 1"
    using recorded_member [OF k, of h] old(5) n by (rule le_less_trans [OF order_trans])
  then have "?n < 2 ^ 63 - 1" by simp
  moreover have "sane ?n (journal ?b (sy_db h))"
    using sane_journal [OF sane_db [OF old(1,2)] b(1,2)] by simp
  moreover have "decide_ok e c" using ok c by simp
  ultimately have nx: "coherent (ss_auctions s) (journal (decided ?b p) (sy_db h))"
      "\<And>q. q \<in> set (decided ?b p) \<Longrightarrow> ss_auctions s (pb_auction q) \<noteq> None"
      "\<And>q. p = Some q \<Longrightarrow> next_pending_ok (journal ?b (sy_db h)) q"
    using sh_decide_next [OF d, of ?b ?n] b(4,5) by simp_all
  have db: "ss_db s = sy_db h" using d by (elim sh_decide_cases) simp_all
  have am: "list_all (\<lambda>p. sint (pb_amount p) \<le> money_cap \<and> aligned p) (decided ?b p)"
    using d b(2,3) \<open>decide_ok e c\<close> by (elim sh_decide_cases) (auto simp: decide_ok_def aligned_def list_all_iff)
  have cl: "clear (sy_go ?h k) (sy_db h)"
    using b(1) nx am by (cases p) (simp_all add: r' clear_def batch_ok_snoc)
  have kp: "list_all (kept (sy_db h)) (ss_replies s)"
    using d old(4) by (elim sh_decide_cases) (auto simp: kept_not_accepted)
  have n': "length (decided ?b p) + length (obs_accept (sy_obs h)) = length ?b + length (obs_accept (ss_obs s))"
    using d by (elim sh_decide_cases) auto
  have go: "sy_go ?h = (sy_go h)(k := sy_go ?h k)" by (simp add: r')
  have "orderly k (sy_go ?h k)"
    using orderly_receive [OF _ k r] l k by (simp add: lawful_def orderly_all_def)
  moreover have "recorded ?h + length (obs_accept (sy_obs h)) \<le> recorded h + length (obs_accept (sy_obs ?h))"
    using sum_set_go [OF k, of "\<lambda>g. length (go_batch g)" "sy_go h" "sy_go ?h k"] n' db
    by (simp add: recorded_def r')
  ultimately show ?thesis
    by (intro lawful_set_go [OF l k go]) (use cl kp old(2) db in \<open>simp_all add: r'\<close>)
qed

lemma lawful_commit:
  assumes l: "lawful d0 h" and k: "k < numShards" and sl: "go_sealed (sy_go h k)"
    and st: "settles (co_pick ce) (go_batch (sy_go h k))"
  shows "lawful d0 (commits k ce h)"
proof -
  let ?b = "go_batch (sy_go h k)" and ?s = "sh_commit ce (go_batch (sy_go h k)) (view k h)"
  let ?h = "commits k ce h"
  have old: "db_inv (sy_db h)" "capped (sy_db h)" "clear (sy_go h k) (sy_db h)" "list_all (kept (sy_db h)) (sy_replies h)"
      "orderly k (sy_go h k)"
    using l k by (simp_all add: lawful_def orderly_all_def)
  have b: "batch_ok ?b (sy_db h)" "list_all (\<lambda>p. sint (pb_amount p) \<le> money_cap) ?b" "list_all aligned ?b"
      "coherent (go_mem (sy_go h k)) (journal ?b (sy_db h))" "?b \<noteq> []" "length ?b \<le> batchMax"
    using old(3,5) sl by (simp_all add: clear_def list_all_iff orderly_def)
  note core = sh_commit_core [of "view k h", unfolded view_simps, OF old(1,2) b(1,2,4) st]
  have kp: "list_all (kept (ss_db ?s)) (ss_replies ?s)"
    using durable.keeps_commit [of ?b "[]" "view k h" "\<lambda>_. ce"] old(4) b by (simp add: all_kept_def)
  have obs: "obs_accept (ss_obs ?s) = obs_accept (sy_obs h)"
    by (simp add: sh_commit_eq Let_def split: prod.splits sum.splits)
  have cov: "covers_on (owned j) (sy_db h) (ss_db ?s)" if "j \<noteq> k" for j
  proof -
    have "x \<notin> pb_auction ` set ?b" if "x \<in> owned j" for x
      using old(5) that \<open>j \<noteq> k\<close> by (auto simp: orderly_def owned_def)
    then have "find_auction (ss_db ?s) x = find_auction (sy_db h) x" if "x \<in> owned j" for x
      using core(1) that journal_other [of x ?b "sy_db h"] by auto
    then show ?thesis by (simp add: covers_on_def same_row_def)
  qed
  have "orderly k (sy_go ?h k)"
    by (rule orderly_commit [OF old(5)])
  moreover have "recorded ?h \<le> recorded h + 0"
    by (rule recorded_set_go [OF k commits_simps(5)]) (use core(5) in simp)
  ultimately show ?thesis
    by (intro lawful_set_go [OF l k commits_simps(5)]) (use cov core(2-4) kp obs in \<open>simp_all add: clear_def\<close>)
qed

lemma lawful_world:
  assumes l: "lawful d0 h" and cov: "\<And>X. covers_on X (sy_db h) d'" and ev: "evolves (sy_db h) d'" and cap: "capped d'"
    and bids: "db_bids d' = db_bids (sy_db h)"
  shows "lawful d0 (h\<lparr>sy_db := d'\<rparr>)"
proof (rule lawful_set_go [OF l, of 0])
  have g: "orderly 0 (sy_go h 0)" "clear (sy_go h 0) (sy_db h)"
    using l by (simp_all add: lawful_def orderly_all_def numShards_def)
  show "orderly 0 (sy_go h 0)" by (rule g)
  show "clear (sy_go h 0) (sy_db (h\<lparr>sy_db := d'\<rparr>))"
    using clear_covers [OF g(2,1) cov] by simp
  show "list_all (kept (sy_db (h\<lparr>sy_db := d'\<rparr>))) (sy_replies (h\<lparr>sy_db := d'\<rparr>))"
    using l bids all_kept_append [of "sy_db h" "sy_replies h" d' "[]"] by (simp add: lawful_def)
qed (use cov ev cap bids in \<open>simp_all add: numShards_def recorded_def\<close>)

text \<open>The environment of the theorems: one clock per decision, and an UPDATE that settles its batch.\<close>

definition lasting :: "commit_env \<Rightarrow> pending_bid list \<Rightarrow> bool" where
  "lasting ce batch \<longleftrightarrow> settles (co_pick ce) batch"

abbreviation decisions :: "shard_sys \<Rightarrow> nat" where
  "decisions h \<equiv> length (obs_accept (sy_obs h))"

lemma decisions_mono: "shard_step D C h h' \<Longrightarrow> decisions h \<le> decisions h'"
proof (erule shard_stepE)
  fix k e late
  assume "receives (sy_go h k)" and h': "h' = receive k e late h"
  then obtain c cs where c: "go_inbox (sy_go h k) = c # cs"
    by (auto simp: receives_def neq_Nil_conv)
  obtain p s where d: "sh_decide e c (view k h) = (p, s)" by fastforce
  from d show "decisions h \<le> decisions h'"
    unfolding h' receive_eq [OF c d] by (elim sh_decide_cases) simp_all
next
  fix k ce
  assume "h' = commits k ce h"
  then show "decisions h \<le> decisions h'"
    by (simp add: sh_commit_eq Let_def split: prod.splits sum.splits)
qed (simp_all add: begin_call_def)

lemma lawful_frame:
  "lawful d0 h \<Longrightarrow> sy_db h' = sy_db h \<Longrightarrow> sy_obs h' = sy_obs h \<Longrightarrow> sy_go h' = sy_go h \<Longrightarrow>
   sy_replies h' = sy_replies h \<Longrightarrow> lawful d0 h'"
  by (simp add: lawful_def orderly_all_def recorded_def)

lemma step_lawful:
  assumes "shard_step decide_ok lasting h h'" and l: "lawful d0 h"
    and n: "length (db_bids d0) + decisions h < 2 ^ 63 - 1"
  shows "lawful d0 h'"
  using assms(1)
proof (cases rule: shard_step.cases)
  case (step_enqueue i c)
  let ?k = "routed c"
  have "clear (sy_go h ?k) (sy_db h)" using l by (simp add: lawful_def)
  moreover have "orderly ?k (sy_go h' ?k)"
    using step_orderly [OF assms(1)] l by (simp add: lawful_def orderly_all_def)
  moreover have "recorded h' \<le> recorded h + 0"
    unfolding step_enqueue(1) by (rule recorded_set_go [OF routed_less enqueue_simps(5)]) simp
  ultimately show ?thesis unfolding step_enqueue(1)
    by (intro lawful_set_go [OF l routed_less enqueue_simps(5)])
      (use l in \<open>simp_all add: clear_def lawful_def\<close>)
next
  case (step_receive k e late)
  show ?thesis unfolding step_receive(1) by (rule lawful_receive [OF l step_receive(2-4) n])
next
  case (step_seal k)
  have "clear (sy_go h k) (sy_db h)" using l step_seal(2) by (simp add: lawful_def)
  moreover have "orderly k (sy_go h' k)"
    using step_orderly [OF assms(1)] l step_seal(2) by (simp add: lawful_def orderly_all_def)
  moreover have "recorded h' \<le> recorded h + 0"
    unfolding step_seal(1) by (rule recorded_set_go [OF step_seal(2) seal_simps(5)]) simp
  ultimately show ?thesis unfolding step_seal(1)
    by (intro lawful_set_go [OF l step_seal(2) seal_simps(5)])
      (use l in \<open>simp_all add: clear_def lawful_def\<close>)
next
  case (step_commit k ce)
  then show ?thesis by (auto intro: lawful_commit [OF l] simp: lasting_def)
next
  case (step_stamp x t)
  have "capped (stamped x t (sy_db h))"
    using l by (auto simp: lawful_def stamped_def intro: capped_close split: option.splits)
  then show ?thesis unfolding step_stamp
    by (intro lawful_world [OF l covers_stamp stamp_evolves]) simp_all
next
  case (step_create a)
  have "capped (created a (sy_db h))"
    using l step_create(2,3) by (auto simp: lawful_def created_def capped_def)
  then show ?thesis unfolding step_create(1)
    by (intro lawful_world [OF l covers_create create_evolves]) simp_all
qed (auto intro: lawful_frame [OF l] simp: begin_call_def)

lemma reachable_lawful:
  "shard_reachable decide_ok lasting h0 h \<Longrightarrow> lawful d0 h0 \<Longrightarrow>
   length (db_bids d0) + decisions h < 2 ^ 63 - 1 \<Longrightarrow> lawful d0 h"
proof (induction rule: shard_reachable.induct)
  case (reach_step h h')
  have "length (db_bids d0) + decisions h < 2 ^ 63 - 1"
    using decisions_mono [OF reach_step.hyps(2)] reach_step.prems(2) by (rule le_less_trans [OF add_left_mono])
  then show ?case using reach_step step_lawful by blast
qed

lemma New_lawful: "db_inv d \<Longrightarrow> capped d \<Longrightarrow> lawful d (shard_New d)"
  using New_orderly [of d]
  by (simp add: lawful_def recorded_def clear_def coherent_def) (simp add: shard_New_def newShard_def)

section \<open>Draining an inbox\<close>

text \<open>How far a goroutine is from an empty inbox with nothing to commit.\<close>

definition workload :: "goroutine \<Rightarrow> nat" where
  "workload g = 3 * length (go_inbox g) + (if go_batch g = [] then 0 else if go_sealed g then 1 else 2)"

lemma workload_zero: "workload g = 0 \<longleftrightarrow> go_inbox g = [] \<and> go_batch g = []"
  by (simp add: workload_def)

text \<open>A goroutine with work never blocks, and whatever it does next brings it closer.\<close>

lemma goroutine_moves:
  assumes ord: "orderly_all h" and k: "k < numShards" and w: "workload (sy_go h k) \<noteq> 0"
    and D: "\<forall>c. \<exists>e. D e c" and C: "\<forall>batch. \<exists>ce. C ce batch"
  shows "\<exists>h'. shard_step D C h h' \<and> sy_call h' = sy_call h \<and> workload (sy_go h' k) < workload (sy_go h k)"
proof -
  let ?g = "sy_go h k"
  have g: "orderly k ?g" using ord k by (simp add: orderly_all_def)
  have "length (go_batch ?g) \<le> batchMax" using g by (simp add: orderly_def)
  then have "go_sealed ?g \<or> receives ?g \<or> breaks ?g"
    using w by (cases "go_inbox ?g = []"; cases "go_batch ?g = []")
      (auto simp: workload_def receives_def breaks_def batchMax_def)
  then consider (sealed) "go_sealed ?g" | (open') "receives ?g" | (full) "breaks ?g" by blast
  then show ?thesis
  proof cases
    case sealed
    obtain ce where "C ce (go_batch ?g)" using C by blast
    with k sealed have "shard_step D C h (commits k ce h)" by (rule step_commit)
    moreover have "workload (sy_go (commits k ce h) k) < workload ?g"
      using sealed g by (simp add: workload_def orderly_def)
    ultimately show ?thesis by (intro exI [of _ "commits k ce h"]) simp
  next
    case open'
    then obtain c cs where c: "go_inbox ?g = c # cs"
      by (auto simp: receives_def neq_Nil_conv)
    obtain e where e: "D e (hd (go_inbox ?g))" using D by blast
    obtain p s where d: "sh_decide e c (view k h) = (p, s)" by fastforce
    have "workload (sy_go (receive k e False h) k) < workload ?g"
      by (simp add: receive_eq [OF c d] workload_def c)
    moreover have "shard_step D C h (receive k e False h)" using k open' e by (rule step_receive)
    ultimately show ?thesis using receive_in_flight(3) [OF k open'] by blast
  next
    case full
    then have "workload (sy_go (seal k h) k) < workload ?g" by (simp add: breaks_def workload_def)
    with step_seal [OF k full, of D C] show ?thesis by (intro exI [of _ "seal k h"]) simp
  qed
qed

lemma drain:
  assumes "orderly_all h" and k: "k < numShards"
    and D: "\<forall>c. \<exists>e. D e c" and C: "\<forall>batch. \<exists>ce. C ce batch"
  shows "\<exists>h'. shard_reachable D C h h' \<and> sy_call h' = sy_call h \<and> workload (sy_go h' k) = 0"
  using assms(1)
proof (induction "workload (sy_go h k)" arbitrary: h rule: less_induct)
  case less
  show ?case
  proof (cases "workload (sy_go h k) = 0")
    case True
    then show ?thesis by (intro exI [of _ h]) (simp add: reach_start)
  next
    case False
    from goroutine_moves [OF less.prems k False D C] obtain h1 where h1: "shard_step D C h h1"
        "sy_call h1 = sy_call h" "workload (sy_go h1 k) < workload (sy_go h k)"
      by blast
    from less.hyps [OF h1(3) step_orderly [OF h1(1) less.prems]] obtain h' where
      h': "shard_reachable D C h1 h'" "sy_call h' = sy_call h1" "workload (sy_go h' k) = 0"
      by blast
    show ?thesis
      by (intro exI [of _ h']) (use reach_trans [OF h'(1) reach_one [OF h1(1)]] h' h1(2) in simp)
  qed
qed

lemma held_routed: "orderly_all h \<Longrightarrow> k < numShards \<Longrightarrow> c \<in># held_by (sy_go h k) \<Longrightarrow> routed c = k"
  by (auto simp: orderly_all_def orderly_def held_by_def)

text \<open>A reply channel is sent one answer.\<close>

lemma only_answer:
  assumes a: "accounted h" and ans: "sy_call h i = Answered c r"
  shows "filter (\<lambda>x. cmd_caller (fst x) = i) (sy_replies h) = [(c, r)]"
proof -
  let ?R = "filter (\<lambda>x. cmd_caller (fst x) = i) (sy_replies h)"
  have one: "of_caller i (in_flight h) = {#c#}" and mem: "(c, r) \<in> set (sy_replies h)"
    using a ans by (auto simp: accounted_def)
  have "c \<in># of_caller i (in_flight h)" by (simp add: one)
  then have "cmd_caller c = i" by (simp add: of_caller_def)
  with mem have r: "(c, r) \<in> set ?R" by simp
  have "mset (map fst ?R) = filter_mset (\<lambda>c. cmd_caller c = i) (mset (map fst (sy_replies h)))"
    by (simp only: mset_filter [symmetric] filter_map comp_def)
  then have "mset (map fst ?R) \<subseteq># of_caller i (in_flight h)"
    by (simp add: of_caller_def in_flight_def)
  then have "size (mset (map fst ?R)) \<le> size {#c#}" unfolding one by (rule size_mset_mono)
  then have "length ?R \<le> 1" by (simp only: size_mset length_map) simp
  with r show ?thesis by (cases ?R) auto
qed

text \<open>Once its goroutine is drained, a waiting caller's answer is in its channel.\<close>

lemma drained_answer:
  assumes a: "accounted h" and ord: "orderly_all h" and w: "sy_call h i = Waiting c"
    and z: "workload (sy_go h (routed c)) = 0"
  shows "\<exists>r. (c, r) \<in> set (sy_replies h)"
proof -
  have "c \<in># of_caller i (in_flight h)" using a w by (simp add: accounted_def)
  then have "c \<in># in_flight h" by (simp add: of_caller_def)
  moreover have "c \<notin># held_by (sy_go h k)" if k: "k < numShards" for k
    using held_routed [OF ord k] z by (auto simp: workload_zero held_by_def)
  ultimately show ?thesis by (auto simp: in_flight_def set_mset_sum)
qed

lemma waiting_is_answered:
  assumes a: "accounted h" and ord: "orderly_all h" and w: "sy_call h i = Waiting c"
    and D: "\<forall>c. \<exists>e. D e c" and C: "\<forall>batch. \<exists>ce. C ce batch"
  shows "\<exists>h' r. shard_reachable D C h h' \<and> sy_call h' i = Answered c r"
proof -
  obtain h1 where h1: "shard_reachable D C h h1" "sy_call h1 = sy_call h" "workload (sy_go h1 (routed c)) = 0"
    using drain [OF ord routed_less D C] by blast
  have w1: "sy_call h1 i = Waiting c" using h1(2) w by simp
  obtain r where "(c, r) \<in> set (sy_replies h1)"
    using drained_answer [OF reachable_accounted [OF h1(1) a] reachable_orderly [OF h1(1) ord] w1 h1(3)] ..
  then have "shard_step D C h1 (set_call i (Answered c r) h1)" using w1 by (rule step_answer [rotated])
  with h1(1) have "shard_reachable D C h (set_call i (Answered c r) h1)" by (rule reach_step)
  then show ?thesis by (intro exI [of _ "set_call i (Answered c r) h1"] exI [of _ r]) simp
qed

section \<open>Properties of the engine\<close>


text \<open>
  Claim C5. No call is lost and none is answered twice, whatever the clocks and the faults: a
  caller that waits has its command in exactly one place, an inbox, a batch or an answer; a caller
  that gave up in the select, or has not got past it, is nowhere; an answer a caller returned is the
  only one its channel was sent. Commands sit with the goroutine of their auction, no inbox holds
  more than 1024 of them and no batch more than 256 bids, however many callers there are.
\<close>

theorem every_call_is_in_one_place:
  assumes "shard_reachable D C (shard_New d) h"
  shows "of_caller i (in_flight h) = entered (sy_call h i) \<and>
    (sy_call h i = Answered c r \<longrightarrow> filter (\<lambda>x. cmd_caller (fst x) = i) (sy_replies h) = [(c, r)]) \<and>
    list_all (\<lambda>n. n \<le> 1024) (InboxDepths h) \<and>
    (k < numShards \<longrightarrow> length (go_batch (sy_go h k)) \<le> 256 \<and> (\<forall>x. x \<in># held_by (sy_go h k) \<longrightarrow> routed x = k))"
proof -
  have a: "accounted h" using reachable_accounted [OF assms New_accounted] .
  have o': "orderly_all h" using reachable_orderly [OF assms New_orderly] .
  have "of_caller i (in_flight h) = entered (sy_call h i)" using a by (simp add: accounted_def)
  moreover have "filter (\<lambda>x. cmd_caller (fst x) = i) (sy_replies h) = [(c, r)]" if "sy_call h i = Answered c r"
    using only_answer [OF a that] .
  moreover have "list_all (\<lambda>n. n \<le> 1024) (InboxDepths h)"
    using o' by (simp add: orderly_all_def orderly_def InboxDepths_def list_all_iff inboxCap_def)
  moreover have "length (go_batch (sy_go h k)) \<le> 256" if "k < numShards"
    using o' that by (simp add: orderly_all_def orderly_def batchMax_def)
  moreover have "routed x = k" if "k < numShards" "x \<in># held_by (sy_go h k)" for x
    using held_routed [OF o' that] .
  ultimately show ?thesis by blast
qed


definition sample_call :: command where
  "sample_call = \<lparr>cmd_req = sample_request 0 100, cmd_started_at = 1, cmd_caller = 0\<rparr>"

definition sample_queue :: shard_sys where
  "sample_queue = enqueue 0 sample_call (begin_call 0 (sample_request 0 100) 1 (shard_New sample_db))"

definition sample_decided :: shard_sys where
  "sample_decided = seal (routed sample_call) (receive (routed sample_call) (sample_decide_env 9) False sample_queue)"

definition sample_served :: shard_sys where
  "sample_served = (let h = commits (routed sample_call) (sample_commit 0) sample_decided in
     set_call 0 (Answered sample_call (snd (hd (sy_replies h)))) h)"

text \<open>One bid from its call to its answer.\<close>

lemma queue_reachable: "shard_reachable D C (shard_New sample_db) sample_queue"
  unfolding sample_queue_def
proof (rule reach_step [OF reach_one])
  show "shard_step D C (shard_New sample_db) (begin_call 0 (sample_request 0 100) 1 (shard_New sample_db))"
    by (rule step_call) code_simp
  show "shard_step D C (begin_call 0 (sample_request 0 100) 1 (shard_New sample_db))
      (enqueue 0 sample_call (begin_call 0 (sample_request 0 100) 1 (shard_New sample_db)))"
    by (rule step_enqueue; code_simp)
qed

lemma decided_reachable: "shard_reachable decide_ok lasting (shard_New sample_db) sample_decided"
  unfolding sample_decided_def
proof (rule reach_step [OF reach_step [OF queue_reachable]])
  let ?h = "receive (routed sample_call) (sample_decide_env 9) False sample_queue"
  show "shard_step decide_ok lasting sample_queue ?h"
    by (rule step_receive [OF routed_less]; code_simp)
  show "shard_step decide_ok lasting ?h (seal (routed sample_call) ?h)"
    by (rule step_seal [OF routed_less]) code_simp
qed

lemma served_reachable: "shard_reachable decide_ok lasting (shard_New sample_db) sample_served"
  unfolding sample_served_def Let_def
proof (rule reach_step [OF reach_step [OF decided_reachable]])
  let ?h = "commits (routed sample_call) (sample_commit 0) sample_decided"
  show "shard_step decide_ok lasting sample_decided ?h"
    by (rule step_commit [OF routed_less]; code_simp)
  have "sy_replies ?h \<noteq> []" by code_simp
  moreover have "fst (hd (sy_replies ?h)) = sample_call" by code_simp
  ultimately have "(sample_call, snd (hd (sy_replies ?h))) \<in> set (sy_replies ?h)"
    by (metis hd_in_set prod.collapse)
  then show "shard_step decide_ok lasting ?h (set_call 0 (Answered sample_call (snd (hd (sy_replies ?h)))) ?h)"
    by (rule step_answer [rotated]) code_simp
qed


theorem every_call_is_in_one_place_witness:
  "of_caller 0 (in_flight sample_served) = {#sample_call#} \<and> of_caller 1 (in_flight sample_served) = {#}"
proof -
  have "sy_call sample_served 0 = Answered sample_call (snd (hd (sy_replies sample_served)))" by code_simp
  moreover have "sy_call sample_served 1 = Idle" by code_simp
  ultimately show ?thesis
    using every_call_is_in_one_place [OF served_reachable, of 0] every_call_is_in_one_place [OF served_reachable, of 1]
    by simp
qed


end
