(* ===== verification/Metrics.thy ===== *)
theory Metrics
  imports Closing Boot Inbox "HOL-Library.Sublist" Complex_Main
begin

text \<open>
  \<^verbatim>\<open>internal/metrics\<close>: the registry of a process, the series each constructor registers, and the
  collectors read at scrape time. Registration is modelled with the rule of the Prometheus client
  that matters to a boot: a name registered twice, or a histogram whose bounds are not strictly increasing,
  panics. The runtime collectors of the client library are the parameter \<open>runtime\<close>.
\<close>

section \<open>Series and the registry (registry.go)\<close>

datatype series_kind = CounterSeries | GaugeSeries | HistogramSeries "rat list"

record series =
  sr_name :: string
  sr_labels :: "string list"
  sr_kind :: series_kind

definition bounds_ok :: "series \<Rightarrow> bool" where
  "bounds_ok s = (case sr_kind s of HistogramSeries bs \<Rightarrow> sorted_wrt (<) bs | _ \<Rightarrow> True)"

type_synonym registry = "series list"

text \<open>\<^verbatim>\<open>MustRegister\<close>: \<open>None\<close> is the panic.\<close>

fun MustRegister :: "series list \<Rightarrow> registry \<Rightarrow> registry option" where
  "MustRegister [] r = Some r"
| "MustRegister (s # ss) r =
     (if \<not> bounds_ok s \<or> sr_name s \<in> set (map sr_name r) then None else MustRegister ss (r @ [s]))"

definition exponentialBuckets :: "rat \<Rightarrow> rat \<Rightarrow> nat \<Rightarrow> rat list" where
  "exponentialBuckets start factor n = map (\<lambda>i. start * factor ^ i) [0..<n]"

definition linearBuckets :: "rat \<Rightarrow> rat \<Rightarrow> nat \<Rightarrow> rat list" where
  "linearBuckets start width n = map (\<lambda>i. start + of_nat i * width) [0..<n]"

definition confirmBuckets :: "rat list" where "confirmBuckets = exponentialBuckets (1 / 1000) 2 14"

definition attemptBuckets :: "rat list" where "attemptBuckets = linearBuckets 1 1 10"

definition closeLagBuckets :: "rat list" where
  "closeLagBuckets = [5 / 100, 1 / 10, 25 / 100, 5 / 10, 1, 2, 5, 10, 30, 60, 300]"

definition shardBuckets :: "rat list" where
  "shardBuckets = [1 / 100000, 25 / 1000000, 5 / 100000, 1 / 10000, 25 / 100000, 5 / 10000] @ confirmBuckets"

definition batchBuckets :: "rat list" where "batchBuckets = exponentialBuckets 1 2 9"

section \<open>The constructors\<close>

definition NewRegistry :: "series list \<Rightarrow> registry option" where
  "NewRegistry runtime = MustRegister runtime []"

definition pool_series :: "series list" where
  "pool_series =
     [\<lparr>sr_name = ''db_pool_conns'', sr_labels = [''state''], sr_kind = GaugeSeries\<rparr>,
      \<lparr>sr_name = ''db_pool_acquire_total'', sr_labels = [], sr_kind = CounterSeries\<rparr>,
      \<lparr>sr_name = ''db_pool_acquire_duration_seconds_total'', sr_labels = [], sr_kind = CounterSeries\<rparr>,
      \<lparr>sr_name = ''db_pool_empty_acquire_total'', sr_labels = [], sr_kind = CounterSeries\<rparr>,
      \<lparr>sr_name = ''db_pool_canceled_acquire_total'', sr_labels = [], sr_kind = CounterSeries\<rparr>]"

definition RegisterPool :: "registry \<Rightarrow> registry option" where
  "RegisterPool = MustRegister pool_series"

definition stream_series :: "series list" where
  "stream_series =
     [\<lparr>sr_name = ''closing_events_published_total'', sr_labels = [], sr_kind = CounterSeries\<rparr>,
      \<lparr>sr_name = ''stream_claimed_total'', sr_labels = [], sr_kind = CounterSeries\<rparr>,
      \<lparr>sr_name = ''stream_dead_total'', sr_labels = [], sr_kind = CounterSeries\<rparr>]"

definition NewStream :: "registry \<Rightarrow> registry option" where
  "NewStream = MustRegister stream_series"

definition group_series :: "series list" where
  "group_series =
     [\<lparr>sr_name = ''stream_pending_entries'', sr_labels = [], sr_kind = GaugeSeries\<rparr>,
      \<lparr>sr_name = ''stream_backlog_entries'', sr_labels = [], sr_kind = GaugeSeries\<rparr>]"

definition RegisterStreamGroup :: "registry \<Rightarrow> registry option" where
  "RegisterStreamGroup = MustRegister group_series"

definition lock_series :: "series list" where
  "lock_series =
     [\<lparr>sr_name = ''lock_wait_duration_seconds'', sr_labels = [], sr_kind = HistogramSeries confirmBuckets\<rparr>]"

definition NewLockWait :: "registry \<Rightarrow> registry option" where
  "NewLockWait = MustRegister lock_series"

definition shard_series :: "series list" where
  "shard_series =
     [\<lparr>sr_name = ''bid_accept_duration_seconds'', sr_labels = [], sr_kind = HistogramSeries shardBuckets\<rparr>,
      \<lparr>sr_name = ''journal_lag_seconds'', sr_labels = [], sr_kind = HistogramSeries shardBuckets\<rparr>,
      \<lparr>sr_name = ''shard_batch_size'', sr_labels = [], sr_kind = HistogramSeries batchBuckets\<rparr>]"

definition NewShard :: "registry \<Rightarrow> registry option" where
  "NewShard = MustRegister shard_series"

definition inbox_series :: "series list" where
  "inbox_series =
     [\<lparr>sr_name = ''shard_inbox_depth'', sr_labels = [''shard''], sr_kind = GaugeSeries\<rparr>]"

definition RegisterShardInbox :: "registry \<Rightarrow> registry option" where
  "RegisterShardInbox = MustRegister inbox_series"

definition engine_boundary_series :: "series list" where
  "engine_boundary_series =
     [\<lparr>sr_name = ''bid_outcomes_total'', sr_labels = [''strategy'', ''outcome''], sr_kind = CounterSeries\<rparr>,
      \<lparr>sr_name = ''bid_confirm_duration_seconds'', sr_labels = [''strategy''], sr_kind = HistogramSeries confirmBuckets\<rparr>]"

definition Instrument :: "registry \<Rightarrow> registry option" where
  "Instrument = MustRegister engine_boundary_series"

definition idempotency_series :: "series list" where
  "idempotency_series =
     [\<lparr>sr_name = ''idempotency_hits_total'', sr_labels = [''strategy'', ''kind''], sr_kind = CounterSeries\<rparr>,
      \<lparr>sr_name = ''bid_attempts_per_accept'', sr_labels = [''strategy''], sr_kind = HistogramSeries attemptBuckets\<rparr>]"

definition NewIdempotency :: "registry \<Rightarrow> registry option" where
  "NewIdempotency = MustRegister idempotency_series"

definition materializer_series :: "series list" where
  "materializer_series =
     [\<lparr>sr_name = ''auction_closings_total'', sr_labels = [''result''], sr_kind = CounterSeries\<rparr>,
      \<lparr>sr_name = ''auction_close_lag_seconds'', sr_labels = [], sr_kind = HistogramSeries closeLagBuckets\<rparr>]"

definition NewMaterializer :: "registry \<Rightarrow> registry option" where
  "NewMaterializer = MustRegister materializer_series"

text \<open>What the engine switch registers, and what each process registers in the order of its boot.\<close>

definition engine_series :: "engine_kind \<Rightarrow> registry \<Rightarrow> registry option" where
  "engine_series k r =
     Option.bind (case k of
         OptimisticEngine \<Rightarrow> Some r
       | PessimisticEngine \<Rightarrow> NewLockWait r
       | ShardEngine \<Rightarrow> Option.bind (NewShard r) RegisterShardInbox) Instrument"

fun register_all :: "(registry \<Rightarrow> registry option) list \<Rightarrow> registry \<Rightarrow> registry option" where
  "register_all [] r = Some r"
| "register_all (f # fs) r = (case f r of None \<Rightarrow> None | Some r' \<Rightarrow> register_all fs r')"

definition auctiond_registry :: "series list \<Rightarrow> engine_kind \<Rightarrow> registry option" where
  "auctiond_registry runtime k =
     (case NewRegistry runtime of
        None \<Rightarrow> None
      | Some r \<Rightarrow> register_all [RegisterPool, NewStream, RegisterStreamGroup, engine_series k, NewIdempotency] r)"

definition closerd_registry :: "series list \<Rightarrow> registry option" where
  "closerd_registry runtime =
     (case NewRegistry runtime of
        None \<Rightarrow> None
      | Some r \<Rightarrow> register_all [NewMaterializer, NewStream] r)"

section \<open>The collectors\<close>

record sample =
  sp_name :: string
  sp_labels :: "string list"
  sp_value :: rat

text \<open>The statistics of a pgx pool, as its library reports them.\<close>

record pool_stat =
  ps_acquired :: int
  ps_idle :: int
  ps_max :: int
  ps_acquires :: int
  ps_acquire_seconds :: rat
  ps_empty_acquires :: int
  ps_canceled_acquires :: int

definition collect_pool :: "pool_stat \<Rightarrow> sample list" where
  "collect_pool s =
     (let conns = (\<lambda>state v. \<lparr>sp_name = ''db_pool_conns'', sp_labels = [state], sp_value = of_int v\<rparr>);
          total = (\<lambda>name v. \<lparr>sp_name = name, sp_labels = [], sp_value = v\<rparr>)
      in [conns ''acquired'' (ps_acquired s), conns ''idle'' (ps_idle s), conns ''max'' (ps_max s),
          total ''db_pool_acquire_total'' (of_int (ps_acquires s)),
          total ''db_pool_acquire_duration_seconds_total'' (ps_acquire_seconds s),
          total ''db_pool_empty_acquire_total'' (of_int (ps_empty_acquires s)),
          total ''db_pool_canceled_acquire_total'' (of_int (ps_canceled_acquires s))])"

text \<open>The collector is handed \<^verbatim>\<open>Engine.InboxDepths\<close> and reads it at each scrape.\<close>

definition collect_inbox :: "nat list \<Rightarrow> sample list" where
  "collect_inbox depths =
     map (\<lambda>(i, depth). \<lparr>sp_name = ''shard_inbox_depth'', sp_labels = [decimal i], sp_value = of_nat depth\<rparr>)
       (enumerate 0 depths)"

text \<open>Both gauges of the stream, or neither.\<close>

definition collect_stream_group :: "(nat \<times> nat) option \<Rightarrow> sample list" where
  "collect_stream_group info =
     (case info of
        None \<Rightarrow> []
      | Some (pending, backlog) \<Rightarrow>
          [\<lparr>sp_name = ''stream_pending_entries'', sp_labels = [], sp_value = of_nat pending\<rparr>,
           \<lparr>sp_name = ''stream_backlog_entries'', sp_labels = [], sp_value = of_nat backlog\<rparr>])"

section \<open>No boot panics\<close>

lemma MustRegister_new:
  "list_all bounds_ok ss \<Longrightarrow> distinct (map sr_name (r @ ss)) \<Longrightarrow> MustRegister ss r = Some (r @ ss)"
proof (induction ss arbitrary: r)
  case (Cons s ss)
  then show ?case using Cons.IH [of "r @ [s]"] by auto
qed simp

lemma MustRegister_append:
  "MustRegister (ss @ ts) r = Option.bind (MustRegister ss r) (MustRegister ts)"
  by (induction ss arbitrary: r) auto

lemma register_all_batches: "register_all (map MustRegister sss) r = MustRegister (concat sss) r"
  by (induction sss arbitrary: r) (simp_all add: MustRegister_append split: option.split)

lemma buckets_increase:
  "sorted_wrt (<) confirmBuckets" "sorted_wrt (<) attemptBuckets" "sorted_wrt (<) closeLagBuckets"
  "sorted_wrt (<) shardBuckets" "sorted_wrt (<) batchBuckets"
  by (simp_all add: confirmBuckets_def attemptBuckets_def closeLagBuckets_def shardBuckets_def batchBuckets_def
      exponentialBuckets_def linearBuckets_def upt_rec)

lemma batch_bounds_end: "last batchBuckets = of_nat batchMax"
  by (simp add: batchBuckets_def exponentialBuckets_def upt_rec batchMax_def)

lemmas series_defs = pool_series_def stream_series_def group_series_def lock_series_def shard_series_def inbox_series_def
  engine_boundary_series_def idempotency_series_def materializer_series_def

fun mechanism_series :: "engine_kind \<Rightarrow> series list" where
  "mechanism_series OptimisticEngine = []"
| "mechanism_series PessimisticEngine = lock_series"
| "mechanism_series ShardEngine = shard_series @ inbox_series"

definition auctiond_series :: "engine_kind \<Rightarrow> series list" where
  "auctiond_series k = pool_series @ stream_series @ group_series @ mechanism_series k @ engine_boundary_series @ idempotency_series"

definition closerd_series :: "series list" where
  "closerd_series = materializer_series @ stream_series"

lemma auctiond_registers: "auctiond_registry runtime k = Option.bind (NewRegistry runtime) (MustRegister (auctiond_series k))"
proof -
  have engine: "engine_series k = MustRegister (mechanism_series k @ engine_boundary_series)"
    by (cases k) (auto simp: engine_series_def NewLockWait_def NewShard_def RegisterShardInbox_def Instrument_def
        MustRegister_append [abs_def] fun_eq_iff bind_assoc split: option.split)
  have "register_all [RegisterPool, NewStream, RegisterStreamGroup, engine_series k, NewIdempotency] r = MustRegister (auctiond_series k) r" for r
    using register_all_batches [of "[pool_series, stream_series, group_series, mechanism_series k @ engine_boundary_series, idempotency_series]" r]
    by (simp add: auctiond_series_def engine RegisterPool_def NewStream_def RegisterStreamGroup_def NewIdempotency_def)
  then show ?thesis by (simp add: auctiond_registry_def split: option.split)
qed

lemma closerd_registers: "closerd_registry runtime = Option.bind (NewRegistry runtime) (MustRegister closerd_series)"
  using register_all_batches [of "[materializer_series, stream_series]"]
  by (simp add: closerd_registry_def closerd_series_def NewMaterializer_def NewStream_def split: option.split)

lemma auctiond_series_ok:
  "list_all bounds_ok (auctiond_series k) \<and> distinct (map sr_name (auctiond_series k)) \<and>
   list_all (\<lambda>n. \<not> prefix ''go_'' n \<and> \<not> prefix ''process_'' n) (map sr_name (auctiond_series k))"
  by (cases k) (simp_all add: auctiond_series_def series_defs bounds_ok_def buckets_increase)

lemma closerd_series_ok:
  "list_all bounds_ok closerd_series \<and> distinct (map sr_name closerd_series) \<and>
   list_all (\<lambda>n. \<not> prefix ''go_'' n \<and> \<not> prefix ''process_'' n) (map sr_name closerd_series)"
  by (simp add: closerd_series_def series_defs bounds_ok_def buckets_increase)

text \<open>The library's collectors name their series \<^verbatim>\<open>go_\<close> and \<^verbatim>\<open>process_\<close>.\<close>

definition runtime_ok :: "series list \<Rightarrow> bool" where
  "runtime_ok runtime \<longleftrightarrow> list_all bounds_ok runtime \<and> distinct (map sr_name runtime) \<and>
     list_all (\<lambda>s. prefix ''go_'' (sr_name s) \<or> prefix ''process_'' (sr_name s)) runtime"

lemma registers_after_runtime:
  assumes "runtime_ok runtime" and "list_all bounds_ok ss" and "distinct (map sr_name ss)"
    and "list_all (\<lambda>n. \<not> prefix ''go_'' n \<and> \<not> prefix ''process_'' n) (map sr_name ss)"
  shows "Option.bind (NewRegistry runtime) (MustRegister ss) = Some (runtime @ ss)"
proof -
  have "NewRegistry runtime = Some runtime"
    using MustRegister_new [of runtime "[]"] assms(1) by (simp add: NewRegistry_def runtime_ok_def)
  moreover have "set (map sr_name runtime) \<inter> set (map sr_name ss) = {}"
    using assms(1,4) by (fastforce simp: runtime_ok_def list_all_iff)
  then have "MustRegister ss runtime = Some (runtime @ ss)"
    using assms(1-3) by (intro MustRegister_new) (simp_all add: runtime_ok_def)
  ultimately show ?thesis by simp
qed

text \<open>
  Claim C37. No boot panics on its metrics, and each mechanism publishes its own. Beside the
  library's own series, both processes register every series once, with increasing bounds; the lock wait
  is published by the pessimistic engine and by no other, the four shard series by the shard and by no
  other, the lock wait and the confirmation share their bounds, and the batch histogram ends at the largest
  batch the shard forms.
\<close>
theorem boot_registers_once:
  assumes "runtime_ok runtime"
  shows "auctiond_registry runtime k = Some (runtime @ auctiond_series k) \<and>
    closerd_registry runtime = Some (runtime @ closerd_series) \<and>
    (''lock_wait_duration_seconds'' \<in> set (map sr_name (auctiond_series k)) \<longleftrightarrow> k = PessimisticEngine) \<and>
    ({''bid_accept_duration_seconds'', ''journal_lag_seconds'', ''shard_batch_size'', ''shard_inbox_depth''} \<inter>
       set (map sr_name (auctiond_series k)) \<noteq> {} \<longleftrightarrow> k = ShardEngine) \<and>
    list_all (\<lambda>s. sr_name s \<in> {''lock_wait_duration_seconds'', ''bid_confirm_duration_seconds''} \<longrightarrow>
       sr_kind s = HistogramSeries confirmBuckets) (auctiond_series k) \<and>
    last batchBuckets = of_nat batchMax"
  using registers_after_runtime [OF assms, of "auctiond_series k"] registers_after_runtime [OF assms, of closerd_series]
    auctiond_series_ok [of k] closerd_series_ok
  by (cases k) (simp_all add: auctiond_registers closerd_registers batch_bounds_end auctiond_series_def series_defs)

theorem boot_registers_once_witness:
  "auctiond_registry [\<lparr>sr_name = ''go_goroutines'', sr_labels = [], sr_kind = GaugeSeries\<rparr>] ShardEngine \<noteq> None"
  using boot_registers_once [of "[\<lparr>sr_name = ''go_goroutines'', sr_labels = [], sr_kind = GaugeSeries\<rparr>]" ShardEngine]
  by (simp add: runtime_ok_def bounds_ok_def)

section \<open>What an empty queue says\<close>


text \<open>A cell whose one announcement has been handled: the gauges are zero and the auction is closed.\<close>

lemma sample_gauges:
  "map sp_value (collect_stream_group (GroupInfo True True (tr_stream (cn_transport (fst sample_turned))))) = [0, 0]"
proof -
  note closing_simps = sample_swept_def closing_start_def scan_def sample_scan_def EnsureGroup_def run_xcmd_def
    fresh_transport_def xgroup_create_def empty_stream_def sample_expired sample_cell_def sample_mat_def Publish_def
    xadd_def prune_def sample_turned_def consumer_turn_def plain_turn_def xautoclaim_def xreadgroup_def handle_def
    parse_def close_handler_def Let_def ack_def xack_def readCount_def maxLen_def map_filter_simps
  have positive: "(0 :: 64 word) <s 100" by (simp add: word_sless_alt)
  show ?thesis
    by (simp add: closing_simps)
      (simp add: positive mat_Close_def close_env_of_def quiet_delays_def run_stmt_def closeSQL_def sample_db_def
        sample_row_def find_auction_def update_auction_def Let_def closed_row_def check_auction_def ack_def xack_def
        run_xcmd_def collect_stream_group_def GroupInfo_def)
qed


end
