(* ===== verification/Worker.thy ===== *)
theory Worker
  imports Closing Go_Text
begin

text \<open>
  The life of the two loops of the closing path: \<^verbatim>\<open>Consumer.Run\<close> of \<^verbatim>\<open>internal/stream/consumer.go\<close>
  in \<^verbatim>\<open>cmd/closerd\<close>, and \<^verbatim>\<open>Expirer.Run\<close> of \<^verbatim>\<open>internal/closing/expirer.go\<close> in \<^verbatim>\<open>cmd/auctiond\<close>. They
  have no bound of their own, so they are partial functions, and \<open>None\<close> is a loop that never returns.
  \<open>live n\<close> is what the \<open>n\<close>-th check of the context at the head of the loop sees, a turn during which
  the context ended is the last one, and \<open>others n\<close> is what the rest of the system did before the
  \<open>n\<close>-th turn.
\<close>

section \<open>The loop\<close>

definition turn_over :: "turn \<Rightarrow> bool" where
  "turn_over tu \<longleftrightarrow> tu_end_claim tu \<or> tu_end_read tu \<or> tu_left tu \<noteq> None"

partial_function (option) Run ::
  "(string \<Rightarrow> uuid option) \<Rightarrow> (uuid \<Rightarrow> 'w \<Rightarrow> bool \<times> 'w) \<Rightarrow> (nat \<Rightarrow> 'w consumer \<Rightarrow> 'w consumer) \<Rightarrow> (nat \<Rightarrow> bool)
   \<Rightarrow> (nat \<Rightarrow> turn) \<Rightarrow> nat \<Rightarrow> 'w consumer \<Rightarrow> 'w consumer option" where
  "Run uuid_parse h others live tus n c =
     (if \<not> live n then Some c
      else if turn_over (tus n) then Some (consumer_turn uuid_parse h (tus n) (others n c))
      else Run uuid_parse h others live tus (Suc n) (consumer_turn uuid_parse h (tus n) (others n c)))"

definition stops :: "(nat \<Rightarrow> bool) \<Rightarrow> (nat \<Rightarrow> turn) \<Rightarrow> nat \<Rightarrow> bool" where
  "stops live tus n \<longleftrightarrow> \<not> live n \<or> turn_over (tus n)"

text \<open>The first \<open>n\<close> turns, one after the other.\<close>

fun turns :: "(nat \<Rightarrow> 'a \<Rightarrow> 'a) \<Rightarrow> nat \<Rightarrow> 'a \<Rightarrow> 'a" where
  "turns f 0 c = c"
| "turns f (Suc n) c = f n (turns f n c)"

abbreviation worker_turn where
  "worker_turn p h others tus n c \<equiv> consumer_turn p h (tus n) (others n c)"

lemma Run_going:
  "\<not> stops live tus n \<Longrightarrow>
   Run p h others live tus n c = Run p h others live tus (Suc n) (worker_turn p h others tus n c)"
  by (subst Run.simps) (simp add: stops_def)

lemma Run_stops:
  "stops live tus n \<Longrightarrow>
   Run p h others live tus n c = Some (if live n then worker_turn p h others tus n c else c)"
  by (subst Run.simps) (simp add: stops_def)

lemma Run_upto:
  "(\<And>m. m < k \<Longrightarrow> \<not> stops live tus m) \<Longrightarrow>
   Run p h others live tus 0 c = Run p h others live tus k (turns (worker_turn p h others tus) k c)"
  by (induction k) (simp_all add: Run_going)

text \<open>By the induction of the least fixed point, a loop that returned met an end of the context.\<close>

lemma Run_returned: "Run p h others live tus n c = Some c' \<Longrightarrow> \<exists>m. stops live tus m"
proof (induction rule: Run.raw_induct [rotated, consumes 1])
  case (1 Run' p h others live tus n c c')
  then show ?case by (auto simp: stops_def split: if_splits)
qed

lemma Run_at:
  assumes "stops live tus n" and "\<And>m. m < n \<Longrightarrow> \<not> stops live tus m"
  shows "Run p h others live tus 0 c = Some (turns (worker_turn p h others tus) (if live n then Suc n else n) c)"
  using Run_upto [of n live tus p h others c] assms by (simp add: Run_stops)

lemma Run_returns_iff: "Run p h others live tus 0 c \<noteq> None \<longleftrightarrow> (\<exists>n. stops live tus n)"
proof
  assume "\<exists>n. stops live tus n"
  then obtain n where "stops live tus n" "\<And>m. m < n \<Longrightarrow> \<not> stops live tus m"
    using exists_least_iff [of "stops live tus"] by blast
  then show "Run p h others live tus 0 c \<noteq> None" by (simp add: Run_at)
qed (use Run_returned in blast)

section \<open>The sweep's loop\<close>

text \<open>
  \<^verbatim>\<open>Expirer.Run\<close>: \<open>live n\<close> says that the \<open>n\<close>-th select took the ticker and not the context, \<open>ticks n\<close>
  is the environment and the database of that pass, and \<open>others n\<close> what the rest of the system did
  to the queue before it. The error of a pass is only logged.
\<close>

partial_function (option) Expirer_Run ::
  "('p \<Rightarrow> bool \<times> 'p) \<Rightarrow> (uuid \<Rightarrow> 'p \<Rightarrow> bool \<times> 'p) \<Rightarrow> (nat \<Rightarrow> 'p \<Rightarrow> 'p) \<Rightarrow> (nat \<Rightarrow> bool)
   \<Rightarrow> (nat \<Rightarrow> scan_env \<times> db) \<Rightarrow> nat \<Rightarrow> window \<times> 'p \<Rightarrow> (window \<times> 'p) option" where
  "Expirer_Run ensure publish others live ticks n st =
     (if \<not> live n then Some st
      else Expirer_Run ensure publish others live ticks (Suc n)
        (snd (scan ensure publish (fst (ticks n)) (snd (ticks n)) (apsnd (others n) st))))"

abbreviation pass where
  "pass ensure publish others ticks n st \<equiv>
     snd (scan ensure publish (fst (ticks n)) (snd (ticks n)) (apsnd (others n) st))"

lemma Expirer_upto:
  "(\<And>m. m < k \<Longrightarrow> live m) \<Longrightarrow>
   Expirer_Run ensure publish others live ticks 0 st =
   Expirer_Run ensure publish others live ticks k (turns (pass ensure publish others ticks) k st)"
proof (induction k)
  case (Suc k)
  then have "Expirer_Run ensure publish others live ticks 0 st =
      Expirer_Run ensure publish others live ticks k (turns (pass ensure publish others ticks) k st)" by simp
  also have "\<dots> = Expirer_Run ensure publish others live ticks (Suc k) (turns (pass ensure publish others ticks) (Suc k) st)"
    using Suc.prems by (subst Expirer_Run.simps) simp
  finally show ?case .
qed simp

lemma Expirer_returned: "Expirer_Run ensure publish others live ticks n st = Some st' \<Longrightarrow> \<exists>m. \<not> live m"
proof (induction rule: Expirer_Run.raw_induct [rotated, consumes 1])
  case (1 run ensure publish others live ticks n st st')
  then show ?case by (auto split: if_splits)
qed

text \<open>
  The sweep returns with the context and only then, after one pass per tick it took: it never stops
  on an error of its own.
\<close>

lemma expirer_returns_with_the_context:
  "(Expirer_Run ensure publish others live ticks 0 st \<noteq> None \<longleftrightarrow> (\<exists>n. \<not> live n)) \<and>
   (\<not> live n \<and> (\<forall>m < n. live m) \<longrightarrow>
     Expirer_Run ensure publish others live ticks 0 st = Some (turns (pass ensure publish others ticks) n st))"
proof -
  have at: "Expirer_Run ensure publish others live ticks 0 st = Some (turns (pass ensure publish others ticks) n st)"
    if "\<not> live n" "\<forall>m < n. live m" for n
    using Expirer_upto [of n live ensure publish others ticks st] that
      Expirer_Run.simps [of ensure publish others live ticks n] by simp
  moreover have "\<exists>n. \<not> live n \<and> (\<forall>m < n. live m)" if "\<exists>n. \<not> live n"
    using exists_least_iff [of "\<lambda>n. \<not> live n"] that by blast
  ultimately show ?thesis using Expirer_returned by blast
qed

section \<open>What it leaves\<close>

lemma closing_run_trans:
  "closing_run us up b c \<Longrightarrow> closing_run us up a b \<Longrightarrow> closing_run us up a c"
  by (induction rule: closing_run.induct) (auto intro: closing_run.intros)

lemma turns_reachable:
  assumes "closing_run us up st (c, pub)"
    and "\<And>n c pub. \<exists>pub'. closing_run us up (c, pub) (others n c, pub')"
  shows "\<exists>pub'. closing_run us up st (turns (worker_turn up close_handler others tus) n c, pub')"
proof (induction n)
  case 0
  then show ?case using assms(1) by auto
next
  case (Suc n)
  let ?c = "turns (worker_turn up close_handler others tus) n c"
  obtain pub1 pub2 where "closing_run us up st (?c, pub1)" "closing_run us up (?c, pub1) (others n ?c, pub2)"
    using Suc assms(2) by blast
  then have "closing_run us up st (others n ?c, pub2)" by (rule closing_run_trans [rotated])
  then show ?case by (auto intro: closing_run.run_step closing_step.turn)
qed

text \<open>
  Claim C40. The worker's loop returns with the context, and only then. Whatever the other
  processes and the network do between and during its turns, \<^verbatim>\<open>Run\<close> returns exactly when the
  context ends at the head of the loop or during a turn; it has then made the turns up to that point,
  the last one included, and every entry delivered and still in the stream is pending, buried, or its
  auction is closed.
\<close>
theorem worker_returns_with_the_context:
  assumes "cell_ok w" and "closing_run us up (closing_start w t) (c, pub)" and "\<And>x. up (us x) = Some x"
    and "\<And>n c pub. \<exists>pub'. closing_run us up (c, pub) (others n c, pub')"
  shows "(Run up close_handler others live tus 0 c \<noteq> None \<longleftrightarrow> (\<exists>n. stops live tus n)) \<and>
    (\<forall>n. stops live tus n \<and> (\<forall>m < n. \<not> stops live tus m) \<longrightarrow>
       (\<exists>c'. Run up close_handler others live tus 0 c = Some c' \<and>
          c' = turns (worker_turn up close_handler others tus) (if live n then Suc n else n) c \<and>
          evolves (cl_db w) (cl_db (cn_world c')) \<and>
          list_all (\<lambda>e. xe_id e \<in> pending_ids (tr_stream (cn_transport c')) \<or>
              (case parse up e of
                 None \<Rightarrow> buried_values e \<in> set (sm_dead (tr_stream (cn_transport c')))
               | Some x \<Rightarrow> closed_in x (cl_db (cn_world c'))))
            (filter (\<lambda>e. e \<notin> set (undelivered (tr_stream (cn_transport c')))) (sm_entries (tr_stream (cn_transport c'))))))"
proof (intro conjI allI impI)
  show "Run up close_handler others live tus 0 c \<noteq> None \<longleftrightarrow> (\<exists>n. stops live tus n)" by (rule Run_returns_iff)
next
  fix n assume n: "stops live tus n \<and> (\<forall>m < n. \<not> stops live tus m)"
  let ?c = "turns (worker_turn up close_handler others tus) (if live n then Suc n else n) c"
  obtain pub' where "closing_run us up (closing_start w t) (?c, pub')"
    using turns_reachable [OF assms(2), where others = others and tus = tus, OF assms(4)] by blast
  from at_least_once_core [OF assms(1) this assms(3)] Run_at [of live tus n] n
  show "\<exists>c'. Run up close_handler others live tus 0 c = Some c' \<and> c' = ?c \<and>
      evolves (cl_db w) (cl_db (cn_world c')) \<and>
      list_all (\<lambda>e. xe_id e \<in> pending_ids (tr_stream (cn_transport c')) \<or>
          (case parse up e of
             None \<Rightarrow> buried_values e \<in> set (sm_dead (tr_stream (cn_transport c')))
           | Some x \<Rightarrow> closed_in x (cl_db (cn_world c'))))
        (filter (\<lambda>e. e \<notin> set (undelivered (tr_stream (cn_transport c')))) (sm_entries (tr_stream (cn_transport c'))))"
    by blast
qed

text \<open>A worker alone with its queue, stopped by the signal during its third turn.\<close>

theorem worker_returns_with_the_context_witness:
  "\<exists>c'. Run from_unary close_handler (\<lambda>n c. c) (\<lambda>n. True) (\<lambda>n. if n = 2 then plain_turn\<lparr>tu_end_read := True\<rparr> else plain_turn) 0
       (fst sample_swept) = Some c' \<and> evolves sample_db (cl_db (cn_world c'))"
proof -
  let ?tus = "\<lambda>n :: nat. if n = 2 then plain_turn\<lparr>tu_end_read := True\<rparr> else plain_turn"
  have stops: "stops (\<lambda>n. True) ?tus 2" "\<not> stops (\<lambda>n. True) ?tus m" if "m < 2" for m
    using that by (auto simp: stops_def turn_over_def plain_turn_def)
  have run: "closing_run unary from_unary (closing_start (sample_cell sample_db 1500) fresh_transport) (fst sample_swept, snd sample_swept)"
    using sample_sweep_run by simp
  have calm: "cell_ok (sample_cell sample_db 1500)" using sample_cell_calm [OF sample_inv] by (simp add: cell_calm_def)
  have rest: "\<exists>pub'. closing_run unary from_unary (c, pub) (c, pub')" for c :: "cell consumer" and pub
    using closing_run.run_refl by blast
  show ?thesis
    using worker_returns_with_the_context [where c = "fst sample_swept" and pub = "snd sample_swept" and
        others = "\<lambda>n c. c" and live = "\<lambda>n. True" and tus = ?tus, OF calm run from_unary rest] stops
    by (metis (no_types, lifting) sample_cell_db zero_less_numeral)
qed

section \<open>The worker's name in the group\<close>

text \<open>\<^verbatim>\<open>Name\<close> of \<^verbatim>\<open>internal/stream/stream.go\<close>: \<open>host\<close> is \<open>None\<close> when the host name cannot be read.\<close>

definition worker_name :: "string option \<Rightarrow> nat \<Rightarrow> string" where
  "worker_name host pid =
     ''closerd'' @ ''-'' @ (case host of None \<Rightarrow> ''unknown'' | Some h \<Rightarrow> h) @ ''-'' @ decimal pid"

text \<open>
  Two processes share a name only when they share both the host name and the process id: the id is
  what follows the last dash. Two hosts whose names cannot be read do share one.
\<close>

lemma worker_name_inj:
  "worker_name host pid = worker_name host' pid' \<longleftrightarrow>
     pid = pid' \<and> case_option ''unknown'' id host = case_option ''unknown'' id host'"
proof
  assume same: "worker_name host pid = worker_name host' pid'"
  define h where "h = case_option ''unknown'' id host"
  define h' where "h' = case_option ''unknown'' id host'"
  have digits: "\<forall>c \<in> set (rev (decimal n)). c \<noteq> CHR ''-''" for n
    using decimal_digits(1) [of n] digit_not by auto
  have tail: "takeWhile (\<lambda>c. c \<noteq> CHR ''-'') (rev (x @ ''-'' @ decimal n)) = rev (decimal n)" for x n
  proof -
    have "takeWhile (\<lambda>c. c \<noteq> CHR ''-'') (rev (decimal n) @ CHR ''-'' # rev x) =
        rev (decimal n) @ takeWhile (\<lambda>c. c \<noteq> CHR ''-'') (CHR ''-'' # rev x)"
      using digits [of n] by (intro takeWhile_append2) blast
    then show ?thesis by simp
  qed
  have names: "h @ ''-'' @ decimal pid = h' @ ''-'' @ decimal pid'"
    using same by (simp add: worker_name_def h_def h'_def split: option.splits)
  then have "rev (decimal pid) = rev (decimal pid')" using tail [of h pid] tail [of h' pid'] by simp
  then have d: "decimal pid = decimal pid'" by simp
  then have "pid = pid'" by (metis decimal_value)
  moreover have "h = h'" using names d by simp
  ultimately show "pid = pid' \<and> case_option ''unknown'' id host = case_option ''unknown'' id host'"
    by (simp add: h_def h'_def)
qed (auto simp: worker_name_def split: option.splits)

end
