(* ===== verification/Conformance.thy ===== *)
theory Conformance
  imports Boot "HOL-Library.Monad_Syntax"
begin

text \<open>
  The conformance suite of \<^verbatim>\<open>internal/bid/enginetest\<close>, case by case, as an executable test over any
  engine, and the proof that the three engines pass it. A case is \<open>None\<close> when \<^verbatim>\<open>t.Fatalf\<close> or
  \<^verbatim>\<open>t.Errorf\<close> is reached. The state is the engine's, with the number of calls made so far, which
  selects what the next call takes from outside.
\<close>

section \<open>The suite (conformance.go)\<close>

definition startingBid :: i64 where "startingBid = 0"

definition minIncrement :: i64 where "minIncrement = 100"

definition workers :: nat where "workers = 16"

definition attempts :: nat where "attempts = 20"

definition minute :: duration where "minute = 60 * 1000000000"

record ('env, 's) bench =
  be_place :: "'env \<Rightarrow> bid_request \<Rightarrow> 's \<Rightarrow> response \<times> 's"
  be_db :: "'s \<Rightarrow> db"
  be_put :: "db \<Rightarrow> 's \<Rightarrow> 's"
  be_env :: "nat \<Rightarrow> 'env"
  be_user :: "nat \<Rightarrow> uuid"
  be_now :: "nat \<Rightarrow> time"
  be_name :: string

definition require :: "bool \<Rightarrow> 'a \<Rightarrow> 'a option" where
  "require b x = (if b then Some x else None)"

text \<open>\<^verbatim>\<open>INSERT INTO auctions\<close> of one row, with the column defaults, anchored to the database's clock.\<close>

definition seeded_row :: "('env, 's) bench \<Rightarrow> uuid \<Rightarrow> duration \<Rightarrow> nat \<Rightarrow> auction_row" where
  "seeded_row B x endsIn n =
     \<lparr>a_id = x, a_title = be_name B, a_status = ColOpen, a_highest = startingBid, a_bidder = None,
      a_min_inc = minIncrement, a_version = 0, a_ends_at = be_now B n + endsIn, a_closed_at = None\<rparr>"

definition seedAuction :: "('env, 's) bench \<Rightarrow> uuid \<Rightarrow> duration \<Rightarrow> 's \<times> nat \<Rightarrow> ('s \<times> nat) option" where
  "seedAuction B x endsIn = (\<lambda>(s, n).
     case copy_auctions [seeded_row B x endsIn n] (be_db B s) of
       Inl err \<Rightarrow> None
     | Inr d \<Rightarrow> Some (be_put B d s, n))"

definition placeKeyed ::
  "('env, 's) bench \<Rightarrow> uuid \<Rightarrow> i64 \<Rightarrow> i64 \<Rightarrow> string \<Rightarrow> 's \<times> nat \<Rightarrow> (bid_result \<times> 's \<times> nat) option" where
  "placeKeyed B x version amount key = (\<lambda>(s, n).
     case be_place B (be_env B n)
       \<lparr>req_auction = x, req_user = be_user B n, req_amount = amount, req_expected = Some version, req_key = key\<rparr> s of
       (Inl err, s') \<Rightarrow> None
     | (Inr res, s') \<Rightarrow> Some (res, s', Suc n))"

definition place_plain :: "('env, 's) bench \<Rightarrow> uuid \<Rightarrow> i64 \<Rightarrow> i64 \<Rightarrow> 's \<times> nat \<Rightarrow> (bid_result \<times> 's \<times> nat) option" where
  "place_plain B x version amount = placeKeyed B x version amount []"

definition countBids :: "('env, 's) bench \<Rightarrow> uuid \<Rightarrow> 's \<times> nat \<Rightarrow> nat" where
  "countBids B x st = length (bids_of (be_db B (fst st)) x)"

text \<open>The column of the one row with that sequence number; the outer \<open>None\<close> is no such row.\<close>

definition keyOfBid :: "('env, 's) bench \<Rightarrow> uuid \<Rightarrow> i64 \<Rightarrow> 's \<times> nat \<Rightarrow> string option option" where
  "keyOfBid B x q st = map_option b_key (find (\<lambda>b. b_seq b = q) (bids_of (be_db B (fst st)) x))"

definition case_first :: "('env, 's) bench \<Rightarrow> uuid \<Rightarrow> 's \<times> nat \<Rightarrow> ('s \<times> nat) option" where
  "case_first B x st = do {
     st \<leftarrow> seedAuction B x minute st;
     (res, st) \<leftarrow> place_plain B x 0 minIncrement st;
     require (res_outcome res = Accepted \<and> res_seq res = 1 \<and> st_version (res_current res) = 1 \<and>
       res_bid_id res \<noteq> 0 \<and> st_highest (res_current res) = minIncrement) st
   }"

definition case_too_low :: "('env, 's) bench \<Rightarrow> uuid \<Rightarrow> 's \<times> nat \<Rightarrow> ('s \<times> nat) option" where
  "case_too_low B x st = do {
     st \<leftarrow> seedAuction B x minute st;
     (res, st) \<leftarrow> place_plain B x 0 (minIncrement - 1) st;
     require (res_outcome res = TooLow \<and> min_next_bid (res_current res) = minIncrement) st
   }"

definition case_unknown :: "('env, 's) bench \<Rightarrow> uuid \<Rightarrow> 's \<times> nat \<Rightarrow> ('s \<times> nat) option" where
  "case_unknown B x st = do {
     (res, st) \<leftarrow> place_plain B x 0 minIncrement st;
     require (res_outcome res = NotFound) st
   }"

definition case_closed :: "('env, 's) bench \<Rightarrow> uuid \<Rightarrow> 's \<times> nat \<Rightarrow> ('s \<times> nat) option" where
  "case_closed B x st = do {
     st \<leftarrow> seedAuction B x (- minute) st;
     (res, st) \<leftarrow> place_plain B x 0 minIncrement st;
     require (res_outcome res = Closed) st
   }"

definition case_no_row :: "('env, 's) bench \<Rightarrow> uuid \<Rightarrow> 's \<times> nat \<Rightarrow> ('s \<times> nat) option" where
  "case_no_row B x st = do {
     st \<leftarrow> seedAuction B x minute st;
     (res, st) \<leftarrow> place_plain B x 0 (minIncrement - 1) st;
     require (res_outcome res \<noteq> Accepted \<and> countBids B x st = 0) st
   }"

definition case_retry :: "('env, 's) bench \<Rightarrow> uuid \<Rightarrow> 's \<times> nat \<Rightarrow> ('s \<times> nat) option" where
  "case_retry B x st = do {
     st \<leftarrow> seedAuction B x minute st;
     (_, st) \<leftarrow> place_plain B x 0 minIncrement st;
     (rej, st) \<leftarrow> place_plain B x 1 minIncrement st;
     st \<leftarrow> require (res_outcome rej \<noteq> Accepted) st;
     (retried, st) \<leftarrow> place_plain B x (st_version (res_current rej)) (min_next_bid (res_current rej)) st;
     require (res_outcome retried = Accepted) st
   }"

definition case_keys :: "('env, 's) bench \<Rightarrow> string \<Rightarrow> uuid \<Rightarrow> 's \<times> nat \<Rightarrow> ('s \<times> nat) option" where
  "case_keys B key x st = do {
     st \<leftarrow> seedAuction B x minute st;
     (keyed, st) \<leftarrow> placeKeyed B x 0 minIncrement key st;
     st \<leftarrow> require (res_outcome keyed = Accepted \<and> keyOfBid B x (res_seq keyed) st = Some (Some key)) st;
     (anonymous, st) \<leftarrow> placeKeyed B x 1 (2 * minIncrement) [] st;
     require (res_outcome anonymous = Accepted \<and> keyOfBid B x (res_seq anonymous) st = Some None) st
   }"

text \<open>
  The workers of the last case. \<open>sched\<close> is the order in which their calls take effect; a worker
  re-aims from its previous answer, kept in \<open>aim\<close>.
\<close>

fun rounds ::
  "('env, 's) bench \<Rightarrow> uuid \<Rightarrow> nat list \<Rightarrow> (nat \<Rightarrow> i64 \<times> i64) \<Rightarrow> nat \<Rightarrow> 's \<times> nat \<Rightarrow> (nat \<times> 's \<times> nat) option" where
  "rounds B x [] aim accepted st = Some (accepted, st)"
| "rounds B x (i # is) aim accepted st = do {
     (res, st) \<leftarrow> place_plain B x (fst (aim i)) (snd (aim i)) st;
     rounds B x is (aim(i := (st_version (res_current res), min_next_bid (res_current res))))
       (if res_outcome res = Accepted then Suc accepted else accepted) st
   }"

definition case_concurrent :: "('env, 's) bench \<Rightarrow> nat list \<Rightarrow> uuid \<Rightarrow> 's \<times> nat \<Rightarrow> ('s \<times> nat) option" where
  "case_concurrent B sched x st = do {
     st \<leftarrow> seedAuction B x minute st;
     (accepted, st) \<leftarrow> rounds B x sched (\<lambda>_. (0, startingBid + minIncrement)) 0 st;
     require (replay (be_db B (fst st)) x startingBid minIncrement (of_nat accepted)) st
   }"

definition RunConformance ::
  "('env, 's) bench \<Rightarrow> (nat \<Rightarrow> uuid) \<Rightarrow> string \<Rightarrow> nat list \<Rightarrow> 's \<times> nat \<Rightarrow> ('s \<times> nat) option" where
  "RunConformance B X key sched st = do {
     st \<leftarrow> case_first B (X 0) st;
     st \<leftarrow> case_too_low B (X 1) st;
     st \<leftarrow> case_unknown B (X 2) st;
     st \<leftarrow> case_closed B (X 3) st;
     st \<leftarrow> case_no_row B (X 4) st;
     st \<leftarrow> case_retry B (X 5) st;
     st \<leftarrow> case_keys B key (X 6) st;
     case_concurrent B sched (X 7) st
   }"

text \<open>Each worker makes its attempts, in any interleaving.\<close>

definition interleaving :: "nat list \<Rightarrow> bool" where
  "interleaving sched \<longleftrightarrow>
     length sched = workers * attempts \<and> list_all (\<lambda>i. count_list sched i = attempts) [0..<workers]"

section \<open>What the suite asks of an engine\<close>

text \<open>
  The outcomes the contract allows a bid over a row, at a time: one in every case the suite looks
  at, and the engine's own choice when the version quoted is stale.
\<close>

fun allowed :: "auction_row option \<Rightarrow> time \<Rightarrow> i64 \<Rightarrow> i64 \<Rightarrow> outcome set" where
  "allowed None t v amount = {NotFound}"
| "allowed (Some a) t v amount =
     (if is_closed (state_of_row a) t then {Closed}
      else if a_version a \<noteq> v then {Accepted, Conflict, TooLow}
      else if amount <s min_next_bid (state_of_row a) then {TooLow}
      else {Accepted})"

text \<open>A database at rest: the invariant, capped prices, and nothing closed yet.\<close>

definition quiet_db :: "db \<Rightarrow> bool" where
  "quiet_db d \<longleftrightarrow> db_inv d \<and> capped d \<and> list_all (\<lambda>a. a_status a = ColOpen) (db_auctions d)"

text \<open>A request the suite may send: positive, capped, with a key nobody used.\<close>

definition plain_request :: "bid_request \<Rightarrow> i64 \<Rightarrow> db \<Rightarrow> bool" where
  "plain_request r v d \<longleftrightarrow> req_expected r = Some v \<and> 0 <s req_amount r \<and> sint (req_amount r) \<le> money_cap \<and>
     \<not> key_taken d (nullif_empty (req_key r)) \<and> length (db_bids d) < 2 ^ 61"

locale conforming_engine = bid_engine place db_of ok good world
  for place :: "'env \<Rightarrow> bid_request \<Rightarrow> 's \<Rightarrow> response \<times> 's"
    and db_of :: "'s \<Rightarrow> db"
    and ok :: "'s \<Rightarrow> bool"
    and good :: "'env \<Rightarrow> bid_request \<Rightarrow> 's \<Rightarrow> bool"
    and world :: "'env \<Rightarrow> db \<Rightarrow> db" +
  fixes put_db :: "db \<Rightarrow> 's \<Rightarrow> 's"
    and fit :: "'s \<Rightarrow> bool"
    and steady :: "time \<Rightarrow> uuid \<Rightarrow> 'env \<Rightarrow> bool"
  assumes fit_ok: "fit s \<Longrightarrow> ok s"
    and fit_quiet: "fit s \<Longrightarrow> quiet_db (db_of s)"
    and fit_put: "fit s \<Longrightarrow> evolves (db_of s) d \<Longrightarrow> quiet_db d \<Longrightarrow> db_bids d = db_bids (db_of s) \<Longrightarrow>
      (\<And>x a. find_auction (db_of s) x = Some a \<Longrightarrow> find_auction d x = Some a) \<Longrightarrow> fit (put_db d s)"
    and db_put: "db_of (put_db d s) = d"
    and steady_world: "steady t i e \<Longrightarrow> world e = (\<lambda>d. d)"
    and steady_good: "steady t i e \<Longrightarrow> plain_request r v (db_of s) \<Longrightarrow> good e r s"
    and decides: "fit s \<Longrightarrow> steady t i e \<Longrightarrow> plain_request r v (db_of s) \<Longrightarrow> i \<notin> b_id ` set (db_bids (db_of s)) \<Longrightarrow>
      \<exists>res s'. place e r s = (Inr res, s') \<and> fit s' \<and>
        res_outcome res \<in> allowed (find_auction (db_of s) (req_auction r)) t v (req_amount r) \<and>
        (res_outcome res = Accepted \<longrightarrow> res_bid_id res = i)"


section \<open>The state between two calls\<close>

lemma quiet_bid:
  assumes "quiet_db d" and b: "next_bid_ok d a b" and "sint (b_amount b) \<le> money_cap"
  shows "quiet_db (apply_bid a b d)"
proof -
  have a: "find_auction d (b_auction b) = Some a" using b by (simp add: next_bid_ok_def)
  have "a_status a = ColOpen"
    using assms(1) find_auction_mem [OF a] by (auto simp: quiet_db_def list_all_iff)
  then have "list_all (\<lambda>r. a_status r = ColOpen) (db_auctions (apply_bid a b d))"
    using assms(1) by (auto simp: quiet_db_def apply_bid_def list_all_iff set_auction_def raised_def)
  then show ?thesis
    using assms db_inv_bid [OF _ b] capped_apply_bid [OF _ a] by (simp add: quiet_db_def)
qed

lemma quiet_add:
  assumes "quiet_db d" and "fresh_row d a" and "sint (a_highest a) \<le> money_cap" and "sint (a_min_inc a) < money_cap"
  shows "quiet_db (add_auction a d)"
proof -
  have "db_inv (add_auction a d)"
    using assms(1,2) db_inv_evolves [OF evolves_one [OF ledger_create]] by (auto simp: quiet_db_def)
  then show ?thesis
    using assms by (auto simp: quiet_db_def capped_def fresh_row_def)
qed

definition laid_out ::
  "('env \<Rightarrow> bid_request \<Rightarrow> 's \<Rightarrow> response \<times> 's) \<Rightarrow> ('s \<Rightarrow> db) \<Rightarrow> (db \<Rightarrow> 's \<Rightarrow> 's) \<Rightarrow> (time \<Rightarrow> uuid \<Rightarrow> 'env \<Rightarrow> bool)
   \<Rightarrow> ('env, 's) bench \<Rightarrow> (nat \<Rightarrow> uuid) \<Rightarrow> time \<Rightarrow> nat \<Rightarrow> bool" where
  "laid_out place db_of put_db steady B ids T N \<longleftrightarrow>
     be_place B = place \<and> be_db B = db_of \<and> be_put B = put_db \<and> N \<le> 1000 \<and> inj_on ids {..<N} \<and>
     list_all (\<lambda>n. steady (be_now B n) (ids n) (be_env B n) \<and> ids n \<noteq> 0 \<and> T \<le> be_now B n \<and> be_now B n < T + minute) [0..<N]"

definition bench_inv ::
  "('s \<Rightarrow> db) \<Rightarrow> ('s \<Rightarrow> bool) \<Rightarrow> (nat \<Rightarrow> uuid) \<Rightarrow> uuid set \<Rightarrow> string set \<Rightarrow> nat \<Rightarrow> 's \<Rightarrow> bool" where
  "bench_inv db_of fit ids A ks n s \<longleftrightarrow>
     fit s \<and> a_id ` set (db_auctions (db_of s)) \<subseteq> A \<and> b_id ` set (db_bids (db_of s)) \<subseteq> ids ` {..<n} \<and>
     length (db_bids (db_of s)) \<le> n \<and> set (keys_of (db_bids (db_of s))) \<subseteq> ks"

text \<open>An open auction of the suite with its version, its top, its end and its bids.\<close>

definition lot :: "db \<Rightarrow> uuid \<Rightarrow> i64 \<Rightarrow> i64 \<Rightarrow> time \<Rightarrow> bid_row list \<Rightarrow> bool" where
  "lot d x v h t bs \<longleftrightarrow> (\<exists>a. find_auction d x = Some a \<and> a_version a = v \<and> a_highest a = h \<and> a_min_inc a = minIncrement \<and>
     a_ends_at a = t \<and> a_status a = ColOpen) \<and> bids_of d x = bs \<and> opened d x startingBid minIncrement"

text \<open>What the workers aim at, after so many bids.\<close>

definition aimed :: "(nat \<Rightarrow> i64 \<times> i64) \<Rightarrow> nat \<Rightarrow> bool" where
  "aimed aim k \<longleftrightarrow> (\<forall>i. 0 < sint (snd (aim i)) \<and> sint (snd (aim i)) \<le> 100 * int (Suc k))"

lemma aimedD: "aimed aim k \<Longrightarrow> 0 < sint (snd (aim i)) \<and> sint (snd (aim i)) \<le> 100 * int (Suc k)"
  by (simp add: aimed_def)

lemma aimed_update:
  assumes "aimed aim k" and "k \<le> l" and "0 < sint a" and "sint a \<le> 100 * int (Suc l)"
  shows "aimed (aim(i := (v, a))) l"
proof -
  have "sint (snd (aim j)) \<le> 100 * int (Suc l)" for j using aimedD [OF assms(1), of j] assms(2) by simp
  then show ?thesis using assms(3,4) aimedD [OF assms(1)] by (auto simp: aimed_def)
qed

context conforming_engine
begin

abbreviation laid where "laid \<equiv> laid_out place db_of put_db steady"
abbreviation inv where "inv \<equiv> bench_inv db_of fit"

lemma seed_step:
  assumes B: "laid B ids T N" and s: "inv ids A ks n s" and x: "x \<notin> A"
  obtains s' where "seedAuction B x endsIn (s, n) = Some (s', n)" and "inv ids (insert x A) ks n s'"
    and "lot (db_of s') x 0 0 (be_now B n + endsIn) []"
proof -
  let ?d = "db_of s" and ?a = "seeded_row B x endsIn n"
  let ?d' = "add_auction ?a ?d"
  have f: "fit s" using s by (simp add: bench_inv_def)
  note q = fit_quiet [OF f]
  have none: "find_auction ?d x = None" using s x by (auto simp: bench_inv_def find_auction_None_iff)
  have fresh: "fresh_row ?d ?a"
    using none by (simp add: fresh_row_def seeded_row_def check_auction_def startingBid_def minIncrement_def
      sless_iff_sint sle_iff_sint)
  have quiet: "quiet_db ?d'"
    by (rule quiet_add [OF q fresh]) (simp_all add: seeded_row_def startingBid_def minIncrement_def money_cap_def)
  have fit: "fit (put_db ?d' s)"
    using fresh quiet by (intro fit_put [OF f]) (auto simp: row_simps intro: evolves_one ledger_create)
  have run: "seedAuction B x endsIn (s, n) = Some (put_db ?d' s, n)"
    using B fresh by (simp add: seedAuction_def laid_out_def fresh_row_def)
  have row: "find_auction ?d' x = Some ?a" using none by (simp add: row_simps seeded_row_def)
  have bids: "bids_of ?d' x = []"
    using no_bids_without_auction [OF _ none] q by (simp add: quiet_db_def db_inv_def)
  have "lot ?d' x 0 0 (be_now B n + endsIn) []"
    using row bids opened_fresh [OF row bids] by (simp add: lot_def seeded_row_def startingBid_def)
  moreover have "inv ids (insert x A) ks n (put_db ?d' s)"
    using s fit by (auto simp: bench_inv_def db_put seeded_row_def)
  ultimately show thesis using that [OF run] by (simp add: db_put)
qed

lemma call_step:
  assumes B: "laid B ids T N" and s: "inv ids A ks n s" and n: "n < N"
    and amount: "0 <s amount" "sint amount \<le> money_cap" and key: "key = [] \<or> key \<notin> ks"
  obtains res s' where "placeKeyed B x v amount key (s, n) = Some (res, s', Suc n)"
    and "inv ids A (insert key ks) (Suc n) s'"
    and "res_outcome res \<in> allowed (find_auction (db_of s) x) (be_now B n) v amount"
    and "res_outcome res = Accepted \<longrightarrow> res_bid_id res \<noteq> 0 \<and>
      (\<exists>a b. next_bid_ok (db_of s) a b \<and> db_of s' = apply_bid a b (db_of s) \<and> b_auction b = x \<and> b_amount b = amount \<and>
         b_id b = ids n \<and> b_key b = nullif_empty key \<and> b_seq b = res_seq res \<and> st_version (res_current res) = res_seq res \<and>
         st_highest (res_current res) = amount \<and> st_min_inc (res_current res) = a_min_inc a)"
    and "res_outcome res \<noteq> Accepted \<longrightarrow> db_of s' = db_of s"
    and "res_outcome res \<in> {Conflict, TooLow, Closed} \<longrightarrow> (\<exists>a. find_auction (db_of s) x = Some a \<and>
      st_version (res_current res) = a_version a \<and> st_highest (res_current res) = a_highest a \<and>
      st_min_inc (res_current res) = a_min_inc a)"
proof -
  let ?r = "\<lparr>req_auction = x, req_user = be_user B n, req_amount = amount, req_expected = Some v, req_key = key\<rparr>"
  let ?d = "db_of s" and ?e = "be_env B n"
  have st: "steady (be_now B n) (ids n) ?e" "ids n \<noteq> 0" and N: "N \<le> 1000" and inj: "inj_on ids {..<N}"
    using B n by (simp_all add: laid_out_def list_all_iff)
  have f: "fit s" and ids: "b_id ` set (db_bids ?d) \<subseteq> ids ` {..<n}" and len: "length (db_bids ?d) \<le> n"
    and keys: "set (keys_of (db_bids ?d)) \<subseteq> ks"
    using s by (simp_all add: bench_inv_def)
  have new: "ids n \<notin> b_id ` set (db_bids ?d)"
  proof
    assume "ids n \<in> b_id ` set (db_bids ?d)"
    then obtain m where "m < n" "ids n = ids m" using ids by auto
    then show False using inj_onD [OF inj, of n m] n by simp
  qed
  have "\<not> key_taken ?d (nullif_empty key)" using key keys by (auto simp: nullif_empty_def)
  then have plain: "plain_request ?r v ?d"
    using amount len n N by (simp add: plain_request_def)
  obtain res s' where p: "place ?e ?r s = (Inr res, s')" and f': "fit s'"
    and oc: "res_outcome res \<in> allowed (find_auction ?d x) (be_now B n) v amount"
    and id: "res_outcome res = Accepted \<Longrightarrow> res_bid_id res = ids n"
    using decides [OF f st(1) plain new] by auto
  note ok = fit_ok [OF f] and good = steady_good [OF st(1) plain]
  have run: "placeKeyed B x v amount key (s, n) = Some (res, s', Suc n)"
    using B p by (simp add: placeKeyed_def laid_out_def)
  have acc: "\<exists>a b. next_bid_ok ?d a b \<and> db_of s' = apply_bid a b ?d \<and> b_auction b = x \<and> b_amount b = amount \<and>
      b_id b = ids n \<and> b_key b = nullif_empty key \<and> b_seq b = res_seq res \<and> st_version (res_current res) = res_seq res \<and>
      st_highest (res_current res) = amount \<and> st_min_inc (res_current res) = a_min_inc a" if "res_outcome res = Accepted"
    using place_accept [OF ok good p that] id [OF that] by auto
  have rej: "db_of s' = ?d" if "res_outcome res \<noteq> Accepted"
    using place_reject [OF ok good p that] by (auto simp: steady_world [OF st(1)])
  have "inv ids A (insert key ks) (Suc n) s'"
  proof (cases "res_outcome res = Accepted")
    case True
    from acc [OF this] obtain a b where b: "next_bid_ok ?d a b" "db_of s' = apply_bid a b ?d" "b_id b = ids n"
        "b_key b = nullif_empty key"
      by blast
    have "a_id ` set (db_auctions (db_of s')) = a_id ` set (db_auctions ?d)"
      using arg_cong [OF ids_set_auction, of set "raised a (b_amount b) (b_user b) (b_seq b)" ?d]
      by (simp add: b(2) apply_bid_def del: ids_set_auction)
    moreover have "set (keys_of (db_bids (db_of s'))) \<subseteq> insert key ks"
      using keys b(4) by (auto simp: b(2) nullif_empty_def)
    moreover have "b_id ` set (db_bids (db_of s')) \<subseteq> ids ` {..<Suc n}"
      using ids by (auto simp: b(2,3) lessThan_Suc)
    ultimately show ?thesis using s f' len by (simp add: bench_inv_def b(2))
  next
    case False
    then show ?thesis using s f' rej by (auto simp: bench_inv_def less_Suc_eq)
  qed
  note this' = this
  show thesis
  proof (rule that [OF run this' oc])
    show "res_outcome res = Accepted \<longrightarrow> res_bid_id res \<noteq> 0 \<and>
      (\<exists>a b. next_bid_ok ?d a b \<and> db_of s' = apply_bid a b ?d \<and> b_auction b = x \<and> b_amount b = amount \<and>
         b_id b = ids n \<and> b_key b = nullif_empty key \<and> b_seq b = res_seq res \<and> st_version (res_current res) = res_seq res \<and>
         st_highest (res_current res) = amount \<and> st_min_inc (res_current res) = a_min_inc a)"
      using acc id st(2) by simp
    show "res_outcome res \<noteq> Accepted \<longrightarrow> db_of s' = ?d" using rej by simp
    show "res_outcome res \<in> {Conflict, TooLow, Closed} \<longrightarrow> (\<exists>a. find_auction ?d x = Some a \<and>
        st_version (res_current res) = a_version a \<and>
        st_highest (res_current res) = a_highest a \<and> st_min_inc (res_current res) = a_min_inc a)"
      using place_reject_state [OF ok good p] rej by auto
  qed
qed


lemma lot_step:
  assumes B: "laid B ids T N" and s: "inv ids A ks n s" and n: "n < N" and lot: "lot (db_of s) x v h t bs"
    and now: "be_now B n < t" and amount: "0 <s amount" "sint amount \<le> money_cap" and key: "key = [] \<or> key \<notin> ks"
  obtains res s' where "placeKeyed B x v' amount key (s, n) = Some (res, s', Suc n)"
    and "inv ids A (insert key ks) (Suc n) s'" and "res_outcome res \<in> {Accepted, Conflict, TooLow}"
    and "v' = v \<longrightarrow> res_outcome res = (if amount <s h + minIncrement then TooLow else Accepted)"
    and "res_outcome res = Accepted \<longrightarrow> res_bid_id res \<noteq> 0 \<and> res_seq res = v + 1 \<and>
      st_version (res_current res) = v + 1 \<and> st_highest (res_current res) = amount \<and>
      st_min_inc (res_current res) = minIncrement \<and>
      (\<exists>b. lot (db_of s') x (v + 1) amount t (bs @ [b]) \<and> b_seq b = v + 1 \<and> b_key b = nullif_empty key)"
    and "res_outcome res \<noteq> Accepted \<longrightarrow> db_of s' = db_of s \<and> st_version (res_current res) = v \<and>
      st_highest (res_current res) = h \<and> st_min_inc (res_current res) = minIncrement"
proof -
  let ?d = "db_of s"
  obtain a where a: "find_auction ?d x = Some a" "a_version a = v" "a_highest a = h" "a_min_inc a = minIncrement"
      "a_ends_at a = t" "a_status a = ColOpen" and bs: "bids_of ?d x = bs" and op: "opened ?d x startingBid minIncrement"
    using lot by (auto simp: lot_def)
  obtain res s' where run: "placeKeyed B x v' amount key (s, n) = Some (res, s', Suc n)"
    and inv: "inv ids A (insert key ks) (Suc n) s'"
    and oc: "res_outcome res \<in> allowed (find_auction ?d x) (be_now B n) v' amount"
    and acc: "res_outcome res = Accepted \<longrightarrow> res_bid_id res \<noteq> 0 \<and>
      (\<exists>a b. next_bid_ok ?d a b \<and> db_of s' = apply_bid a b ?d \<and> b_auction b = x \<and> b_amount b = amount \<and>
         b_id b = ids n \<and> b_key b = nullif_empty key \<and> b_seq b = res_seq res \<and> st_version (res_current res) = res_seq res \<and>
         st_highest (res_current res) = amount \<and> st_min_inc (res_current res) = a_min_inc a)"
    and rej: "res_outcome res \<noteq> Accepted \<longrightarrow> db_of s' = ?d"
    and cur: "res_outcome res \<in> {Conflict, TooLow, Closed} \<longrightarrow> (\<exists>a. find_auction ?d x = Some a \<and>
      st_version (res_current res) = a_version a \<and> st_highest (res_current res) = a_highest a \<and>
      st_min_inc (res_current res) = a_min_inc a)"
    using call_step [OF B s n amount key, where x = x and v = v'] .
  have open': "\<not> is_closed (state_of_row a) (be_now B n)" using a(5,6) now by (simp add: is_closed_row)
  have oc3: "res_outcome res \<in> {Accepted, Conflict, TooLow}"
    using oc a(1) open' by (auto split: if_splits)
  show thesis
  proof (rule that [OF run inv oc3])
    show "v' = v \<longrightarrow> res_outcome res = (if amount <s h + minIncrement then TooLow else Accepted)"
      using oc a open' by (auto simp: min_next_bid_def split: if_splits)
    show "res_outcome res \<noteq> Accepted \<longrightarrow> db_of s' = ?d \<and> st_version (res_current res) = v \<and>
      st_highest (res_current res) = h \<and> st_min_inc (res_current res) = minIncrement"
      using rej cur oc3 a by auto
    show "res_outcome res = Accepted \<longrightarrow> res_bid_id res \<noteq> 0 \<and> res_seq res = v + 1 \<and>
      st_version (res_current res) = v + 1 \<and> st_highest (res_current res) = amount \<and>
      st_min_inc (res_current res) = minIncrement \<and>
      (\<exists>b. lot (db_of s') x (v + 1) amount t (bs @ [b]) \<and> b_seq b = v + 1 \<and> b_key b = nullif_empty key)"
    proof
      assume "res_outcome res = Accepted"
      with acc obtain b where nz: "res_bid_id res \<noteq> 0"
        and b: "next_bid_ok ?d a b" "db_of s' = apply_bid a b ?d" "b_auction b = x" "b_amount b = amount"
        "b_key b = nullif_empty key" "b_seq b = res_seq res" "st_version (res_current res) = res_seq res"
        "st_highest (res_current res) = amount" "st_min_inc (res_current res) = minIncrement"
        using a by (auto simp: next_bid_ok_def)
      have seq: "b_seq b = v + 1"
        using b(1) a(2) sint_range [of "b_seq b"] sint_range [of v]
        by (intro i64_eqI) (auto simp: next_bid_ok_def sint_add_in_range)
      have "find_auction (db_of s') x = Some (raised a amount (b_user b) (v + 1))"
        using a(1) b(2,3,4) seq by (simp add: row_simps)
      moreover have "opened (db_of s') x startingBid minIncrement"
        using opened_evolves [OF evolves_bid [OF b(1)] op] b(2) by simp
      moreover have "bids_of (db_of s') x = bs @ [b]" using bs b(2,3) by simp
      ultimately have "lot (db_of s') x (v + 1) amount t (bs @ [b])"
        using a by (simp add: lot_def raised_def)
      then show "res_bid_id res \<noteq> 0 \<and> res_seq res = v + 1 \<and>
        st_version (res_current res) = v + 1 \<and> st_highest (res_current res) = amount \<and>
        st_min_inc (res_current res) = minIncrement \<and>
        (\<exists>b. lot (db_of s') x (v + 1) amount t (bs @ [b]) \<and> b_seq b = v + 1 \<and> b_key b = nullif_empty key)"
        using b nz seq by auto
    qed
  qed
qed


section \<open>The cases, one by one\<close>

lemma laid_now:
  assumes "laid B ids T N" and "m < N" and "n < N"
  shows "be_now B m < be_now B n + minute" and "be_now B n - minute \<le> be_now B m"
proof -
  have "list_all (\<lambda>n. T \<le> be_now B n \<and> be_now B n < T + minute) [0..<N]"
    using assms(1) by (auto simp: laid_out_def list_all_iff)
  with assms(2,3) have "T \<le> be_now B m" "be_now B m < T + minute" "T \<le> be_now B n" "be_now B n < T + minute"
    by (auto simp: list_all_iff)
  then show "be_now B m < be_now B n + minute" "be_now B n - minute \<le> be_now B m" by linarith+
qed

text \<open>A bid that quotes the version: taken from the minimum up, refused below it.\<close>

lemma accept_step:
  assumes "laid B ids T N" and "inv ids A ks n s" and "n < N" and "lot (db_of s) x v h t bs" and "be_now B n < t"
    and "h + minIncrement \<le>s amount" and "0 <s amount" and "sint amount \<le> money_cap" and "key = [] \<or> key \<notin> ks"
  obtains res s' b where "placeKeyed B x v amount key (s, n) = Some (res, s', Suc n)"
    and "inv ids A (insert key ks) (Suc n) s'" and "res_outcome res = Accepted" and "res_bid_id res \<noteq> 0"
    and "res_seq res = v + 1" and "st_version (res_current res) = v + 1" and "st_highest (res_current res) = amount"
    and "st_min_inc (res_current res) = minIncrement" and "lot (db_of s') x (v + 1) amount t (bs @ [b])"
    and "b_seq b = v + 1" and "b_key b = nullif_empty key"
  by (rule lot_step [OF assms(1-5,7-9), where v' = v])
    (use that assms(6) in \<open>auto simp: sless_iff_sint sle_iff_sint\<close>)

lemma low_step:
  assumes "laid B ids T N" and "inv ids A ks n s" and "n < N" and "lot (db_of s) x v h t bs" and "be_now B n < t"
    and "amount <s h + minIncrement" and "0 <s amount" and "sint amount \<le> money_cap" and "[] \<in> ks"
  obtains res s' where "placeKeyed B x v amount [] (s, n) = Some (res, s', Suc n)"
    and "inv ids A ks (Suc n) s'" and "res_outcome res = TooLow" and "db_of s' = db_of s"
    and "st_version (res_current res) = v" and "st_highest (res_current res) = h"
    and "st_min_inc (res_current res) = minIncrement"
  by (rule lot_step [OF assms(1-5,7,8), where v' = v and key = "[]"]) (use that assms(6,9) in \<open>auto simp: insert_absorb\<close>)

lemmas amounts = minIncrement_def money_cap_def sless_iff_sint sle_iff_sint

lemma first_passes:
  assumes B: "laid B ids T N" and s: "inv ids A ks n s" and ks: "[] \<in> ks" and x: "x \<notin> A" and n: "n < N"
  obtains s' where "case_first B x (s, n) = Some (s', Suc n)" and "inv ids (insert x A) ks (Suc n) s'"
proof -
  obtain s1 where s1: "seedAuction B x minute (s, n) = Some (s1, n)" "inv ids (insert x A) ks n s1"
      "lot (db_of s1) x 0 0 (be_now B n + minute) []"
    using seed_step [OF B s x] .
  obtain res s2 where r: "placeKeyed B x 0 minIncrement [] (s1, n) = Some (res, s2, Suc n)"
      "inv ids (insert x A) ks (Suc n) s2" "res_outcome res = Accepted" "res_bid_id res \<noteq> 0" "res_seq res = 1"
      "st_version (res_current res) = 1" "st_highest (res_current res) = minIncrement"
    by (rule accept_step [OF B s1(2) n s1(3) laid_now(1) [OF B n n], where amount = minIncrement and key = "[]"])
      (use ks in \<open>auto simp: amounts insert_absorb\<close>)
  then have "case_first B x (s, n) = Some (s2, Suc n)"
    using s1(1) by (simp add: case_first_def place_plain_def require_def)
  then show thesis using that r(2) by blast
qed

lemma too_low_passes:
  assumes B: "laid B ids T N" and s: "inv ids A ks n s" and ks: "[] \<in> ks" and x: "x \<notin> A" and n: "n < N"
  obtains s' where "case_too_low B x (s, n) = Some (s', Suc n)" and "inv ids (insert x A) ks (Suc n) s'"
    and "case_no_row B x (s, n) = Some (s', Suc n)"
proof -
  obtain s1 where s1: "seedAuction B x minute (s, n) = Some (s1, n)" "inv ids (insert x A) ks n s1"
      "lot (db_of s1) x 0 0 (be_now B n + minute) []"
    using seed_step [OF B s x] .
  obtain res s2 where r: "placeKeyed B x 0 (minIncrement - 1) [] (s1, n) = Some (res, s2, Suc n)"
      "inv ids (insert x A) ks (Suc n) s2" "res_outcome res = TooLow" "db_of s2 = db_of s1"
      "st_highest (res_current res) = 0" "st_min_inc (res_current res) = minIncrement"
    by (rule low_step [OF B s1(2) n s1(3) laid_now(1) [OF B n n], where amount = "minIncrement - 1"])
      (use ks in \<open>auto simp: amounts\<close>)
  have "be_db B = db_of" using B by (simp add: laid_out_def)
  then have "case_too_low B x (s, n) = Some (s2, Suc n)" "case_no_row B x (s, n) = Some (s2, Suc n)"
    using s1(1,3) r
    by (simp_all add: case_too_low_def case_no_row_def place_plain_def require_def min_next_bid_def countBids_def lot_def)
  then show thesis using that r(2) by blast
qed

lemma unknown_passes:
  assumes B: "laid B ids T N" and s: "inv ids A ks n s" and ks: "[] \<in> ks" and x: "x \<notin> A" and n: "n < N"
  obtains s' where "case_unknown B x (s, n) = Some (s', Suc n)" and "inv ids A ks (Suc n) s'"
proof -
  have "find_auction (db_of s) x = None" using s x by (auto simp: bench_inv_def find_auction_None_iff)
  then obtain res s1 where r: "placeKeyed B x 0 minIncrement [] (s, n) = Some (res, s1, Suc n)"
      "inv ids A (insert [] ks) (Suc n) s1" "res_outcome res = NotFound"
    by (rule_tac call_step [OF B s n, where x = x and v = 0 and amount = minIncrement and key = "[]"]) (auto simp: amounts)
  then have "case_unknown B x (s, n) = Some (s1, Suc n)"
    by (simp add: case_unknown_def place_plain_def require_def)
  then show thesis using that r(2) ks by (simp add: insert_absorb)
qed

lemma closed_passes:
  assumes B: "laid B ids T N" and s: "inv ids A ks n s" and ks: "[] \<in> ks" and x: "x \<notin> A" and n: "n < N"
  obtains s' where "case_closed B x (s, n) = Some (s', Suc n)" and "inv ids (insert x A) ks (Suc n) s'"
proof -
  obtain s1 where s1: "seedAuction B x (- minute) (s, n) = Some (s1, n)" "inv ids (insert x A) ks n s1"
      "lot (db_of s1) x 0 0 (be_now B n - minute) []"
    using seed_step [OF B s x, of "- minute"] by auto
  then obtain a where a: "find_auction (db_of s1) x = Some a" "a_ends_at a = be_now B n - minute" by (auto simp: lot_def)
  have "is_closed (state_of_row a) (be_now B n)" using a(2) by (simp add: is_closed_row minute_def)
  with a(1) obtain res s2 where r: "placeKeyed B x 0 minIncrement [] (s1, n) = Some (res, s2, Suc n)"
      "inv ids (insert x A) (insert [] ks) (Suc n) s2" "res_outcome res = Closed"
    by (rule_tac call_step [OF B s1(2) n, where x = x and v = 0 and amount = minIncrement and key = "[]"]) (auto simp: amounts)
  then have "case_closed B x (s, n) = Some (s2, Suc n)"
    using s1(1) by (simp add: case_closed_def place_plain_def require_def)
  then show thesis using that r(2) ks by (simp add: insert_absorb)
qed

lemma retry_passes:
  assumes B: "laid B ids T N" and s: "inv ids A ks n s" and ks: "[] \<in> ks" and x: "x \<notin> A" and n: "n + 2 < N"
  obtains s' where "case_retry B x (s, n) = Some (s', n + 3)" and "inv ids (insert x A) ks (n + 3) s'"
proof -
  let ?t = "be_now B n + minute"
  have lt: "n < N" "Suc n < N" "Suc (Suc n) < N" using n by simp_all
  note now = laid_now(1) [OF B _ lt(1)]
  obtain s1 where s1: "seedAuction B x minute (s, n) = Some (s1, n)" "inv ids (insert x A) ks n s1"
      "lot (db_of s1) x 0 0 ?t []"
    using seed_step [OF B s x] .
  obtain res s2 b where r: "placeKeyed B x 0 minIncrement [] (s1, n) = Some (res, s2, Suc n)"
      "inv ids (insert x A) ks (Suc n) s2" "lot (db_of s2) x 1 minIncrement ?t [b]"
    by (rule accept_step [OF B s1(2) lt(1) s1(3) now [OF lt(1)], where amount = minIncrement and key = "[]"])
      (use ks in \<open>auto simp: amounts insert_absorb\<close>)
  obtain rej s3 where q: "placeKeyed B x 1 minIncrement [] (s2, Suc n) = Some (rej, s3, Suc (Suc n))"
      "inv ids (insert x A) ks (Suc (Suc n)) s3" "res_outcome rej = TooLow" "db_of s3 = db_of s2"
      "st_version (res_current rej) = 1" "st_highest (res_current rej) = minIncrement"
      "st_min_inc (res_current rej) = minIncrement"
    by (rule low_step [OF B r(2) lt(2) r(3) now [OF lt(2)], where amount = minIncrement])
      (use ks in \<open>auto simp: amounts\<close>)
  have "lot (db_of s3) x 1 minIncrement ?t [b]" using r(3) q(4) by simp
  then obtain ret s4 where u: "placeKeyed B x 1 (minIncrement + minIncrement) [] (s3, Suc (Suc n)) = Some (ret, s4, Suc (Suc (Suc n)))"
      "inv ids (insert x A) ks (Suc (Suc (Suc n))) s4" "res_outcome ret = Accepted"
    by (rule_tac accept_step [OF B q(2) lt(3) _ now [OF lt(3)], where amount = "minIncrement + minIncrement" and key = "[]"])
      (use ks in \<open>auto simp: amounts insert_absorb\<close>)
  have "case_retry B x (s, n) = Some (s4, n + 3)"
    using s1(1) r(1) q u(1,3)
    by (simp add: case_retry_def place_plain_def require_def min_next_bid_def numeral_3_eq_3)
  then show thesis using that u(2) by (simp add: numeral_3_eq_3)
qed

lemma keys_passes:
  assumes B: "laid B ids T N" and s: "inv ids A {[]} n s" and x: "x \<notin> A" and n: "n + 1 < N" and key: "key \<noteq> []"
  obtains s' where "case_keys B key x (s, n) = Some (s', n + 2)" and "inv ids (insert x A) {key, []} (n + 2) s'"
proof -
  let ?t = "be_now B n + minute"
  have lt: "n < N" "Suc n < N" using n by simp_all
  note now = laid_now(1) [OF B _ lt(1)]
  have db: "be_db B = db_of" using B by (simp add: laid_out_def)
  obtain s1 where s1: "seedAuction B x minute (s, n) = Some (s1, n)" "inv ids (insert x A) {[]} n s1"
      "lot (db_of s1) x 0 0 ?t []"
    using seed_step [OF B s x] .
  obtain res s2 b where r: "placeKeyed B x 0 minIncrement key (s1, n) = Some (res, s2, Suc n)"
      "inv ids (insert x A) {key, []} (Suc n) s2" "lot (db_of s2) x 1 minIncrement ?t [b]" "res_outcome res = Accepted"
      "res_seq res = 1" "b_seq b = 1" "b_key b = Some key"
    by (rule accept_step [OF B s1(2) lt(1) s1(3) now [OF lt(1)], where amount = minIncrement and key = key])
      (use key in \<open>auto simp: amounts nullif_empty_def\<close>)
  obtain res' s3 b' where q: "placeKeyed B x 1 (2 * minIncrement) [] (s2, Suc n) = Some (res', s3, Suc (Suc n))"
      "inv ids (insert x A) (insert [] {key, []}) (Suc (Suc n)) s3" "lot (db_of s3) x 2 (2 * minIncrement) ?t [b, b']"
      "res_outcome res' = Accepted" "res_seq res' = 2" "b_seq b' = 2" "b_key b' = None"
    by (rule accept_step [OF B r(2) lt(2) r(3) now [OF lt(2)], where amount = "2 * minIncrement" and key = "[]"])
      (auto simp: amounts nullif_empty_def)
  have "case_keys B key x (s, n) = Some (s3, n + 2)"
    using s1(1) r q db by (simp add: case_keys_def require_def keyOfBid_def lot_def)
  then show thesis using that q(2) by (simp add: insert_commute insert_absorb)
qed

lemma rounds_pass:
  assumes B: "laid B ids T N" and ks: "[] \<in> ks" and t: "\<forall>m < N. be_now B m < t"
  shows "inv ids A ks n s \<Longrightarrow> lot (db_of s) x v h t bs \<Longrightarrow> n + length sched \<le> N \<Longrightarrow>
    0 \<le> sint h \<Longrightarrow> sint h \<le> 100 * int (length bs) \<Longrightarrow>
    aimed aim (length bs) \<Longrightarrow>
    \<exists>s' v' h' bs'. rounds B x sched aim (length bs) (s, n) = Some (length bs', s', n + length sched) \<and>
      inv ids A ks (n + length sched) s' \<and> lot (db_of s') x v' h' t bs' \<and> length bs \<le> length bs'"
proof (induction sched arbitrary: n s v h bs aim)
  case (Cons i sched)
  let ?amount = "snd (aim i)"
  have n: "n < N" and N: "N \<le> 1000" using Cons.prems(3) B by (simp_all add: laid_out_def)
  have "length bs \<le> length (db_bids (db_of s))" using Cons.prems(2) by (auto simp: lot_def bids_of_def)
  then have few: "int (length bs) < 1000" using Cons.prems(1) n N by (simp add: bench_inv_def)
  have amount: "0 <s ?amount" "sint ?amount \<le> money_cap" "sint ?amount \<le> 100 * int (Suc (length bs))"
    using aimedD [OF Cons.prems(6), of i] few by (simp_all add: sless_iff_sint money_cap_def)
  have min: "sint (min_next_bid st) = sint (st_highest st) + 100"
    if "0 \<le> sint (st_highest st)" "sint (st_highest st) \<le> 10 ^ 6" "st_min_inc st = minIncrement" for st
    using that by (subst sint_min_next_bid) (simp_all add: minIncrement_def)
  obtain res s1 where r: "placeKeyed B x (fst (aim i)) ?amount [] (s, n) = Some (res, s1, Suc n)"
    and inv: "inv ids A (insert [] ks) (Suc n) s1" and oc: "res_outcome res \<in> {Accepted, Conflict, TooLow}"
    and acc: "res_outcome res = Accepted \<longrightarrow> res_bid_id res \<noteq> 0 \<and> res_seq res = v + 1 \<and>
      st_version (res_current res) = v + 1 \<and> st_highest (res_current res) = ?amount \<and>
      st_min_inc (res_current res) = minIncrement \<and>
      (\<exists>b. lot (db_of s1) x (v + 1) ?amount t (bs @ [b]) \<and> b_seq b = v + 1 \<and> b_key b = nullif_empty [])"
    and rej: "res_outcome res \<noteq> Accepted \<longrightarrow> db_of s1 = db_of s \<and> st_version (res_current res) = v \<and>
      st_highest (res_current res) = h \<and> st_min_inc (res_current res) = minIncrement"
    by (rule lot_step [OF B Cons.prems(1) n Cons.prems(2) t [rule_format, OF n] amount(1,2), where v' = "fst (aim i)" and key = "[]"]) auto
  have inv': "inv ids A ks (Suc n) s1" using inv ks by (simp add: insert_absorb)
  let ?aim = "aim(i := (st_version (res_current res), min_next_bid (res_current res)))"
  have len: "Suc n + length sched \<le> N" using Cons.prems(3) by simp
  show ?case
  proof (cases "res_outcome res = Accepted")
    case True
    with acc obtain b where b: "lot (db_of s1) x (v + 1) ?amount t (bs @ [b])" by blast
    have "sint (min_next_bid (res_current res)) = sint ?amount + 100"
      using acc True amount(3) few aimedD [OF Cons.prems(6), of i] by (subst min) auto
    then have "aimed ?aim (length (bs @ [b]))"
      using amount(3) aimedD [OF Cons.prems(6), of i] by (intro aimed_update [OF Cons.prems(6)]) auto
    from Cons.IH [OF inv' b len _ _ this] amount(3) aimedD [OF Cons.prems(6), of i] show ?thesis
      using r True by (fastforce simp: place_plain_def)
  next
    case False
    with rej have d: "db_of s1 = db_of s" and cur: "st_highest (res_current res) = h" "st_min_inc (res_current res) = minIncrement"
      by simp_all
    have "sint (min_next_bid (res_current res)) = sint h + 100"
      using cur Cons.prems(4,5) few by (subst min) auto
    then have "aimed ?aim (length bs)"
      using Cons.prems(4,5) by (intro aimed_update [OF Cons.prems(6)]) auto
    from Cons.IH [OF inv' _ len Cons.prems(4,5) this] Cons.prems(2) d show ?thesis
      using r False by (fastforce simp: place_plain_def)
  qed
qed auto

lemma concurrent_passes:
  assumes B: "laid B ids T N" and s: "inv ids A ks n s" and ks: "[] \<in> ks" and x: "x \<notin> A" and n: "n + length sched \<le> N"
    and some: "sched \<noteq> []"
  shows "\<exists>s'. case_concurrent B sched x (s, n) = Some (s', n + length sched)"
proof -
  let ?t = "be_now B n + minute"
  obtain i rest where sched: "sched = i # rest" using some by (cases sched) auto
  have lt: "n < N" and len: "Suc n + length rest \<le> N" using n by (simp_all add: sched)
  note now = laid_now(1) [OF B _ lt]
  have db: "be_db B = db_of" using B by (simp add: laid_out_def)
  obtain s1 where s1: "seedAuction B x minute (s, n) = Some (s1, n)" "inv ids (insert x A) ks n s1"
      "lot (db_of s1) x 0 0 ?t []"
    using seed_step [OF B s x] .
  obtain res s2 b where r: "placeKeyed B x 0 minIncrement [] (s1, n) = Some (res, s2, Suc n)"
      "inv ids (insert x A) ks (Suc n) s2" "res_outcome res = Accepted" "st_version (res_current res) = 1"
      "st_highest (res_current res) = minIncrement" "st_min_inc (res_current res) = minIncrement"
      "lot (db_of s2) x 1 minIncrement ?t [b]"
    by (rule accept_step [OF B s1(2) lt s1(3) now [OF lt], where amount = minIncrement and key = "[]"])
      (use ks in \<open>auto simp: amounts insert_absorb\<close>)
  let ?aim = "(\<lambda>_. (0, minIncrement))(i := (1, minIncrement + minIncrement))"
  have aim: "aimed ?aim (length [b])" by (simp add: aimed_def minIncrement_def)
  have now': "\<forall>m < N. be_now B m < ?t" using now by blast
  obtain s3 v' h' bs' where u: "rounds B x rest ?aim (length [b]) (s2, Suc n) = Some (length bs', s3, Suc n + length rest)"
      "inv ids (insert x A) ks (Suc n + length rest) s3" "lot (db_of s3) x v' h' ?t bs'" "length [b] \<le> length bs'"
    using rounds_pass [OF B ks now' r(2,7) len _ _ aim] by (auto simp: minIncrement_def)
  have "bids_of (db_of s3) x = bs'" and op: "opened (db_of s3) x startingBid minIncrement" using u(3) by (auto simp: lot_def)
  moreover have "length bs' < 2 ^ 60"
  proof -
    have "length bs' \<le> length (db_bids (db_of s3))" using u(3) by (auto simp: lot_def bids_of_def)
    then show ?thesis using u(2) len B by (simp add: bench_inv_def laid_out_def)
  qed
  then have "sint (of_nat (length bs') :: i64) = int (length bs')"
    by (simp add: signed_of_nat signed_take_bit_int_eq_self)
  moreover have "db_inv (db_of s3)"
    using u(2) by (auto simp: bench_inv_def intro: ok_inv fit_ok)
  ultimately have "replay (db_of s3) x startingBid minIncrement (of_nat (length bs'))"
    using u(4) by (intro replay_ok) (auto simp: startingBid_def)
  then have "case_concurrent B sched x (s, n) = Some (s3, n + length sched)"
    using s1(1) r u(1) db
    by (simp add: case_concurrent_def sched place_plain_def min_next_bid_def require_def startingBid_def)
  then show ?thesis by blast
qed

lemma suite_passes:
  assumes B: "laid B ids T N" and s: "fit s" "db_of s = empty_db" and sched: "interleaving sched"
    and N: "10 + workers * attempts \<le> N" and X: "inj_on X {..<8}" and key: "key \<noteq> []"
  shows "\<exists>s'. RunConformance B X key sched (s, 0) = Some (s', 10 + workers * attempts)"
proof -
  let ?A = "\<lambda>k. X ` {..<k}"
  have new: "X k \<notin> ?A k" if "k < 8" for k using X that by (auto dest: inj_onD)
  have grow: "insert (X k) (?A k) = ?A (Suc k)" for k by (simp add: lessThan_Suc)
  have N': "10 + length sched \<le> N" "length sched = workers * attempts" and some: "sched \<noteq> []"
    using N sched by (auto simp: interleaving_def workers_def attempts_def)
  have "inv ids (?A 0) {[]} 0 s"
    using s by (simp add: bench_inv_def empty_db_def keys_of_def List.map_filter_def)
  then obtain s1 where s1: "case_first B (X 0) (s, 0) = Some (s1, Suc 0)" "inv ids (insert (X 0) (?A 0)) {[]} (Suc 0) s1"
    by (rule first_passes [OF B]) (use N' new [of 0] in auto)
  obtain s2 where s2: "case_too_low B (X 1) (s1, Suc 0) = Some (s2, Suc (Suc 0))" "inv ids (insert (X 1) (?A 1)) {[]} (Suc (Suc 0)) s2"
    by (rule too_low_passes [OF B s1(2) [unfolded grow], of "X 1"]) (use N' new [of 1] in auto)
  obtain s3 where s3: "case_unknown B (X 2) (s2, Suc (Suc 0)) = Some (s3, 3)" "inv ids (?A 2) {[]} 3 s3"
    by (rule unknown_passes [OF B s2(2) [unfolded grow], of "X 2"])
      (use N' new [of 2] in \<open>auto simp: numeral_2_eq_2 numeral_3_eq_3\<close>)
  have A3: "inv ids (?A 3) {[]} 3 s3" using s3(2) by (auto simp: bench_inv_def numeral_3_eq_3 numeral_2_eq_2 lessThan_Suc)
  obtain s4 where s4: "case_closed B (X 3) (s3, 3) = Some (s4, 4)" "inv ids (?A 4) {[]} 4 s4"
    by (rule closed_passes [OF B A3, of "X 3"]) (use N' new [of 3] grow [of 3] in auto)
  obtain s5 where s5: "case_no_row B (X 4) (s4, 4) = Some (s5, 5)" "inv ids (?A 5) {[]} 5 s5"
    by (rule too_low_passes [OF B s4(2), of "X 4"]) (use N' new [of 4] grow [of 4] in auto)
  obtain s6 where s6: "case_retry B (X 5) (s5, 5) = Some (s6, 8)" "inv ids (?A 6) {[]} 8 s6"
    by (rule retry_passes [OF B s5(2), of "X 5"]) (use N' new [of 5] grow [of 5] in auto)
  obtain s7 where s7: "case_keys B key (X 6) (s6, 8) = Some (s7, 10)" "inv ids (?A 7) {key, []} 10 s7"
    by (rule keys_passes [OF B s6(2), of "X 6" key]) (use N' new [of 6] grow [of 6] key in auto)
  obtain s8 where s8: "case_concurrent B sched (X 7) (s7, 10) = Some (s8, 10 + length sched)"
    using concurrent_passes [OF B s7(2), of "X 7" sched] N' new [of 7] some by auto
  show ?thesis
    using s1(1) s2(1) s3(1) s4(1) s5(1) s6(1) s7(1) s8 N'(2) by (simp add: RunConformance_def)
qed

end


section \<open>The three engines on the bench\<close>

context bid_engine
begin

lemma place_quiet:
  assumes "ok s" and "good e r s" and "place e r s = (Inr res, s')" and "world e = (\<lambda>d. d)"
    and "quiet_db (db_of s)" and "sint (req_amount r) \<le> money_cap"
  shows "quiet_db (db_of s')"
proof (cases "res_outcome res = Accepted")
  case True
  from place_accept [OF assms(1-3) this] assms(6) show ?thesis using quiet_bid [OF assms(5)] by metis
next
  case False
  from place_reject [OF assms(1-3) this] assms(4,5) show ?thesis by auto
qed

end

lemma quiet_room:
  assumes "quiet_db d" and a: "find_auction d x = Some a" and "length (db_bids d) < 2 ^ 61"
  shows "sint (a_highest a) + sint (a_min_inc a) < 2 ^ 63" and "sint (a_version a) < 2 ^ 61" and "a_status a = ColOpen"
    and "sint (min_next_bid (state_of_row a)) = sint (a_highest a) + sint (a_min_inc a)"
proof -
  have q: "db_inv d" "capped d" using assms(1) by (simp_all add: quiet_db_def)
  show "sint (a_highest a) + sint (a_min_inc a) < 2 ^ 63"
    using capped_row [OF q(2) a] by (simp add: money_cap_def)
  have "length (bids_of d x) \<le> length (db_bids d)" by (simp add: bids_of_def)
  then show "sint (a_version a) < 2 ^ 61"
    using version_is_length [OF q(1) a] assms(3) by simp
  show "a_status a = ColOpen"
    using assms(1) find_auction_mem [OF a] by (auto simp: quiet_db_def list_all_iff)
  show "sint (min_next_bid (state_of_row a)) = sint (a_highest a) + sint (a_min_inc a)"
    using sint_min_next_capped [OF db_invD(1) [OF q(1)] q(2) a] .
qed

definition opt_steady :: "time \<Rightarrow> uuid \<Rightarrow> opt_env \<Rightarrow> bool" where
  "opt_steady t i e \<longleftrightarrow> oe_fault1 e = NoFault \<and> oe_fault2 e = NoFault \<and> oe_world e = (\<lambda>d. d) \<and>
     oe_now1 e = t \<and> oe_now2 e = t \<and> oe_bid_id e = i"

lemma opt_decides:
  assumes q: "quiet_db d" and st: "opt_steady t i e" and r: "plain_request r v d" and i: "i \<notin> b_id ` set (db_bids d)"
  shows "\<exists>res d'. optimistic_PlaceBid e r d = (Inr res, d') \<and> quiet_db d' \<and>
    res_outcome res \<in> allowed (find_auction d (req_auction r)) t v (req_amount r) \<and>
    (res_outcome res = Accepted \<longrightarrow> res_bid_id res = i)"
proof -
  have inv: "db_inv d" using q by (simp add: quiet_db_def)
  have env: "oe_fault1 e = NoFault" "oe_fault2 e = NoFault" "oe_world e = (\<lambda>d. d)" "oe_now1 e = t" "oe_now2 e = t" "oe_bid_id e = i"
    using st by (simp_all add: opt_steady_def)
  have req: "req_expected r = Some v" "0 <s req_amount r" "sint (req_amount r) \<le> money_cap"
      "\<not> key_taken d (nullif_empty (req_key r))" and len: "length (db_bids d) < 2 ^ 61"
    using r by (simp_all add: plain_request_def)
  have "\<exists>res. fst (optimistic_PlaceBid e r d) = Inr res \<and>
    res_outcome res \<in> allowed (find_auction d (req_auction r)) t v (req_amount r)"
  proof (cases "find_auction d (req_auction r)")
    case None
    then show ?thesis
      using env req by (simp add: optimistic_PlaceBid_def run_stmt_def opt_place_bid_def optimistic_classify_def
        opt_classify_def select_state_def run_select_state)
  next
    case (Some a)
    note room = quiet_room [OF q Some len]
    show ?thesis
    proof (cases "t < a_ends_at a")
      case True
      have calm: "opt_calm e r d"
        using env req i Some room True by (auto simp: opt_calm_def)
      from optimistic_decision_table [OF inv calm env(3,2) _ Some req(1) room(1)] True env(5)
      obtain res where "fst (optimistic_PlaceBid e r d) = Inr res" "res_outcome res =
          (if a_version a \<noteq> v then Conflict
           else if sint (a_highest a) + sint (a_min_inc a) \<le> sint (req_amount r) then Accepted else TooLow)"
        by auto
      then show ?thesis
        using Some True room(3,4) by (auto simp: is_closed_row sless_iff_sint split: if_splits)
    next
      case False
      then show ?thesis
        using env req Some room(3)
        by (simp add: optimistic_PlaceBid_def run_stmt_def opt_place_bid_def optimistic_classify_def
          opt_classify_def select_state_def run_select_state classify_outcome_def is_closed_row)
    qed
  qed
  then obtain res d' where p: "optimistic_PlaceBid e r d = (Inr res, d')"
    and oc: "res_outcome res \<in> allowed (find_auction d (req_auction r)) t v (req_amount r)"
    by (metis prod.collapse)
  have good: "opt_good e r d" by (simp add: opt_good_def env(3))
  have "quiet_db d'" using optimistic.place_quiet [OF inv good p env(3)] q req(3) by simp
  moreover have "res_bid_id res = i" if "res_outcome res = Accepted"
    using p
  proof (cases rule: optimistic_PlaceBid_cases)
    case (classified expected)
    from optimistic_classify_InrD [OF classified(3)] that show ?thesis
      by (auto simp: classify_outcome_def split: if_splits)
  qed (use that env(6) in \<open>auto\<close>)
  ultimately show ?thesis using p oc by blast
qed

lemma quiet_inv: "quiet_db d \<Longrightarrow> db_inv d \<and> capped d"
  by (simp add: quiet_db_def)

lemma opt_steady_world: "opt_steady t i e \<Longrightarrow> oe_world e = (\<lambda>d. d)"
  by (simp add: opt_steady_def)

interpretation opt_suite: conforming_engine optimistic_PlaceBid "\<lambda>d. d" db_inv opt_good oe_world "\<lambda>d s. d" quiet_db opt_steady
  by unfold_locales (auto simp: opt_good_def dest: quiet_inv opt_steady_world intro: opt_decides)

definition pess_steady :: "time \<Rightarrow> uuid \<Rightarrow> pess_env \<Rightarrow> bool" where
  "pess_steady t i e \<longleftrightarrow> pe_fault_begin e = NoFault \<and> pe_fault_lock e = NoFault \<and> pe_fault_write e = NoFault \<and>
     pe_fault_commit e = NoFault \<and> pe_tx_now e = t \<and> pe_lock_now e = t \<and> pe_bid_id e = i"

lemma pess_decides:
  assumes q: "quiet_db (ps_db s)" and st: "pess_steady t i e" and r: "plain_request r v (ps_db s)"
    and i: "i \<notin> b_id ` set (db_bids (ps_db s))"
  shows "\<exists>res s'. pessimistic_PlaceBid e r s = (Inr res, s') \<and> quiet_db (ps_db s') \<and>
    res_outcome res \<in> allowed (find_auction (ps_db s) (req_auction r)) t v (req_amount r) \<and>
    (res_outcome res = Accepted \<longrightarrow> res_bid_id res = i)"
proof -
  let ?d = "ps_db s"
  have inv: "db_inv ?d" and cap: "capped ?d" using q by (simp_all add: quiet_db_def)
  have env: "pe_fault_begin e = NoFault" "pe_fault_lock e = NoFault" "pe_fault_write e = NoFault"
      "pe_fault_commit e = NoFault" "pe_tx_now e = t" "pe_lock_now e = t" "pe_bid_id e = i"
    using st by (simp_all add: pess_steady_def)
  have req: "req_expected r = Some v" "0 <s req_amount r" "sint (req_amount r) \<le> money_cap"
      "\<not> key_taken ?d (nullif_empty (req_key r))" and len: "length (db_bids ?d) < 2 ^ 61"
    using r by (simp_all add: plain_request_def)
  have "\<exists>res s'. pessimistic_PlaceBid e r s = (Inr res, s') \<and>
    res_outcome res \<in> allowed (find_auction ?d (req_auction r)) t v (req_amount r) \<and>
    (res_outcome res = Accepted \<longrightarrow> res_bid_id res = i)"
  proof (cases "find_auction ?d (req_auction r)")
    case None
    then show ?thesis
      using env by (simp add: pessimistic_PlaceBid_def pess_lock_def lock_auction_def run_select_state)
  next
    case (Some a)
    note room = quiet_room [OF q Some len]
    show ?thesis
    proof (cases "pess_decide (state_of_row a) t (req_amount r)")
      case None
      then have open': "t < a_ends_at a" "\<not> req_amount r <s min_next_bid (state_of_row a)"
        using pess_decide_None [OF db_invD(1) [OF inv] cap Some, of t "req_amount r"] room(4) by (auto simp: sless_iff_sint)
      have "pess_calm e r s" using env req i Some room open' by (auto simp: pess_calm_def)
      from pess_write_lands [OF inv Some this] None show ?thesis
        using pess_quiet [OF env(1,2) Some] env open' Some room(3) by (simp add: is_closed_row)
    next
      case (Some oc)
      note oc = this
      obtain b where b: "find_auction ?d (req_auction r) = Some b" "b = a" using \<open>find_auction ?d (req_auction r) = Some a\<close> by simp
      show ?thesis
        using pess_quiet [OF env(1,2), of s r a] b oc env room(3)
        by (auto simp: pess_decide_def is_closed_row split: if_splits)
    qed
  qed
  then obtain res s' where p: "pessimistic_PlaceBid e r s = (Inr res, s')"
    and oc: "res_outcome res \<in> allowed (find_auction ?d (req_auction r)) t v (req_amount r)"
      "res_outcome res = Accepted \<longrightarrow> res_bid_id res = i"
    by blast
  have ok: "pess_ok s" "pess_good e r s" using inv cap env req(3) by (simp_all add: pess_ok_def pess_good_def)
  have "quiet_db (ps_db s')" using pessimistic.place_quiet [OF ok p] q req(3) by simp
  then show ?thesis using p oc by blast
qed

interpretation pess_suite: conforming_engine pessimistic_PlaceBid ps_db pess_ok pess_good "\<lambda>e d. d"
  "\<lambda>d s. s\<lparr>ps_db := d\<rparr>" "\<lambda>s. quiet_db (ps_db s)" pess_steady
proof unfold_locales
  show "pess_steady t i e \<Longrightarrow> plain_request r v (ps_db s) \<Longrightarrow> pess_good e r s" for t i e r v s
    by (simp add: pess_steady_def plain_request_def pess_good_def)
qed (auto simp: pess_ok_def dest: quiet_inv intro: pess_decides)


definition shard_steady :: "time \<Rightarrow> uuid \<Rightarrow> shard_env \<Rightarrow> bool" where
  "shard_steady t i e \<longleftrightarrow> \<not> se_cancelled e \<and> co_fault (se_commit e) = NoFault \<and>
     (let de = se_decide e in de_fault de = NoFault \<and> de_before de = t \<and> de_after de = t \<and> de_db_now de = t \<and>
        de_now de = t \<and> de_created_now de = t \<and> de_bid_id de = i)"

text \<open>What a goroutine remembers on the bench: open auctions, and no offset between the clocks.\<close>

definition level_mem :: "(uuid \<Rightarrow> mem_auction option) \<Rightarrow> bool" where
  "level_mem mem \<longleftrightarrow> (\<forall>x m. mem x = Some m \<longrightarrow> ma_skew m = 0 \<and> st_status (ma_state m) = StatusOpen)"

definition shard_fit :: "shard_engine \<Rightarrow> bool" where
  "shard_fit s \<longleftrightarrow> shard_ok s \<and> quiet_db (en_db s) \<and> (\<forall>i. level_mem (en_mem s i))"

lemma level_mem_update:
  "level_mem mem \<Longrightarrow> ma_skew m = 0 \<Longrightarrow> st_status (ma_state m) = StatusOpen \<Longrightarrow> level_mem (mem(x \<mapsto> m))"
  by (simp add: level_mem_def)

lemma mem_row: "shard_ok s \<Longrightarrow> en_mem s k x = Some m \<Longrightarrow> \<exists>a. find_auction (en_db s) x = Some a \<and> agrees m a"
  unfolding shard_ok_def coherent_def by blast

text \<open>The lookup, from memory or by hydrating.\<close>

lemma level_lookup:
  assumes fit: "shard_fit s" and st: "shard_steady t i e" and a: "find_auction (en_db s) (req_auction r) = Some a"
  obtains m s1 where "sh_state_of (se_decide e) (command_of e r) (shard_of s k) = (Some m, s1)" and "ma_skew m = 0"
    and "st_status (ma_state m) = StatusOpen" and "agrees m a" and "ss_replies s1 = []" and "ss_db s1 = en_db s"
    and "level_mem (ss_auctions s1)"
proof (cases "en_mem s k (req_auction r)")
  case None
  let ?m = "\<lparr>ma_state = state_of_row a, ma_bidder = 0, ma_skew = 0\<rparr>"
  have "a_status a = ColOpen"
    using fit find_auction_mem [OF a] by (auto simp: shard_fit_def quiet_db_def list_all_iff)
  then have m: "st_status (ma_state ?m) = StatusOpen" "agrees ?m a" by (simp_all add: agrees_def)
  have "hydrate (se_decide e) (req_auction r) (en_db s) = Inr ?m"
    using st a by (simp add: hydrate_def hydrateQuery_def run_select_state shard_steady_def Let_def)
  then have "sh_state_of (se_decide e) (command_of e r) (shard_of s k) =
      (Some ?m, (shard_of s k)\<lparr>ss_auctions := (en_mem s k)(req_auction r \<mapsto> ?m)\<rparr>)"
    using None by (simp add: sh_state_of_def Let_def)
  from that [OF this] m show thesis
    using fit by (simp add: shard_fit_def level_mem_def)
next
  case (Some m)
  have "agrees m a" using mem_row [OF _ Some] fit a by (auto simp: shard_fit_def)
  moreover have "ma_skew m = 0" "st_status (ma_state m) = StatusOpen"
    using fit Some by (auto simp: shard_fit_def level_mem_def)
  ultimately show thesis
    using that [of m "shard_of s k"] Some fit by (simp add: sh_state_of_def Let_def shard_fit_def)
qed

lemma level_run:
  assumes fit: "shard_fit s" and st: "shard_steady t i e"
  shows "level_mem (en_mem (snd (shard_PlaceBid e r s)) k)"
proof -
  let ?k = "shardFor (req_auction r) numShards" and ?c = "command_of e r"
  obtain q s2 where d: "sh_decide (se_decide e) ?c (shard_of s ?k) = (q, s2)" by fastforce
  have mem: "level_mem (en_mem s j)" for j using fit by (simp add: shard_fit_def)
  have decided: "level_mem (ss_auctions s2)"
  proof (cases "find_auction (en_db s) (req_auction r)")
    case None
    then have "en_mem s ?k (req_auction r) = None"
      using fit mem_row [of s ?k "req_auction r"] by (cases "en_mem s ?k (req_auction r)") (auto simp: shard_fit_def)
    then show ?thesis
      using None d mem [of ?k]
      by (auto simp: sh_decide_def sh_state_of_def Let_def hydrate_def hydrateQuery_def run_select_state
          split: fault.splits)
  next
    case (Some a)
    from level_lookup [OF fit st Some, of ?k] obtain m s1
      where l: "sh_state_of (se_decide e) ?c (shard_of s ?k) = (Some m, s1)" "ma_skew m = 0"
        "st_status (ma_state m) = StatusOpen" "level_mem (ss_auctions s1)" by blast
    then show ?thesis
      using d by (auto simp: sh_decide_def Let_def level_mem_update split: if_splits)
  qed
  have "level_mem (ss_auctions (sh_run (\<lambda>_. se_commit e) [Arrive (se_decide e) ?c False] (shard_of s ?k)))"
    using decided by (auto simp: sh_run_single d sh_commit_eq Let_def level_mem_def split: option.split prod.split sum.split)
  then show ?thesis using mem by (simp add: shard_PlaceBid_def Let_def)
qed

lemma shard_decides:
  assumes fit: "shard_fit s" and st: "shard_steady t i e" and r: "plain_request r v (en_db s)"
    and i: "i \<notin> b_id ` set (db_bids (en_db s))"
  shows "\<exists>res s'. shard_PlaceBid e r s = (Inr res, s') \<and> shard_fit s' \<and>
    res_outcome res \<in> allowed (find_auction (en_db s) (req_auction r)) t v (req_amount r) \<and>
    (res_outcome res = Accepted \<longrightarrow> res_bid_id res = i)"
proof -
  let ?d = "en_db s" and ?k = "shardFor (req_auction r) numShards" and ?c = "command_of e r"
  have q: "quiet_db ?d" and ok: "shard_ok s" using fit by (simp_all add: shard_fit_def)
  have env: "\<not> se_cancelled e" "co_fault (se_commit e) = NoFault" "de_fault (se_decide e) = NoFault"
      "de_now (se_decide e) = t" "de_created_now (se_decide e) = t" "de_bid_id (se_decide e) = i"
    using st by (simp_all add: shard_steady_def Let_def)
  have req: "req_expected r = Some v" "0 <s req_amount r" "sint (req_amount r) \<le> money_cap"
      "\<not> key_taken ?d (nullif_empty (req_key r))" and len: "length (db_bids ?d) < 2 ^ 61"
    using r by (simp_all add: plain_request_def)
  have good: "shard_good e r s" using env req len by (simp add: shard_good_def decide_ok_def)
  have "\<exists>res s'. shard_PlaceBid e r s = (Inr res, s') \<and>
    res_outcome res \<in> allowed (find_auction ?d (req_auction r)) t v (req_amount r) \<and>
    (res_outcome res = Accepted \<longrightarrow> res_bid_id res = i)"
  proof (cases "find_auction ?d (req_auction r)")
    case None
    then have "en_mem s ?k (req_auction r) = None"
      using ok mem_row [of s ?k "req_auction r"] by (cases "en_mem s ?k (req_auction r)") auto
    then show ?thesis
      using None env
      by (simp add: shard_PlaceBid_def Let_def sh_run_single sh_decide_def sh_state_of_def hydrate_def hydrateQuery_def
          run_select_state reply_def)
  next
    case (Some a)
    note room = quiet_room [OF q Some len]
    obtain m s1 where l: "sh_state_of (se_decide e) ?c (shard_of s ?k) = (Some m, s1)" "ma_skew m = 0"
        "st_status (ma_state m) = StatusOpen" "agrees m a" "ss_replies s1 = []"
      by (rule level_lookup [OF fit st Some, of ?k])
    have closed: "is_closed (ma_state m) (ma_now m t) \<longleftrightarrow> is_closed (state_of_row a) t"
      using l(2-4) room(3) by (auto simp: is_closed_def ma_now_def agrees_def)
    have min: "min_next_bid (ma_state m) = min_next_bid (state_of_row a)"
      using l(4) by (simp add: min_next_bid_def agrees_def)
    show ?thesis
    proof (cases "is_closed (state_of_row a) t \<or> req_amount r <s min_next_bid (state_of_row a)")
      case True
      then show ?thesis
        using Some l closed min env
        by (auto simp: shard_PlaceBid_def Let_def sh_run_single sh_decide_def reply_def)
    next
      case False
      have "shard_calm e r s" using env req i l(1) closed False by (auto simp: shard_calm_def)
      from shard_PlaceBid_lands [OF ok _ this Some] len False room(4) obtain res s' where
        p: "shard_PlaceBid e r s = (Inr res, s')" "res_outcome res = Accepted"
        by (auto simp: sless_iff_sint)
      moreover have "res_bid_id res = i"
        using p l(1,5) closed min env False
        by (auto simp: shard_PlaceBid_def sh_run_single sh_decide_def Let_def sh_commit_eq confirmed_def
            split: sum.splits prod.splits)
      ultimately show ?thesis using Some False by auto
    qed
  qed
  then obtain res s' where p: "shard_PlaceBid e r s = (Inr res, s')"
    and oc: "res_outcome res \<in> allowed (find_auction ?d (req_auction r)) t v (req_amount r)"
      "res_outcome res = Accepted \<longrightarrow> res_bid_id res = i"
    by blast
  have "quiet_db (en_db s')" using shard.place_quiet [OF ok good p] q req(3) by simp
  moreover have "level_mem (en_mem s' k)" for k using level_run [OF fit st, of r k] p by simp
  moreover have "shard_ok s'" using shard_PlaceBid_ok(1) [OF ok good] p by simp
  ultimately show ?thesis using p oc by (auto simp: shard_fit_def)
qed

interpretation shard_suite: conforming_engine shard_PlaceBid en_db shard_ok shard_good "\<lambda>e d. d"
  "\<lambda>d s. s\<lparr>en_db := d\<rparr>" shard_fit shard_steady
proof unfold_locales
  show "shard_steady t i e \<Longrightarrow> plain_request r v (en_db s) \<Longrightarrow> shard_good e r s" for t i e r v s
    by (simp add: shard_steady_def plain_request_def shard_good_def decide_ok_def Let_def)
  fix s d assume fit: "shard_fit s" and d: "quiet_db d"
    and find: "\<And>x a. find_auction (en_db s) x = Some a \<Longrightarrow> find_auction d x = Some a"
  have "coherent (en_mem s i) d" for i
    using fit find by (fastforce simp: shard_fit_def shard_ok_def coherent_def)
  then show "shard_fit (s\<lparr>en_db := d\<rparr>)"
    using fit d quiet_inv [OF d] by (simp add: shard_fit_def shard_ok_def)
qed (use shard_decides in \<open>auto simp: shard_fit_def\<close>)


section \<open>The suite passes\<close>

definition suite_calls :: nat where "suite_calls = 10 + workers * attempts"

definition fresh_pess :: pess_state where "fresh_pess = \<lparr>ps_db = empty_db, ps_lock_wait = 0\<rparr>"

definition fresh_engine :: shard_engine where
  "fresh_engine = \<lparr>en_db = empty_db, en_mem = (\<lambda>_ _. None), en_obs = \<lparr>obs_accept = [], obs_lag = [], obs_batch = []\<rparr>\<rparr>"

lemma quiet_empty: "quiet_db empty_db"
  using db_inv_empty by (simp add: quiet_db_def capped_def empty_db_def)

lemma fresh_fit: "quiet_db (ps_db fresh_pess)" "shard_fit fresh_engine"
  using quiet_empty quiet_inv [OF quiet_empty]
  by (simp_all add: fresh_pess_def shard_fit_def fresh_engine_def shard_ok_def coherent_def level_mem_def)


text \<open>One call a nanosecond, ids counted from one, the workers taking turns.\<close>

definition sample_bench ::
  "('env \<Rightarrow> bid_request \<Rightarrow> 's \<Rightarrow> response \<times> 's) \<Rightarrow> ('s \<Rightarrow> db) \<Rightarrow> (db \<Rightarrow> 's \<Rightarrow> 's) \<Rightarrow> (nat \<Rightarrow> 'env) \<Rightarrow> ('env, 's) bench" where
  "sample_bench place db_of put_db env =
     \<lparr>be_place = place, be_db = db_of, be_put = put_db, be_env = env, be_user = (\<lambda>_. 7), be_now = int, be_name = ''t''\<rparr>"

definition counted_id :: "nat \<Rightarrow> uuid" where "counted_id n = of_nat (Suc n)"

definition taking_turns :: "nat list" where "taking_turns = concat (replicate attempts [0..<workers])"

lemma taking_turns_interleave: "interleaving taking_turns"
proof -
  have "count_list (concat (replicate k ys)) i = k * count_list ys i" for k i and ys :: "nat list"
    by (induction k) (simp_all add: count_list_append)
  moreover have "list_all (\<lambda>i. count_list [0..<workers] i = 1) [0..<workers]" by code_simp
  ultimately show ?thesis
    by (simp add: interleaving_def taking_turns_def length_concat sum_list_replicate list_all_iff workers_def)
qed

lemma counted_id_inj: "n \<le> 1000 \<Longrightarrow> inj_on counted_id {..<n}" "n < 1000 \<Longrightarrow> counted_id n \<noteq> 0"
proof -
  have u: "unat (counted_id m) = Suc m" if "m < 1000" for m
    using that by (simp add: counted_id_def unat_of_nat del: of_nat_Suc)
  show "inj_on counted_id {..<n}" if "n \<le> 1000"
  proof (rule inj_onI)
    fix i j assume "i \<in> {..<n}" "j \<in> {..<n}" "counted_id i = counted_id j"
    then show "i = j" using that u [of i] u [of j] by (metis Suc_inject lessThan_iff order_less_le_trans)
  qed
  show "counted_id n \<noteq> 0" if "n < 1000" using u [OF that] by auto
qed

lemma sample_bench_laid:
  assumes "\<And>n. steady (int n) (counted_id n) (env n)"
  shows "laid_out place db_of put_db steady (sample_bench place db_of put_db env) counted_id 0 suite_calls"
  using assms counted_id_inj
  by (simp add: laid_out_def sample_bench_def suite_calls_def workers_def attempts_def minute_def list_all_iff)


end
