(* ===== verification/Test_Support.thy ===== *)
theory Test_Support
  imports Boot Go_Text
begin

text \<open>
  The helpers every test that needs a service starts from: \<^verbatim>\<open>internal/testsupport/postgres.go\<close> and
  \<^verbatim>\<open>redis.go\<close>. A container is what it holds for the tests: the tables of migration 001, if they are
  there, and the rows of \<^verbatim>\<open>schema_migrations\<close>, if that table is. The scripts are those of
  \<^verbatim>\<open>migrations/\<close>, each one implicit transaction.

  Parameters: what the container runtime and the drivers answer, and the fate of each statement.
\<close>

section \<open>The statements (postgres.go, migrations)\<close>

record container =
  ct_tables :: "db option"
  ct_marker :: "(i64 \<times> bool) list option"

definition fresh_container :: container where
  "fresh_container = \<lparr>ct_tables = None, ct_marker = None\<rparr>"

datatype exec_error = DuplicateObject | UndefinedTable | DuplicateKey | Lost

type_synonym script = "container \<Rightarrow> exec_error + container"

definition exec :: "fault \<Rightarrow> script \<Rightarrow> container \<Rightarrow> exec_error option \<times> container" where
  "exec f sql c =
     (case f of
        FaultBefore \<Rightarrow> (Some Lost, c)
      | NoFault \<Rightarrow> (case sql c of Inl e \<Rightarrow> (Some e, c) | Inr c' \<Rightarrow> (None, c'))
      | FaultAfter \<Rightarrow> (case sql c of Inl e \<Rightarrow> (Some e, c) | Inr c' \<Rightarrow> (Some Lost, c')))"

definition init_up :: script where
  "init_up c = (case ct_tables c of Some d \<Rightarrow> Inl DuplicateObject | None \<Rightarrow> Inr (c\<lparr>ct_tables := Some empty_db\<rparr>))"

definition init_down :: script where
  "init_down c = Inr (c\<lparr>ct_tables := None\<rparr>)"

definition create_marker :: script where
  "create_marker c = Inr (case ct_marker c of None \<Rightarrow> c\<lparr>ct_marker := Some []\<rparr> | Some rows \<Rightarrow> c)"

definition delete_marker :: script where
  "delete_marker c = (case ct_marker c of None \<Rightarrow> Inl UndefinedTable | Some rows \<Rightarrow> Inr (c\<lparr>ct_marker := Some []\<rparr>))"

definition insert_marker :: "i64 \<Rightarrow> bool \<Rightarrow> script" where
  "insert_marker version dirty c =
     (case ct_marker c of
        None \<Rightarrow> Inl UndefinedTable
      | Some rows \<Rightarrow>
          if version \<in> fst ` set rows then Inl DuplicateKey else Inr (c\<lparr>ct_marker := Some (rows @ [(version, dirty)])\<rparr>))"

section \<open>Migrating (postgres.go)\<close>

fun exec_all :: "(fault \<times> script) list \<Rightarrow> container \<Rightarrow> exec_error option \<times> container" where
  "exec_all [] c = (None, c)"
| "exec_all ((f, sql) # rest) c =
     (case exec f sql c of (Some e, c') \<Rightarrow> (Some e, c') | (None, c') \<Rightarrow> exec_all rest c')"

definition RecordVersion :: "fault \<times> fault \<times> fault \<Rightarrow> i64 \<Rightarrow> bool \<Rightarrow> container \<Rightarrow> exec_error option \<times> container" where
  "RecordVersion fs version dirty =
     (case fs of (f1, f2, f3) \<Rightarrow> exec_all [(f1, create_marker), (f2, delete_marker), (f3, insert_marker version dirty)])"

text \<open>
  \<open>file\<close>: reading the migration beside the source of the package, its error if there is one. The
  errors are told apart as their texts are: \<open>MigrateDown\<close> returns the one of its own statement bare.
\<close>

datatype migrate_error = NotRead string string | NotApplied string exec_error | NotRecorded exec_error | Bare exec_error

fun migrate_text :: "(exec_error \<Rightarrow> string) \<Rightarrow> migrate_error \<Rightarrow> string" where
  "migrate_text driver (NotRead name e) = ''read '' @ name @ '': '' @ e"
| "migrate_text driver (NotApplied name e) = ''apply '' @ name @ '': '' @ driver e"
| "migrate_text driver (NotRecorded e) = ''record schema version: '' @ driver e"
| "migrate_text driver (Bare e) = driver e"

definition apply_script :: "string \<Rightarrow> string option \<Rightarrow> fault \<Rightarrow> script \<Rightarrow> container \<Rightarrow> migrate_error option \<times> container" where
  "apply_script name file f sql c =
     (case file of
        Some e \<Rightarrow> (Some (NotRead name e), c)
      | None \<Rightarrow> (case exec f sql c of (e, c') \<Rightarrow> (map_option (NotApplied name) e, c')))"

definition Migrate :: "string option \<Rightarrow> fault \<Rightarrow> fault \<times> fault \<times> fault \<Rightarrow> container \<Rightarrow> migrate_error option \<times> container" where
  "Migrate file f fs c =
     (case apply_script ''000001_init.up.sql'' file f init_up c of
        (Some e, c') \<Rightarrow> (Some e, c')
      | (None, c') \<Rightarrow>
          (case RecordVersion fs ExpectedSchemaVersion False c' of (e, c'') \<Rightarrow> (map_option NotRecorded e, c'')))"

definition MigrateDown :: "string option \<Rightarrow> fault \<Rightarrow> fault \<Rightarrow> container \<Rightarrow> migrate_error option \<times> container" where
  "MigrateDown file f g c =
     (case apply_script ''000001_init.down.sql'' file f init_down c of
        (Some e, c') \<Rightarrow> (Some e, c')
      | (None, c') \<Rightarrow> (case exec g delete_marker c' of (e, c'') \<Rightarrow> (map_option Bare e, c'')))"

text \<open>What the query of \<open>CheckSchema\<close> sees of a container that answers.\<close>

definition marker_of :: "container \<Rightarrow> migrations" where
  "marker_of c =
     (case ct_marker c of None \<Rightarrow> NoTable | Some [] \<Rightarrow> NoVersion | Some ((version, dirty) # rows) \<Rightarrow> Version version dirty)"

lemmas exec_defs = exec_def init_up_def init_down_def create_marker_def delete_marker_def insert_marker_def

lemma exec_all_clean: "fst (exec_all xs c) = None \<Longrightarrow> \<forall>(f, sql) \<in> set xs. f = NoFault"
  by (induction xs c rule: exec_all.induct) (auto simp: exec_def split: prod.splits option.splits fault.splits sum.splits)

text \<open>
  \<open>RecordVersion\<close> replaces whatever was recorded, also where there was no table; and when it fails,
  what is recorded is what was there, nothing, or the version it was asked to write.
\<close>

lemma RecordVersion_records:
  assumes "RecordVersion fs version dirty c = (e, c')"
  shows "ct_tables c' = ct_tables c \<and> (e = None \<longrightarrow> marker_of c' = Version version dirty) \<and>
    marker_of c' \<in> {marker_of c, NoVersion, Version version dirty}"
proof -
  obtain f1 f2 f3 where fs: "fs = (f1, f2, f3)" by (cases fs)
  show ?thesis
    using assms
    by (cases f1; cases f2; cases f3; cases "ct_marker c")
      (auto simp: RecordVersion_def fs exec_defs marker_of_def split: if_splits)
qed

text \<open>
  The tests see what the compose sees. A migration that succeeded leaves the empty tables, which
  keep the ledger's invariant, and a marker the schema guard accepts; and down and up again is the
  same container.
\<close>

lemma Migrate_passes_the_guard:
  assumes "Migrate file f fs c = (None, c')"
  shows "ct_tables c' = Some empty_db \<and> CheckSchema (marker_of c') = None \<and> ct_tables c = None"
proof -
  obtain c1 where up: "apply_script ''000001_init.up.sql'' file f init_up c = (None, c1)"
      and rec: "RecordVersion fs ExpectedSchemaVersion False c1 = (None, c')"
    using assms by (auto simp: Migrate_def split: prod.splits option.splits)
  have "ct_tables c = None \<and> ct_tables c1 = Some empty_db"
    using up by (cases f) (auto simp: apply_script_def exec_def init_up_def split: if_splits option.splits)
  then show ?thesis
    using RecordVersion_records [OF rec] by (simp add: CheckSchema_def ExpectedSchemaVersion_def)
qed

lemma down_and_up_again:
  assumes "Migrate file f fs c = (None, c1)" and "MigrateDown file' g h c1 = (None, c2)"
    and "Migrate file'' f' fs' c2 = (None, c3)"
  shows "CheckSchema (marker_of c2) \<noteq> None \<and> ct_tables c2 = None \<and> ct_tables c3 = ct_tables c1 \<and> marker_of c3 = marker_of c1"
proof -
  note up = Migrate_passes_the_guard [OF assms(1)] and again = Migrate_passes_the_guard [OF assms(3)]
  have "marker_of c2 = NoVersion"
    using assms(2)
    by (cases g; cases h) (auto simp: MigrateDown_def apply_script_def exec_defs marker_of_def split: if_splits option.splits)
  then show ?thesis
    using up again by (simp add: CheckSchema_None)
qed

section \<open>The dump (postgres.go)\<close>

text \<open>
  \<open>DumpSchema\<close> over what running \<^verbatim>\<open>pg_dump -s\<close> in the container gives: an error, or the exit code and
  what reading its output gives. The lines of the random guards are dropped.
\<close>

definition guard_line :: "string \<Rightarrow> bool" where
  "guard_line l \<longleftrightarrow>
     take 10 l = CHR 0x5C # ''restrict '' \<or> take 12 l = CHR 0x5C # ''unrestrict ''"

definition DumpSchema :: "string + nat \<times> (string + string) \<Rightarrow> string + string" where
  "DumpSchema result =
     (case result of
        Inl e \<Rightarrow> Inl e
      | Inr (code, Inl e) \<Rightarrow> Inl e
      | Inr (code, Inr dump) \<Rightarrow>
          if code \<noteq> 0 then Inl (''pg_dump exited '' @ int_text (int code) @ '': '' @ dump)
          else Inr (join newline (filter (\<lambda>l. \<not> guard_line l) (split_at (CHR 0x0A) dump))))"

text \<open>Two dumps that differ in the token alone compare equal.\<close>

lemma split_at_three:
  assumes "CHR 0x0A \<notin> set token"
  shows "split_at (CHR 0x0A) (CHR 0x5C # ''restrict '' @ token @ CHR 0x0A # rest) =
    (CHR 0x5C # ''restrict '' @ token) # split_at (CHR 0x0A) rest"
  using assms split_at_append [of "CHR 0x0A" "CHR 0x5C # ''restrict '' @ token" rest] by simp

lemma dump_ignores_the_token:
  assumes "CHR 0x0A \<notin> set token" and "CHR 0x0A \<notin> set token'"
  shows "DumpSchema (Inr (0, Inr (CHR 0x5C # ''restrict '' @ token @ CHR 0x0A # rest))) =
    DumpSchema (Inr (0, Inr (CHR 0x5C # ''restrict '' @ token' @ CHR 0x0A # rest)))"
  by (simp add: DumpSchema_def split_at_three [OF assms(1), simplified] split_at_three [OF assms(2), simplified] guard_line_def)

section \<open>Starting (postgres.go, redis.go)\<close>

text \<open>
  What the container runtime answers: the container runs, and gives its URL, or an error. \<open>start\<close>
  builds the pool with pgx itself and migrates; \<open>startRedis\<close> goes through \<open>NewRedis\<close>.
\<close>

record runtime =
  rt_run :: "string option"
  rt_url :: "string + string"
  rt_pool :: "string option"
  rt_file :: "string option"
  rt_apply :: fault
  rt_record :: "fault \<times> fault \<times> fault"

datatype start_error = Runtime string | Migration migrate_error

definition start :: "runtime \<Rightarrow> start_error + string \<times> container" where
  "start r =
     (case rt_run r of
        Some e \<Rightarrow> Inl (Runtime e)
      | None \<Rightarrow>
          (case rt_url r of
             Inl e \<Rightarrow> Inl (Runtime e)
           | Inr url \<Rightarrow>
               (case rt_pool r of
                  Some e \<Rightarrow> Inl (Runtime e)
                | None \<Rightarrow>
                    (case Migrate (rt_file r) (rt_apply r) (rt_record r) fresh_container of
                       (Some e, c) \<Rightarrow> Inl (Migration e)
                     | (None, c) \<Rightarrow> Inr (url, c)))))"

definition startRedis :: "drivers \<Rightarrow> runtime \<Rightarrow> string + string \<times> string" where
  "startRedis dr r =
     (case rt_run r of
        Some e \<Rightarrow> Inl e
      | None \<Rightarrow>
          (case rt_url r of
             Inl e \<Rightarrow> Inl e
           | Inr url \<Rightarrow> (case fst (NewRedis dr url) of Inl e \<Rightarrow> Inl e | Inr client \<Rightarrow> Inr (client, url))))"

text \<open>
  \<^verbatim>\<open>sync.Once\<close>: the first call decides for every one after it, an error included, which is a
  \<^verbatim>\<open>t.Fatalf\<close> of each test (\<open>None\<close>). \<open>memo\<close> is the package's result so far.
\<close>

definition once :: "(unit \<Rightarrow> 'e + 'a) \<Rightarrow> ('e + 'a) option \<Rightarrow> 'a option \<times> ('e + 'a) option" where
  "once f memo =
     (let result = (case memo of Some r \<Rightarrow> r | None \<Rightarrow> f ())
      in ((case result of Inl e \<Rightarrow> None | Inr a \<Rightarrow> Some a), Some result))"

definition Start :: "runtime \<Rightarrow> (start_error + string \<times> container) option
    \<Rightarrow> (string \<times> container) option \<times> (start_error + string \<times> container) option" where
  "Start r = once (\<lambda>_. start r)"

definition StartRedis :: "drivers \<Rightarrow> runtime \<Rightarrow> (string + string \<times> string) option
    \<Rightarrow> (string \<times> string) option \<times> (string + string \<times> string) option" where
  "StartRedis dr r = once (\<lambda>_. startRedis dr r)"

fun starts :: "runtime list \<Rightarrow> (start_error + string \<times> container) option \<Rightarrow> (string \<times> container) option list" where
  "starts [] memo = []"
| "starts (r # rs) memo = (case Start r memo of (t, memo') \<Rightarrow> t # starts rs memo')"

lemma starts_memo: "set (starts rs (Some r)) \<subseteq> {case r of Inl e \<Rightarrow> None | Inr a \<Rightarrow> Some a}"
  by (induction rs) (auto simp: Start_def once_def Let_def)

text \<open>
  Every test of a package gets the same container, booted once: migrated, empty, and with a marker
  the schema guard accepts; or every one of them is stopped.
\<close>

theorem tests_share_one_migrated_container:
  "starts (r # rs) None = replicate (Suc (length rs)) None \<or>
   (\<exists>url c. starts (r # rs) None = replicate (Suc (length rs)) (Some (url, c)) \<and> ct_tables c = Some empty_db \<and>
      db_inv empty_db \<and> CheckSchema (marker_of c) = None)"
proof -
  define out where "out = (case start r of Inl e \<Rightarrow> None | Inr a \<Rightarrow> Some a)"
  have len: "length (starts rs memo) = length rs" for memo by (induction rs arbitrary: memo) (auto split: prod.split)
  have "starts rs (Some (start r)) = replicate (length rs) out"
    using starts_memo [of rs "start r"] len [of "Some (start r)"] unfolding out_def by (intro replicate_eqI) auto
  then have all: "starts (r # rs) None = replicate (Suc (length rs)) out" by (simp add: Start_def once_def out_def Let_def)
  show ?thesis
  proof (cases "start r")
    case (Inr a)
    obtain url c where a: "a = (url, c)" by (cases a)
    have "Migrate (rt_file r) (rt_apply r) (rt_record r) fresh_container = (None, c)"
      using Inr by (auto simp: start_def a split: option.splits sum.splits prod.splits)
    with all Migrate_passes_the_guard [OF this] show ?thesis by (simp add: out_def Inr a db_inv_empty)
  qed (use all in \<open>simp add: out_def\<close>)
qed

end
