(* ===== verification/Spec2Isabelle.thy ===== *)
theory Spec2Isabelle
  imports Router Closing Checker_Report Publication Boot Metrics Worker Conformance Inbox Test_Support
begin

text \<open>
  bid-storm runs English auctions under three interchangeable bidding engines (optimistic,
  pessimistic, single writer) over one PostgreSQL schema, closes them through a Redis Stream, and
  measures the three against each other with a checker and a matrix of benchmark cells. This
  library is the code of \<^verbatim>\<open>src/internal\<close> and \<^verbatim>\<open>src/cmd\<close> as HOL functions and step relations, with the
  theorems that make it correct, and those that say where it is not.

  \<^bold>\<open>How the program hangs together.\<close> A process (\<^verbatim>\<open>cmd/auctiond\<close>) reads its configuration, checks the
  schema, builds one engine and serves bids: router, identity, idempotency, handler, decorator,
  engine, database. A second process (\<^verbatim>\<open>cmd/closerd\<close>) sweeps the expired auctions into the stream and
  consumes them, stamping the rows. \<^verbatim>\<open>cmd/seed\<close> fills a cell before the run, \<^verbatim>\<open>cmd/checker\<close> judges
  the database of a cell after it, \<^verbatim>\<open>cmd/matrix\<close> publishes the cells or refuses to.

  \<^bold>\<open>The theories\<close>, in the order they build on each other:

  \<^item> \<^theory_text>\<open>Prelude\<close>: machine types (\<open>uuid\<close>, \<open>i64\<close>, \<open>time\<close>), the fate of a round trip (\<open>fault\<close>), lemmas
    on words, lists and options, and the collections the component proofs name.
  \<^item> \<^theory_text>\<open>Go_Text\<close>: strings as bytes, the verbs of \<^verbatim>\<open>fmt\<close> the tools print with and how to read them back,
    padding in runes, and the order in which Go ranges over a map.
  \<^item> \<^theory_text>\<open>Bid\<close>: \<^verbatim>\<open>internal/bid/engine.go\<close> and \<^verbatim>\<open>outcome.go\<close>. Requests, results, the price rule
    (\<open>min_next_bid\<close>, wrapping as Go's \<open>+\<close>) and the closing rule (\<open>is_closed\<close>).
  \<^item> \<^theory_text>\<open>Database\<close>: the two tables of \<^verbatim>\<open>migrations/\<close> with their constraints, a statement as a function
    of the database, the three ways of sending one, and the invariant \<open>db_inv\<close>: schema, replayable
    history, timeliness, coherent closing.
  \<^item> \<^theory_text>\<open>Ledger\<close>: the abstract specification. \<open>evolves\<close> is any number of steps that record the next bid of
    an auction, stamp an expired one or create one; \<open>db_inv\<close> is kept along it.
  \<^item> \<^theory_text>\<open>Contract\<close>: the Go interface \<^verbatim>\<open>BidEngine\<close> as the locale \<open>bid_engine\<close> (extended by
    \<open>responsive_engine\<close>), with what any engine that keeps it satisfies over a run of calls.
  \<^item> \<^theory_text>\<open>Optimistic\<close>, \<^theory_text>\<open>Pessimistic\<close>: \<^verbatim>\<open>internal/bid/optimistic\<close> and \<^verbatim>\<open>pessimistic\<close>, each as the function of
    one call and as a step relation of any number of requests (\<open>opt_step\<close> at the grain of a
    statement, \<open>pess_step\<close> with an explicit lock table).
  \<^item> \<^theory_text>\<open>Shard\<close>, \<^theory_text>\<open>Shard_Journal\<close>, \<^theory_text>\<open>Inbox\<close>: \<^verbatim>\<open>internal/bid/shard\<close>. First one goroutine over a schedule of
    its inbox (\<open>sh_run\<close>), then its memory against the ledger (\<open>journal\<close>, \<open>coherent\<close>), then the engine:
    eight goroutines, their bounded inboxes and any number of callers as one step relation.
  \<^item> \<^theory_text>\<open>Conformance\<close>: \<^verbatim>\<open>internal/bid/enginetest/conformance.go\<close>, each case an executable test.
  \<^item> \<^theory_text>\<open>Idem\<close>: \<^verbatim>\<open>internal/idem\<close>, the claim script, the finishing pipeline, the middleware, and their
    interleaving at the grain of Redis commands (\<open>idem_step\<close>).
  \<^item> \<^theory_text>\<open>Service\<close>: \<^verbatim>\<open>internal/store\<close>, \<^verbatim>\<open>internal/httpapi\<close>, \<^verbatim>\<open>internal/app/idem.go\<close> and the decorator of
    \<^verbatim>\<open>internal/metrics/bid.go\<close>, composed into the bid route.
  \<^item> \<^theory_text>\<open>Router\<close>: \<^verbatim>\<open>internal/httpapi/router.go\<close>, the route table, and any sequence of requests on any engine.
  \<^item> \<^theory_text>\<open>Transport\<close>: \<^verbatim>\<open>internal/stream\<close> over the documented behaviour of the Redis commands it sends.
  \<^item> \<^theory_text>\<open>Closing\<close>: \<^verbatim>\<open>internal/closing\<close>, the materialiser, the sweep and the handler, and the whole closing
    path as the step relation \<open>closing_step\<close>.
  \<^item> \<^theory_text>\<open>Worker\<close>: \<^verbatim>\<open>Consumer.Run\<close> and \<^verbatim>\<open>Expirer.Run\<close>, loops without a bound, as partial functions; the
    worker's name in the group.
  \<^item> \<^theory_text>\<open>Boot\<close>: \<^verbatim>\<open>internal/config\<close>, \<^verbatim>\<open>internal/db\<close> (the schema guard, the pool, the Redis client),
    \<^verbatim>\<open>internal/app/engine.go\<close>, \<^verbatim>\<open>cmd/auctiond\<close> and \<^verbatim>\<open>cmd/closerd\<close> from \<^verbatim>\<open>main\<close> to the exit code, \<^verbatim>\<open>cmd/seed\<close>.
  \<^item> \<^theory_text>\<open>Test_Support\<close>: \<^verbatim>\<open>internal/testsupport\<close>, the migrated container the tests share.
  \<^item> \<^theory_text>\<open>Metrics\<close>: \<^verbatim>\<open>internal/metrics\<close>, the series of both processes, their registration and collectors.
  \<^item> \<^theory_text>\<open>Checker\<close>, \<^theory_text>\<open>Checker_Report\<close>: \<^verbatim>\<open>cmd/checker\<close>, its verdicts and the report it prints.
  \<^item> \<^theory_text>\<open>Matrix\<close>, \<^theory_text>\<open>Publication\<close>: \<^verbatim>\<open>cmd/matrix\<close>, what it decides and the document it publishes.
  \<^item> This theory: what spans the two tools and the engines' invariant.

  \<^bold>\<open>Reading a definition.\<close> A definition carries the Go name, prefixed where HOL has the name already;
  a struct is a record whose fields carry a prefix of the struct. Whatever a function takes from
  outside (clocks, fresh ids, the fate of each round trip) is an environment record passed to it, so
  a theorem that quantifies over it speaks of every clock and every failure. State that the code
  mutates is passed and returned. An error is \<open>Inl\<close>, a panic or \<^verbatim>\<open>t.Fatalf\<close> is \<open>None\<close>. SQL is a function
  of the tables, read off the statement text; a statement that raised changes nothing, and a lost
  answer (\<open>fault\<close>) may follow an effect that happened.

  \<^bold>\<open>What the lemmas show.\<close>

  \<^item> Refinement: every engine, in every interleaving, only takes ledger steps, hence keeps \<open>db_inv\<close>.
    For the single writer this needs one bid per auction in a batch, or a PostgreSQL that takes the
    last of several matches; the failing cases are theorems of their own.
  \<^item> Durability and delivery: an answered 201 is in the table, every command is answered once, a
    replayed answer is the first answer byte for byte, an overdue auction ends up stamped, and is
    stamped at most once.
  \<^item> Equivalence: the checker's queries decide \<open>db_inv\<close>, the nine refusals of the matrix decide the
    coherence of its cells, two runs of the matrix report the same whatever the map orders, the three
    engines agree on the suite.
  \<^item> Texts: the checker's report says what its exit code says, and the published table reads back to the
    measures within half of the last printed place.
  \<^item> Errors and bounds: which failure each step turns into which answer or exit code, where an
    \<^verbatim>\<open>int64\<close> wraps, where an \<^verbatim>\<open>int32\<close> truncates.
  \<^item> Composition: a published matrix, walked back through the files of its cells and the runs of the
    checker, certifies that every database keeps the invariant the engines are proved to keep.

  \<^bold>\<open>Interfaces.\<close> \<open>bid_engine\<close>, \<open>responsive_engine\<close> and \<open>conforming_engine\<close> are interpreted on the three
  engines; \<open>shard_invariant\<close> (what a property of the goroutine must survive) on five properties;
  \<open>http_engine\<close> (an engine whose database the other routes write too) on the three engines;
  \<open>auction_store\<close> on the store; \<open>expiry_handler\<close> and \<open>answering_handler\<close> on the worker's handler;
  \<open>publisher\<close> on the Redis producer.

  \<^bold>\<open>Bounds and fuel.\<close> Prices and increments stay below \<open>money_cap = 2 ^ 62\<close> where a theorem says so, so
  that their sum fits an \<^verbatim>\<open>int64\<close>; sequence numbers below \<open>2 ^ 63\<close>, bounded by the bids on record plus
  the steps to come. The suite's cases make at most 1000 calls. No function takes fuel: the loops
  of the code are structural recursions over a schedule or an input, recursions with a measure
  (\<open>accumulate\<close>, \<open>sh_run\<close>), or, for the two \<^verbatim>\<open>Run\<close>, partial functions whose return is a theorem.

  \<^bold>\<open>Parameters.\<close> Code that is not in the repository is an argument: \<open>uuid_parse\<close>, the JSON binder and
  encoder, the error texts of the drivers, of the file system and of \<^verbatim>\<open>encoding/json\<close>, what pgx and
  go-redis answer to a URL, PostgreSQL's text of a \<^verbatim>\<open>uuid\<close> and a \<^verbatim>\<open>timestamptz\<close>, the verb \<^verbatim>\<open>%g\<close>, the order of Go's
  map iteration (\<open>draws\<close>), the container runtime, the Prometheus client's own collectors, Redis and
  PostgreSQL failures, the choice PostgreSQL makes among several matches of an UPDATE (\<open>co_pick\<close>).

  \<^bold>\<open>Not modelled.\<close> The HTTP servers and the delivery of signals to the two daemons (the order of the boot,
  the wiring, what ends a process and its exit code are), and gin's routing; the Prometheus
  exposition format; the bytes of the JSON files (which record is written is); the rounding of \<^verbatim>\<open>float64\<close> and
  its negative zero; the pauses \<^verbatim>\<open>readBlock\<close> and \<^verbatim>\<open>retryPause\<close>, which only delay; the microsecond rounding
  of \<^verbatim>\<open>timestamptz\<close>. A transaction is its statements at read committed, with the row lock where the
  code takes one. Time has no maximum: a lock on an idempotency key expires when the schedule says
  so, not after thirty seconds of a clock.
\<close>

section \<open>From the cells' databases to the published matrix\<close>

text \<open>
  \<open>wrote rep k\<close>: \<open>k\<close> is the \<^verbatim>\<open>checker.json\<close> of the report \<open>rep\<close>. \<open>checked\<close>: the checker.json of a
  cell is that of a run of \<^verbatim>\<open>cmd/checker\<close> over the cell's directory and database.
\<close>

definition wrote :: "report \<Rightarrow> checker_json \<Rightarrow> bool" where
  "wrote rep k \<longleftrightarrow> kj_warnings k = Some (of_nat (rp_warnings rep)) \<and> kj_failures k = Some (of_nat (rp_failures rep)) \<and>
     kj_exit k = Some (of_nat (rp_exit rep)) \<and> (rp_chaos rep = None \<longleftrightarrow> kj_chaos k = [] \<or> kj_chaos k = ''null'')"

definition checked :: "(string \<Rightarrow> cell_files) \<Rightarrow> (planned \<Rightarrow> cell_dir) \<Rightarrow> (planned \<Rightarrow> db) \<Rightarrow> planned \<Rightarrow> bool" where
  "checked files dirs dbs w \<longleftrightarrow>
     (\<exists>k pg et run opened_pool down code lines rep. cf_checker (files (pl_name w)) = Decoded k \<and> wrote rep k \<and>
        execute_checker pg et run (dirs w) True None opened_pool down (dbs w) = (code, lines, Some rep)) \<and>
     schema_ok (dbs w) \<and> seq_ordered (dbs w)"

lemma checked_verify:
  assumes "checked files dirs dbs w"
  shows "\<exists>k run opened_pool down rep. cf_checker (files (pl_name w)) = Decoded k \<and> wrote rep k \<and>
    verify run (dirs w) opened_pool down (dbs w) = Inr rep"
proof -
  obtain k pg et run opened_pool down code lines rep where k: "cf_checker (files (pl_name w)) = Decoded k" "wrote rep k"
      and run: "execute_checker pg et run (dirs w) True None opened_pool down (dbs w) = (code, lines, Some rep)"
    using assms unfolding checked_def by blast
  have "verify run (dirs w) opened_pool down (dbs w) = Inr rep"
    using run by (cases "verify run (dirs w) opened_pool down (dbs w)") (simp_all add: execute_checker_def)
  with k show ?thesis by blast
qed

lemma place_findings_length:
  assumes "map f_id fs = [''I1'', ''I2'', ''I3'', ''I4'', ''I7'', ''I8'']"
  shows "length (place_findings aware fs) = 6 + length aware"
  using assms by (auto simp: place_findings_def map_eq_Cons_conv)

lemma verify_report:
  assumes "verify run dir opened_pool down d = Inr rep"
  shows "rp_failures rep \<le> 8" and "rp_failures rep = 0 \<Longrightarrow> execute run dir opened_pool down d = exitOK"
    and "\<exists>client. cd_client dir = Decoded client" and "readChaos (cd_chaos dir) = Inr (rp_chaos rep)"
proof -
  obtain client env chaos fs t where r: "readClient (cd_client dir) = Inr client" "readEnv (cd_env dir) = Inr env"
      "readChaos (cd_chaos dir) = Inr chaos" "checkSQL down d = Inr (fs, t)"
      "rep = (summarize run (place_findings [checkDurability t client env chaos, checkCellValidity client env chaos] fs))
        \<lparr>rp_chaos := chaos\<rparr>"
    using assms by (auto simp: verify_def split: sum.splits if_splits prod.splits)
  let ?all = "place_findings [checkDurability t client env chaos, checkCellValidity client env chaos] fs"
  have "length ?all = 8" using place_findings_length [OF checkSQL_verdicts(2) [OF r(4)]] by simp
  then show "rp_failures rep \<le> 8"
    using length_filter_le [of "\<lambda>f. f_verdict f = VerdictFail" ?all] by (simp add: r(5) summarize_def Let_def)
  show "execute run dir opened_pool down d = exitOK" if "rp_failures rep = 0"
    using that assms by (simp add: execute_def r(5) summarize_def Let_def)
  show "\<exists>client. cd_client dir = Decoded client"
    using r(1) by (auto simp: readClient_def read_file_def split: artefact.splits)
  show "readChaos (cd_chaos dir) = Inr (rp_chaos rep)" using r(3) by (simp add: r(5))
qed

lemma small_sum:
  assumes "\<forall>x \<in> set xs. f x \<le> (8 :: nat)" and "length xs \<le> 37" and "\<not> 0 <s (sum_list (map (\<lambda>x. of_nat (f x)) xs) :: i64)"
  shows "\<forall>x \<in> set xs. f x = 0"
proof -
  have "sum_list (map f xs) \<le> 8 * length xs" using assms(1) by (induction xs) auto
  then have small: "sum_list (map f xs) \<le> 296" using assms(2) by simp
  have sum: "(sum_list (map (\<lambda>x. of_nat (f x)) xs) :: i64) = of_nat (sum_list (map f xs))" by (induction xs) simp_all
  have "sint (of_nat (sum_list (map f xs)) :: i64) = int (sum_list (map f xs))"
    using small int_word_sint [where ?'a = 64, of "int (sum_list (map f xs))"]
    by (simp add: mod_pos_pos_trivial)
  then have "sum_list (map f xs) = 0" using assms(3) unfolding sum by (simp add: sless_iff_sint)
  then show ?thesis by simp
qed

lemma plan_length: "length (plan kind) \<le> 37"
proof (cases "kind = planSlice")
  case False
  then show ?thesis using arg_cong [OF plan_orders, of length] by (simp add: plan_other)
qed (simp add: slice_length)

lemma loaded_checker: "loaded_at files w = Some c \<Longrightarrow> cf_checker (files (pl_name w)) = Decoded (ld_checker c)"
  by (auto simp: loaded_at_def decoded_cell_def split: artefact.splits)

lemma execute_matrix_OK:
  assumes "fst (execute_matrix iter dir matrix kind listing files json_ok md_ok) = exitOK"
  shows "coherent_matrix kind listing files" and "\<not> 0 <s mx_failures (fst (read_matrix iter matrix kind listing files))"
  using assms refusals_core [of iter matrix kind listing files]
  by (auto simp: execute_matrix_def Let_def case_prod_unfold exitOK_def exitViolated_def exitUnverifiable_def split: if_splits)

text \<open>
  Claim C18. A published matrix is about correct cells. If \<^verbatim>\<open>cmd/matrix\<close> exits 0 on a directory
  whose every \<^verbatim>\<open>checker.json\<close> was written by \<^verbatim>\<open>cmd/checker\<close> over that cell's database, then every cell of
  the plan, the control included, ran without chaos and left a database that keeps the ledger's invariant,
  with a key on every bid.
\<close>
theorem published_matrix_is_certified:
  assumes "fst (execute_matrix iter dir matrix kind listing files json_ok md_ok) = exitOK"
    and "\<forall>w \<in> set (plan kind). checked files dirs dbs w"
  shows "\<forall>w \<in> set (plan kind). db_inv (dbs w) \<and> keys_complete (dbs w) \<and> readChaos (cd_chaos (dirs w)) = Inr None"
proof
  fix w
  assume w: "w \<in> set (plan kind)"
  note coh = execute_matrix_OK(1) [OF assms(1)]
  have "\<forall>v \<in> set (plan kind). \<exists>rep. \<exists>k run opened_pool down. cf_checker (files (pl_name v)) = Decoded k \<and> wrote rep k \<and>
      verify run (dirs v) opened_pool down (dbs v) = Inr rep"
    using assms(2) checked_verify by meson
  from bchoice [OF this] obtain rep where rep: "\<forall>v \<in> set (plan kind). \<exists>k run opened_pool down.
      cf_checker (files (pl_name v)) = Decoded k \<and> wrote (rep v) k \<and> verify run (dirs v) opened_pool down (dbs v) = Inr (rep v)"
    by blast
  have loaded: "\<exists>c. loaded_at files v = Some c \<and> failures_of c = of_nat (rp_failures (rep v)) \<and> wrote (rep v) (ld_checker c) \<and>
      verified (ld_checker c)" if v: "v \<in> set (plan kind)" for v
  proof -
    obtain c where c: "loaded_at files v = Some c" "verified (ld_checker c)"
      using coh v unfolding coherent_matrix_def coherent_def by blast
    then have "wrote (rep v) (ld_checker c)" using rep v loaded_checker [OF c(1)] by fastforce
    then show ?thesis using c by (simp add: failures_of_def wrote_def)
  qed
  have same: "map (\<lambda>v. failures_of (the (loaded_at files v))) (plan kind) = map (\<lambda>v. of_nat (rp_failures (rep v))) (plan kind)"
    using loaded by (intro map_cong refl) force
  have few: "\<forall>v \<in> set (plan kind). rp_failures (rep v) \<le> 8" using rep verify_report(1) by blast
  have quiet: "\<not> 0 <s (sum_list (map (\<lambda>v. of_nat (rp_failures (rep v))) (plan kind)) :: i64)"
    using execute_matrix_OK(2) [OF assms(1)] unfolding coherent_rows(2) [OF coh] same .
  have none: "rp_failures (rep w) = 0"
    by (rule small_sum [OF few plan_length quiet, THEN bspec, OF w])
  obtain run opened_pool down where v: "verify run (dirs w) opened_pool down (dbs w) = Inr (rep w)" using rep w by blast
  obtain client where "cd_client (dirs w) = Decoded client" using verify_report(3) [OF v] by blast
  with exit_zero_core [OF _ _ this verify_report(2) [OF v none]] assms(2) w
  have "db_inv (dbs w) \<and> keys_complete (dbs w)" by (auto simp: checked_def)
  moreover have "rp_chaos (rep w) = None" using loaded [OF w] by (auto simp: wrote_def verified_def)
  ultimately show "db_inv (dbs w) \<and> keys_complete (dbs w) \<and> readChaos (cd_chaos (dirs w)) = Inr None"
    using verify_report(4) [OF v] by simp
qed

text \<open>Ten cells over one seeded database, each with the report the checker writes about it.\<close>

lemma sample_report:
  "\<exists>rep. (\<exists>code lines. execute_checker sample_pg sample_errors ''r'' Checker.sample_cell True None True (\<lambda>_. False) keyed_bid_db =
       (code, lines, Some rep)) \<and> rp_failures rep = 0 \<and> rp_warnings rep = 0 \<and>
     rp_exit rep = 0 \<and> rp_chaos rep = None"
proof -
  have "case verify ''r'' Checker.sample_cell True (\<lambda>_. False) keyed_bid_db of
      Inr rep \<Rightarrow> rp_failures rep = 0 \<and> rp_warnings rep = 0 \<and> rp_exit rep = 0 \<and> rp_chaos rep = None | Inl _ \<Rightarrow> False"
    by code_simp
  then show ?thesis by (auto simp: execute_checker_def split: sum.splits)
qed

theorem published_matrix_is_certified_witness:
  "fst (execute_matrix in_order ''d'' ''m'' planSlice sample_listing (sample_files 0) True True) = exitOK \<and> keys_complete keyed_bid_db"
proof -
  have nothing: "mx_failures (fst (read_matrix in_order ''m'' planSlice sample_listing (sample_files 0))) = 0"
  proof -
    have "failures_of (the (loaded_at (sample_files 0) w)) = 0" if "w \<in> set (plan planSlice)" for w
      using sample_at [OF that, of 0] by auto
    then have zero: "map (\<lambda>w. failures_of (the (loaded_at (sample_files 0) w))) (plan planSlice) = map (\<lambda>_. 0) (plan planSlice)"
      by (intro map_cong refl)
    show ?thesis unfolding coherent_rows(2) [OF sample_coherent] zero by simp
  qed
  then have quiet: "\<not> 0 <s mx_failures (fst (read_matrix in_order ''m'' planSlice sample_listing (sample_files 0)))"
    by (simp only: signed.less_irrefl not_False_eq_True)
  have finite: "finite_rows (mx_cells (fst (read_matrix in_order ''m'' planSlice sample_listing (sample_files 0))))"
    using sample_finite by simp
  have run: "fst (execute_matrix in_order ''d'' ''m'' planSlice sample_listing (sample_files 0) True True) = exitOK"
    using refusals_core [of in_order "''m''" planSlice sample_listing "sample_files 0"] sample_coherent [of 0] quiet finite
      publish_ok [of "fst (read_matrix in_order ''m'' planSlice sample_listing (sample_files 0))" True True]
    by (simp add: execute_matrix_def Let_def case_prod_unfold)
  have "checked (sample_files 0) (\<lambda>_. Checker.sample_cell) (\<lambda>_. keyed_bid_db) w" for w
    using sample_report keyed_bid_inv db_inv_seq_ordered [OF keyed_bid_inv]
    by (force simp: checked_def wrote_def sample_files_def sample_cell_files_def db_inv_def)
  with published_matrix_is_certified [OF run, of "\<lambda>_. Checker.sample_cell" "\<lambda>_. keyed_bid_db"] run
  show ?thesis using hd_in_set [OF plan_nonempty, of planSlice] by blast
qed

end
